(* ===== verification/Net_Prelude.thy ===== *)
theory Net_Prelude
  imports Main "HOL-Library.Word"
begin

text \<open>
  The vocabulary the component theories share: the ways a run of the C++ can
  stop (\<open>stop\<close>), sequencing of fallible steps (\<open>bind_exec\<close>), the machine types,
  the errno values of the platform, \<^verbatim>\<open>std::map\<close> as a partial function with the
  inserting \<^verbatim>\<open>operator[]\<close>, and the generic lemmas the proofs lean on.
\<close>

unbundle bit_operations_syntax

named_theorems exec_simps \<open>evaluation of sequenced fallible steps\<close>
named_theorems inv_intros \<open>preservation of component invariants\<close>

section \<open>How a run can stop\<close>

text \<open>
  \<open>Assertion_Failed\<close> is a failing \<^verbatim>\<open>assert\<close> (the Makefile builds without
  \<^verbatim>\<open>NDEBUG\<close>), \<open>Process_Abort\<close> the \<^verbatim>\<open>abort()\<close> of \<^verbatim>\<open>CHECK\<close>, \<open>Process_Exit\<close> an
  \<^verbatim>\<open>exit(1)\<close>; the next five are undefined behaviour of the language; \<open>Diverges\<close> is a loop
  of the program that never ends; \<open>Pending\<close> says that the thread is inside a system call
  which has not answered yet.
\<close>

datatype stop =
    Assertion_Failed
  | Process_Abort
  | Process_Exit
  | Null_Deref
  | Use_After_Free
  | Out_Of_Range
  | Uninitialised_Read
  | Signed_Overflow
  | Diverges
  | Pending

type_synonym 'a exec = "stop + 'a"

definition bind_exec :: "'a exec \<Rightarrow> ('a \<Rightarrow> 'b exec) \<Rightarrow> 'b exec" where
  "bind_exec m f = (case m of Inl e \<Rightarrow> Inl e | Inr x \<Rightarrow> f x)"

definition check :: "bool \<Rightarrow> stop \<Rightarrow> unit exec" where
  "check b e = (if b then Inr () else Inl e)"

abbreviation c_assert :: "bool \<Rightarrow> unit exec" where
  "c_assert b \<equiv> check b Assertion_Failed"

lemma bind_exec_Inl [simp, exec_simps]: "bind_exec (Inl e) f = Inl e"
  by (simp add: bind_exec_def)

lemma bind_exec_Inr [simp, exec_simps]: "bind_exec (Inr x) f = f x"
  by (simp add: bind_exec_def)

lemma bind_exec_right [simp, exec_simps]: "bind_exec m Inr = m"
  by (cases m) simp_all

lemma bind_exec_eq_Inr [exec_simps]:
  "bind_exec m f = Inr y \<longleftrightarrow> (\<exists>x. m = Inr x \<and> f x = Inr y)"
  by (cases m) simp_all

lemma bind_exec_eq_Inl:
  "bind_exec m f = Inl e \<longleftrightarrow> m = Inl e \<or> (\<exists>x. m = Inr x \<and> f x = Inl e)"
  by (cases m) simp_all

lemma bind_exec_assoc: "bind_exec (bind_exec m f) g = bind_exec m (\<lambda>x. bind_exec (f x) g)"
  by (cases m) simp_all

lemma bind_exec_cong [fundef_cong]:
  "m = m' \<Longrightarrow> (\<And>x. m' = Inr x \<Longrightarrow> f x = f' x) \<Longrightarrow> bind_exec m f = bind_exec m' f'"
  by (cases m') simp_all

lemma check_True [simp, exec_simps]: "check True e = Inr ()"
  by (simp add: check_def)

lemma check_False [simp, exec_simps]: "check False e = Inl e"
  by (simp add: check_def)

lemma check_eq_Inr [simp]: "check b e = Inr u \<longleftrightarrow> b"
  by (simp add: check_def)

lemma check_eq_Inl [simp]: "check b e = Inl e' \<longleftrightarrow> \<not> b \<and> e' = e"
  by (auto simp: check_def)

text \<open>\<open>no_uaf m\<close>: the run does not stop by using a deleted object.\<close>

named_theorems uaf_intros \<open>absence of uses after free\<close>

definition no_uaf :: "'a exec \<Rightarrow> bool" where
  "no_uaf m \<longleftrightarrow> m \<noteq> Inl Use_After_Free"

lemma no_uaf_Inr [simp, uaf_intros]: "no_uaf (Inr x)"
  by (simp add: no_uaf_def)

lemma no_uaf_Inl [simp]: "no_uaf (Inl e) \<longleftrightarrow> e \<noteq> Use_After_Free"
  by (simp add: no_uaf_def)

lemma no_uaf_check [uaf_intros]: "b \<or> e \<noteq> Use_After_Free \<Longrightarrow> no_uaf (check b e)"
  by (auto simp: no_uaf_def check_def)

lemma no_uaf_bind [uaf_intros]:
  "no_uaf m \<Longrightarrow> (\<And>x. m = Inr x \<Longrightarrow> no_uaf (f x)) \<Longrightarrow> no_uaf (bind_exec m f)"
  by (cases m) (auto simp: no_uaf_def)

lemma no_uaf_if [uaf_intros]: "(b \<Longrightarrow> no_uaf m) \<Longrightarrow> (\<not> b \<Longrightarrow> no_uaf n) \<Longrightarrow> no_uaf (if b then m else n)"
  by simp

section \<open>Machine types\<close>

type_synonym byte = "8 word"
type_synonym bytes = "byte list"
type_synonym ptr = nat

abbreviation (input) NULL :: ptr where
  "NULL \<equiv> 0"

text \<open>
  \<open>c_int\<close> is the conversion of a wider integer to the 32-bit signed \<^verbatim>\<open>int\<close> (modulo
  \<open>2\<^sup>3\<^sup>2\<close>, as the platform's compilers define it).
\<close>

definition c_int :: "int \<Rightarrow> int" where
  "c_int n = signed_take_bit 31 n"

definition INT_MAX :: int where
  "INT_MAX = 2147483647"

lemma c_int_id: "- 2147483648 \<le> n \<Longrightarrow> n \<le> INT_MAX \<Longrightarrow> c_int n = n"
  unfolding c_int_def INT_MAX_def by (rule signed_take_bit_int_eq_self) simp_all

lemma c_int_nat_id [simp]: "int n \<le> INT_MAX \<Longrightarrow> c_int (int n) = int n"
  by (rule c_int_id) simp_all

lemma c_int_nat_wraps: "INT_MAX < int n \<Longrightarrow> int n \<le> 2 * INT_MAX + 1 \<Longrightarrow> c_int (int n) < 0"
proof -
  assume n: "INT_MAX < int n" "int n \<le> 2 * INT_MAX + 1"
  have "(int n + 2147483648) mod 4294967296 = (int n - 2147483648) mod 4294967296"
    using mod_add_self2 [of "int n - 2147483648" 4294967296] by (simp add: add.commute)
  also have "\<dots> = int n - 2147483648"
    using n by (intro mod_pos_pos_trivial) (simp_all add: INT_MAX_def)
  finally have "c_int (int n) = int n - 4294967296"
    unfolding c_int_def signed_take_bit_eq_take_bit_shift take_bit_eq_mod by simp
  with n show ?thesis by (simp add: INT_MAX_def)
qed

section \<open>errno values\<close>

definition ENOENT :: int where "ENOENT = 2"
definition EINTR :: int where "EINTR = 4"
definition EBADF :: int where "EBADF = 9"
definition EWOULDBLOCK :: int where "EWOULDBLOCK = 11"
definition EEXIST :: int where "EEXIST = 17"
definition EINVAL :: int where "EINVAL = 22"
definition ENOTSOCK :: int where "ENOTSOCK = 88"
definition EINPROGRESS :: int where "EINPROGRESS = 115"

lemmas errno_defs = ENOENT_def EINTR_def EBADF_def EWOULDBLOCK_def EEXIST_def EINVAL_def
  ENOTSOCK_def EINPROGRESS_def

section \<open>std::map and \<open>operator[]\<close>\<close>

text \<open>
  \<^verbatim>\<open>m[k]\<close> on a \<^verbatim>\<open>std::map<int, T*>\<close> inserts a null pointer when the key is
  missing; \<open>map_index\<close> returns the value and the possibly extended map.
\<close>

definition map_index :: "('k \<rightharpoonup> ptr) \<Rightarrow> 'k \<Rightarrow> ptr \<times> ('k \<rightharpoonup> ptr)" where
  "map_index m k = (case m k of Some p \<Rightarrow> (p, m) | None \<Rightarrow> (NULL, m(k \<mapsto> NULL)))"

definition live_keys :: "('k \<rightharpoonup> ptr) \<Rightarrow> 'k set" where
  "live_keys m = {k. \<exists>p. m k = Some p \<and> p \<noteq> NULL}"

lemma live_keys_index [simp]: "live_keys (snd (map_index m k)) = live_keys m"
  by (auto simp: live_keys_def map_index_def split: option.splits)

lemma fst_map_index: "fst (map_index m k) = (case m k of Some p \<Rightarrow> p | None \<Rightarrow> NULL)"
  by (simp add: map_index_def split: option.splits)

lemma map_index_null_iff: "fst (map_index m k) \<noteq> NULL \<longleftrightarrow> k \<in> live_keys m"
  by (auto simp: map_index_def live_keys_def split: option.splits)

lemma live_keys_upd [simp]:
  "live_keys (m(k \<mapsto> p)) = (if p = NULL then live_keys m - {k} else insert k (live_keys m))"
  by (auto simp: live_keys_def)

lemma live_keys_del [simp]: "live_keys (m(k := None)) = live_keys m - {k}"
  by (auto simp: live_keys_def)

lemma live_keys_empty [simp]: "live_keys Map.empty = {}"
  by (simp add: live_keys_def)

lemma live_keys_dom: "k \<notin> dom m \<Longrightarrow> k \<notin> live_keys m"
  by (auto simp: live_keys_def)


section \<open>The descriptors of the process\<close>

text \<open>What the system calls leave behind: the open descriptors and the status flags of each.\<close>

record net_state =
  ns_open :: "int set"
  ns_flags :: "int \<Rightarrow> 32 word"

definition net_close :: "int \<Rightarrow> net_state \<Rightarrow> net_state" where
  "net_close fd st = st\<lparr>ns_open := ns_open st - {fd}\<rparr>"

end
