(* ===== verification/Event_Dispatcher.thy ===== *)
theory Event_Dispatcher
  imports Net_Prelude
begin

text \<open>
  The abstract class of \<^verbatim>\<open>src/net/event_dispatcher.h\<close>: its virtual methods are the
  fields of a \<open>vtable\<close>, and what \<^verbatim>\<open>ServiceLoop\<close> relies on is the locale
  \<open>event_dispatcher\<close>. The three implementations are the theories \<open>Dispatcher_Select\<close>,
  \<open>Dispatcher_Poll\<close> and \<open>Dispatcher_Epoll\<close>.
\<close>

section \<open>Events\<close>

definition EVENT_READ :: int where "EVENT_READ = 0"
definition EVENT_WRITE :: int where "EVENT_WRITE = 1"
definition EVENT_ERROR :: int where "EVENT_ERROR = 2"

lemmas event_defs = EVENT_READ_def EVENT_WRITE_def EVENT_ERROR_def

type_synonym ready_event_t = "(int \<times> int) list"

section \<open>What the system answers to one wait\<close>

text \<open>
  \<^verbatim>\<open>select(2)\<close>, \<^verbatim>\<open>poll(2)\<close> and \<^verbatim>\<open>epoll_wait(2)\<close> are parameters: one \<open>os_wait\<close> holds
  the behaviour of the system during one call of \<^verbatim>\<open>handle_events\<close>. Each returns an errno
  (\<open>Inl\<close>) or its result (\<open>Inr\<close>): \<^verbatim>\<open>select\<close> the count and the three sets, \<^verbatim>\<open>poll\<close> the
  count and the \<^verbatim>\<open>revents\<close> of each array index, \<^verbatim>\<open>epoll_wait\<close> the event array.
\<close>

type_synonym fd_set = "int set"

record os_wait =
  os_select :: "int \<Rightarrow> fd_set \<Rightarrow> fd_set \<Rightarrow> fd_set \<Rightarrow> (int \<times> int) option \<Rightarrow>
    int + (int \<times> fd_set \<times> fd_set \<times> fd_set)"
  os_poll :: "(int \<times> 16 word) list \<Rightarrow> int \<Rightarrow> int + (int \<times> (nat \<Rightarrow> 16 word))"
  os_epoll_wait :: "int \<Rightarrow> int \<Rightarrow> int + (int \<times> 32 word) list"

section \<open>The abstract class\<close>

record 'd vtable =
  get_last_errno :: "'d \<Rightarrow> int"
  add_event :: "'d \<Rightarrow> int \<Rightarrow> bool \<Rightarrow> bool \<Rightarrow> (bool \<times> 'd) exec"
  mod_event :: "'d \<Rightarrow> int \<Rightarrow> bool \<Rightarrow> bool \<Rightarrow> (bool \<times> 'd) exec"
  del_event :: "'d \<Rightarrow> int \<Rightarrow> (bool \<times> 'd) exec"
  handle_events :: "'d \<Rightarrow> os_wait \<Rightarrow> ready_event_t \<Rightarrow> int \<Rightarrow> (int \<times> ready_event_t \<times> 'd) exec"
  destroy :: "'d \<Rightarrow> net_state \<Rightarrow> net_state"

text \<open>\<open>destroy\<close> is the virtual destructor: what it does to the descriptors of the process.\<close>

text \<open>
  The contract. \<open>watched d\<close> is the set of handles the dispatcher reports on, \<open>invar\<close> its
  invariant, \<open>admits d h\<close> the condition under which an operation on \<open>h\<close> is free of
  undefined behaviour, \<open>os_ok d os\<close> the documented behaviour of the wait call. Operations
  return whether they succeeded; a failure changes nothing that is watched and leaves a
  nonzero errno.
\<close>

locale event_dispatcher =
  fixes V :: "'d vtable"
    and watched :: "'d \<Rightarrow> int set"
    and invar :: "'d \<Rightarrow> bool"
    and admits :: "'d \<Rightarrow> int \<Rightarrow> bool"
    and os_ok :: "'d \<Rightarrow> os_wait \<Rightarrow> bool"
  assumes add_law: "invar d \<Longrightarrow> h \<notin> watched d \<Longrightarrow> add_event V d h r w = Inr (b, d') \<Longrightarrow>
      invar d' \<and> watched d' = (if b then insert h (watched d) else watched d) \<and>
      (\<not> b \<longrightarrow> get_last_errno V d' \<noteq> 0)"
    and mod_law: "invar d \<Longrightarrow> h \<in> watched d \<Longrightarrow> mod_event V d h r w = Inr (b, d') \<Longrightarrow>
      invar d' \<and> watched d' = watched d \<and> (\<not> b \<longrightarrow> get_last_errno V d' \<noteq> 0)"
    and del_law: "invar d \<Longrightarrow> del_event V d h = Inr (b, d') \<Longrightarrow>
      invar d' \<and> watched d' = (if b then watched d - {h} else watched d) \<and>
      (\<not> b \<longrightarrow> get_last_errno V d' \<noteq> 0)"
    and add_returns: "invar d \<Longrightarrow> admits d h \<Longrightarrow> r \<or> w \<Longrightarrow> \<exists>b d'. add_event V d h r w = Inr (b, d')"
    and mod_returns: "invar d \<Longrightarrow> admits d h \<Longrightarrow> h \<in> watched d \<Longrightarrow> r \<or> w \<Longrightarrow>
      \<exists>b d'. mod_event V d h r w = Inr (b, d')"
    and del_returns: "invar d \<Longrightarrow> admits d h \<Longrightarrow> \<exists>b d'. del_event V d h = Inr (b, d')"
    and wait_keeps: "invar d \<Longrightarrow> handle_events V d os [] t = Inr (n, ready, d') \<Longrightarrow>
      invar d' \<and> watched d' = watched d"
    and wait_reports: "invar d \<Longrightarrow> os_ok d os \<Longrightarrow> handle_events V d os [] t = Inr (n, ready, d') \<Longrightarrow>
      fst ` set ready \<subseteq> watched d \<and> snd ` set ready \<subseteq> {EVENT_READ, EVENT_WRITE, EVENT_ERROR}"
    and wait_returns: "invar d \<Longrightarrow> os_ok d os \<Longrightarrow> watched d \<noteq> {} \<Longrightarrow>
      \<exists>n ready d'. handle_events V d os [] t = Inr (n, ready, d')"

text \<open>
  A dispatcher whose registrations are exact: after a successful \<^verbatim>\<open>add_event\<close> of a new
  handle or \<^verbatim>\<open>mod_event\<close> of a watched one, the directions watched are the two arguments, and
  no operation changes the directions of another handle.
\<close>

locale exact_dispatcher = event_dispatcher +
  fixes wants :: "'d \<Rightarrow> int \<Rightarrow> bool \<times> bool"
  assumes add_wants: "invar d \<Longrightarrow> h \<notin> watched d \<Longrightarrow> add_event V d h r w = Inr (True, d') \<Longrightarrow>
      wants d' = (wants d)(h := (r, w))"
    and mod_wants: "invar d \<Longrightarrow> h \<in> watched d \<Longrightarrow> mod_event V d h r w = Inr (True, d') \<Longrightarrow>
      wants d' = (wants d)(h := (r, w))"
    and del_wants: "invar d \<Longrightarrow> del_event V d h = Inr (True, d') \<Longrightarrow> k \<noteq> h \<Longrightarrow> wants d' k = wants d k"
begin

text \<open>The last successful \<^verbatim>\<open>mod_event\<close> decides, whatever was asked before.\<close>

lemma mod_mod_wants:
  assumes "invar d" "h \<in> watched d"
    and "mod_event V d h r w = Inr (True, d1)" "mod_event V d1 h r' w' = Inr (True, d2)"
  shows "wants d2 h = (r', w')"
proof -
  from assms(1-3) have "invar d1" "h \<in> watched d1" by (auto dest: mod_law)
  with assms(4) show ?thesis by (auto dest: mod_wants)
qed

end

end
