(* ===== verification/Dispatcher_Select.thy ===== *)
theory Dispatcher_Select
  imports Event_Dispatcher
begin

text \<open>
  \<^verbatim>\<open>src/net/dispatcher/select.cc\<close>. An \<^verbatim>\<open>fd_set\<close> is the set of its bits; \<^verbatim>\<open>FD_SET\<close> and
  \<^verbatim>\<open>FD_CLR\<close> outside \<open>0..<FD_SETSIZE\<close> are undefined (they write past the array) and stop
  the model with \<open>Out_Of_Range\<close>; the code never checks the range.
\<close>

definition FD_SETSIZE :: int where
  "FD_SETSIZE = 1024"

definition fd_in_range :: "int \<Rightarrow> bool" where
  "fd_in_range h \<longleftrightarrow> 0 \<le> h \<and> h < FD_SETSIZE"

definition FD_SET :: "int \<Rightarrow> fd_set \<Rightarrow> fd_set exec" where
  "FD_SET h s = (if fd_in_range h then Inr (insert h s) else Inl Out_Of_Range)"

definition FD_CLR :: "int \<Rightarrow> fd_set \<Rightarrow> fd_set exec" where
  "FD_CLR h s = (if fd_in_range h then Inr (s - {h}) else Inl Out_Of_Range)"

record dispatcher_select =
  sel_maxfd :: int
  sel_last_errno :: int
  sel_rsets :: fd_set
  sel_wsets :: fd_set
  sel_esets :: fd_set

definition select_new :: dispatcher_select where
  "select_new = \<lparr>sel_maxfd = -1, sel_last_errno = 0, sel_rsets = {}, sel_wsets = {}, sel_esets = {}\<rparr>"

definition select_add_event ::
  "dispatcher_select \<Rightarrow> int \<Rightarrow> bool \<Rightarrow> bool \<Rightarrow> (bool \<times> dispatcher_select) exec" where
  "select_add_event d h readable writeable =
     bind_exec (if readable then FD_SET h (sel_rsets d) else Inr (sel_rsets d)) (\<lambda>rs.
     bind_exec (if writeable then FD_SET h (sel_wsets d) else Inr (sel_wsets d)) (\<lambda>ws.
     bind_exec (FD_SET h (sel_esets d)) (\<lambda>es.
       Inr (True, d\<lparr>sel_rsets := rs, sel_wsets := ws, sel_esets := es,
                    sel_maxfd := (if h > sel_maxfd d then h else sel_maxfd d)\<rparr>))))"

definition select_mod_event ::
  "dispatcher_select \<Rightarrow> int \<Rightarrow> bool \<Rightarrow> bool \<Rightarrow> (bool \<times> dispatcher_select) exec" where
  "select_mod_event d h readable writeable =
     bind_exec (if readable then FD_SET h (sel_rsets d) else FD_CLR h (sel_rsets d)) (\<lambda>rs.
     bind_exec (if writeable then FD_SET h (sel_wsets d) else FD_CLR h (sel_wsets d)) (\<lambda>ws.
       Inr (True, d\<lparr>sel_rsets := rs, sel_wsets := ws\<rparr>)))"

definition select_del_event :: "dispatcher_select \<Rightarrow> int \<Rightarrow> (bool \<times> dispatcher_select) exec" where
  "select_del_event d h =
     bind_exec (FD_CLR h (sel_rsets d)) (\<lambda>rs.
     bind_exec (FD_CLR h (sel_wsets d)) (\<lambda>ws.
     bind_exec (FD_CLR h (sel_esets d)) (\<lambda>es.
       Inr (True, d\<lparr>sel_rsets := rs, sel_wsets := ws, sel_esets := es\<rparr>))))"

text \<open>
  The scan over \<open>0..maxfd_\<close>; the three tests are in the order of the code. \<^verbatim>\<open>FD_ISSET\<close> is a
  read inside the array as long as \<open>maxfd_ < FD_SETSIZE\<close>, which the successful
  \<^verbatim>\<open>FD_SET\<close> of every added handle ensures.
\<close>

definition select_events_of :: "fd_set \<Rightarrow> fd_set \<Rightarrow> fd_set \<Rightarrow> int \<Rightarrow> ready_event_t" where
  "select_events_of rs ws es i =
     (if i \<in> rs then [(i, EVENT_READ)] else []) @
     (if i \<in> ws then [(i, EVENT_WRITE)] else []) @
     (if i \<in> es then [(i, EVENT_ERROR)] else [])"

definition select_scan :: "int \<Rightarrow> fd_set \<Rightarrow> fd_set \<Rightarrow> fd_set \<Rightarrow> ready_event_t" where
  "select_scan maxfd rs ws es = concat (map (select_events_of rs ws es) (map int [0..<nat (maxfd + 1)]))"

definition select_timeval :: "int \<Rightarrow> (int \<times> int) option" where
  "select_timeval timeout_ms =
     (if timeout_ms \<ge> 0 then Some (timeout_ms div 1000, timeout_ms mod 1000 * 1000) else None)"

definition select_handle_events ::
  "dispatcher_select \<Rightarrow> os_wait \<Rightarrow> ready_event_t \<Rightarrow> int \<Rightarrow> (int \<times> ready_event_t \<times> dispatcher_select) exec" where
  "select_handle_events d os ready timeout_ms =
     (case os_select os (sel_maxfd d + 1) (sel_rsets d) (sel_wsets d) (sel_esets d) (select_timeval timeout_ms) of
        Inl e \<Rightarrow> Inr (-1, ready, d\<lparr>sel_last_errno := e\<rparr>)
      | Inr (ret, rs, ws, es) \<Rightarrow>
          if ret = 0 then Inr (0, ready, d)
          else Inr (ret, ready @ select_scan (sel_maxfd d) rs ws es, d))"

definition select_delete :: "dispatcher_select \<Rightarrow> net_state \<Rightarrow> net_state" where
  "select_delete d st = st"

definition select_vtable :: "dispatcher_select vtable" where
  "select_vtable = \<lparr>get_last_errno = sel_last_errno, add_event = select_add_event,
     mod_event = select_mod_event, del_event = select_del_event, handle_events = select_handle_events, destroy = select_delete\<rparr>"

lemmas fdset_op_defs = FD_SET_def FD_CLR_def select_add_event_def select_mod_event_def select_del_event_def

section \<open>Invariant and contract\<close>

definition select_invar :: "dispatcher_select \<Rightarrow> bool" where
  "select_invar d \<longleftrightarrow> sel_rsets d \<union> sel_wsets d \<subseteq> sel_esets d \<and> sel_esets d \<subseteq> {0..sel_maxfd d} \<and>
     sel_maxfd d < FD_SETSIZE"

definition select_wants :: "dispatcher_select \<Rightarrow> int \<Rightarrow> bool \<times> bool" where
  "select_wants d h = (h \<in> sel_rsets d, h \<in> sel_wsets d)"

text \<open>
  The documented part of \<^verbatim>\<open>select(2)\<close>: on success the result sets are subsets of the
  arguments.
\<close>

definition select_os_ok :: "dispatcher_select \<Rightarrow> os_wait \<Rightarrow> bool" where
  "select_os_ok d os \<longleftrightarrow> (\<forall>n r w e tv k rs ws es. os_select os n r w e tv = Inr (k, rs, ws, es) \<longrightarrow>
     rs \<subseteq> r \<and> ws \<subseteq> w \<and> es \<subseteq> e)"

lemma select_invar_new [inv_intros]: "select_invar select_new"
  by (simp add: select_invar_def select_new_def FD_SETSIZE_def)

lemma select_scan_set:
  "set (select_scan m rs ws es) =
     {(i, EVENT_READ) | i. 0 \<le> i \<and> i \<le> m \<and> i \<in> rs} \<union> {(i, EVENT_WRITE) | i. 0 \<le> i \<and> i \<le> m \<and> i \<in> ws} \<union>
     {(i, EVENT_ERROR) | i. 0 \<le> i \<and> i \<le> m \<and> i \<in> es}" (is "?l = ?r")
proof -
  have range: "int ` {0..<nat (m + 1)} = {0..m}"
    by (auto simp: image_int_atLeastLessThan)
  have "?l = (\<Union>i\<in>{0..m}. set (select_events_of rs ws es i))"
    unfolding select_scan_def range [symmetric] by simp
  also have "\<dots> = ?r"
    unfolding select_events_of_def by auto
  finally show ?thesis .
qed

lemma select_scan_fds: "fst ` set (select_scan m rs ws es) \<subseteq> rs \<union> ws \<union> es"
  unfolding select_scan_set by auto

lemma select_scan_events: "snd ` set (select_scan m rs ws es) \<subseteq> {EVENT_READ, EVENT_WRITE, EVENT_ERROR}"
  unfolding select_scan_set by auto

lemma sorted_concat_map_int:
  "(\<And>i. set (map fst (g i)) \<subseteq> {i}) \<Longrightarrow> sorted (map fst (concat (map g (map int [m..<n]))))"
proof (induction n)
  case (Suc n)
  have const: "sorted (map fst xs)" if "set (map fst xs) \<subseteq> {int n}" for xs :: "(int \<times> 'b) list"
    using that by (induction xs) auto
  show ?case
  proof (cases "m \<le> n")
    case True
    have "fst x \<le> int n" if "x \<in> set (concat (map g (map int [m..<n])))" for x
      using that Suc.prems by (fastforce simp: subset_iff)
    moreover have "fst y = int n" if "y \<in> set (g (int n))" for y
      using that Suc.prems [of "int n"] by auto
    ultimately show ?thesis
      using True Suc const [of "g (int n)"] by (auto simp: sorted_append)
  qed simp
qed simp

lemma select_scan_sorted: "sorted (map fst (select_scan m rs ws es))"
  unfolding select_scan_def by (rule sorted_concat_map_int) (auto simp: select_events_of_def)

lemma select_scan_distinct: "distinct (select_scan m rs ws es)"
proof -
  have "distinct (concat (map (select_events_of rs ws es) (map int [0..<n])))" for n
  proof (induction n)
    case (Suc n)
    have "distinct (select_events_of rs ws es (int n))" by (simp add: select_events_of_def event_defs)
    with Suc show ?case by (auto simp: select_events_of_def split: if_splits)
  qed simp
  then show ?thesis unfolding select_scan_def .
qed

lemma select_wait_keeps:
  assumes "select_invar d" and "select_handle_events d os [] t = Inr (n, ready, d')"
  shows "select_invar d'" "sel_esets d' = sel_esets d"
proof -
  have d': "sel_esets d' = sel_esets d" "sel_rsets d' = sel_rsets d" "sel_wsets d' = sel_wsets d" "sel_maxfd d' = sel_maxfd d"
    using assms(2) by (auto simp: select_handle_events_def split: sum.splits if_splits)
  show "sel_esets d' = sel_esets d" by (rule d')
  show "select_invar d'" using assms(1) d' by (simp add: select_invar_def)
qed

lemma select_wait_ready:
  assumes "select_invar d" "select_os_ok d os"
    and "select_handle_events d os [] t = Inr (n, ready, d')"
  shows "fst ` set ready \<subseteq> sel_esets d"
    "snd ` set ready \<subseteq> {EVENT_READ, EVENT_WRITE, EVENT_ERROR}"
proof -
  let ?ans = "os_select os (sel_maxfd d + 1) (sel_rsets d) (sel_wsets d) (sel_esets d) (select_timeval t)"
  have sub: "rs \<subseteq> sel_rsets d \<and> ws \<subseteq> sel_wsets d \<and> es \<subseteq> sel_esets d" if "?ans = Inr (k, rs, ws, es)" for k rs ws es
    using assms(2) that unfolding select_os_ok_def by metis
  have cases: "ready = [] \<or> (\<exists>k rs ws es. ?ans = Inr (k, rs, ws, es) \<and> ready = select_scan (sel_maxfd d) rs ws es)"
    using assms(3) by (auto simp: select_handle_events_def split: sum.splits if_splits)
  from cases show "fst ` set ready \<subseteq> sel_esets d"
  proof (elim disjE exE conjE)
    fix k rs ws es
    assume ans: "?ans = Inr (k, rs, ws, es)" and r: "ready = select_scan (sel_maxfd d) rs ws es"
    from sub [OF ans] assms(1) have "rs \<union> ws \<union> es \<subseteq> sel_esets d"
      by (auto simp: select_invar_def)
    with select_scan_fds [of "sel_maxfd d" rs ws es] show ?thesis unfolding r by (rule subset_trans)
  qed simp
  from cases show "snd ` set ready \<subseteq> {EVENT_READ, EVENT_WRITE, EVENT_ERROR}"
    using select_scan_events by (elim disjE exE conjE) (simp, simp only:)
qed

interpretation sel: exact_dispatcher select_vtable sel_esets select_invar "\<lambda>d. fd_in_range" select_os_ok select_wants
proof (unfold_locales, goal_cases)
  case (7 d os t n ready d')
  then show ?case using select_wait_keeps [of d os t n ready d'] by (simp add: select_vtable_def)
next
  case (8 d os t n ready d')
  then show ?case using select_wait_ready [of d os t n ready d'] by (simp add: select_vtable_def)
next
  case (9 d os t)
  then show ?case
    by (auto simp: select_vtable_def select_handle_events_def split: sum.splits)
qed (auto simp: select_vtable_def fdset_op_defs select_invar_def select_wants_def fd_in_range_def fun_eq_iff
       split: if_splits)

end
