(* ===== verification/Dispatcher_Poll.thy ===== *)
theory Dispatcher_Poll
  imports Event_Dispatcher
begin

text \<open>
  \<^verbatim>\<open>src/net/dispatcher/poll.cc\<close>: a vector of \<^verbatim>\<open>pollfd\<close> records. \<^verbatim>\<open>add_event\<close> always appends,
  \<^verbatim>\<open>mod_event\<close> replaces the first entry of the handle (and asserts when there is none),
  \<^verbatim>\<open>del_event\<close> erases the first.
\<close>

definition POLLIN :: "16 word" where "POLLIN = 1"
definition POLLPRI :: "16 word" where "POLLPRI = 2"
definition POLLOUT :: "16 word" where "POLLOUT = 4"
definition POLLERR :: "16 word" where "POLLERR = 8"
definition POLLHUP :: "16 word" where "POLLHUP = 16"

lemmas poll_flag_defs = POLLIN_def POLLPRI_def POLLOUT_def POLLERR_def POLLHUP_def

record pollfd =
  pfd_fd :: int
  pfd_events :: "16 word"
  pfd_revents :: "16 word"

record dispatcher_poll =
  poll_last_errno :: int
  poll_fds :: "pollfd list"

definition poll_new :: dispatcher_poll where
  "poll_new = \<lparr>poll_last_errno = 0, poll_fds = []\<rparr>"

definition poll_make_pfd :: "int \<Rightarrow> bool \<Rightarrow> bool \<Rightarrow> pollfd" where
  "poll_make_pfd h readable writeable =
     (let e0 = POLLERR OR POLLHUP;
          e1 = (if readable then e0 OR (POLLIN OR POLLPRI) else e0);
          e2 = (if writeable then e1 OR POLLOUT else e1)
      in \<lparr>pfd_fd = h, pfd_events = e2, pfd_revents = 0\<rparr>)"

definition poll_add_event :: "dispatcher_poll \<Rightarrow> int \<Rightarrow> bool \<Rightarrow> bool \<Rightarrow> (bool \<times> dispatcher_poll) exec" where
  "poll_add_event d h readable writeable =
     Inr (True, d\<lparr>poll_fds := poll_fds d @ [poll_make_pfd h readable writeable]\<rparr>)"

fun pfds_replace :: "int \<Rightarrow> pollfd \<Rightarrow> pollfd list \<Rightarrow> pollfd list option" where
  "pfds_replace h new [] = None"
| "pfds_replace h new (p # ps) =
     (if h = pfd_fd p then Some (new # ps) else map_option (Cons p) (pfds_replace h new ps))"

definition poll_mod_event :: "dispatcher_poll \<Rightarrow> int \<Rightarrow> bool \<Rightarrow> bool \<Rightarrow> (bool \<times> dispatcher_poll) exec" where
  "poll_mod_event d h readable writeable =
     (case pfds_replace h (poll_make_pfd h readable writeable) (poll_fds d) of
        Some ps \<Rightarrow> Inr (True, d\<lparr>poll_fds := ps\<rparr>)
      | None \<Rightarrow> bind_exec (c_assert False) (\<lambda>_. Inr (False, d\<lparr>poll_last_errno := ENOTSOCK\<rparr>)))"

fun pfds_erase :: "int \<Rightarrow> pollfd list \<Rightarrow> pollfd list" where
  "pfds_erase h [] = []"
| "pfds_erase h (p # ps) = (if h = pfd_fd p then ps else p # pfds_erase h ps)"

definition poll_del_event :: "dispatcher_poll \<Rightarrow> int \<Rightarrow> (bool \<times> dispatcher_poll) exec" where
  "poll_del_event d h = Inr (True, d\<lparr>poll_fds := pfds_erase h (poll_fds d)\<rparr>)"

definition poll_events_of :: "pollfd \<Rightarrow> ready_event_t" where
  "poll_events_of p =
     (if pfd_revents p AND (POLLIN OR POLLPRI) \<noteq> 0 then [(pfd_fd p, EVENT_READ)] else []) @
     (if pfd_revents p AND POLLOUT \<noteq> 0 then [(pfd_fd p, EVENT_WRITE)] else []) @
     (if pfd_revents p AND (POLLERR OR POLLHUP) \<noteq> 0 then [(pfd_fd p, EVENT_ERROR)] else [])"

definition poll_store_revents :: "(nat \<Rightarrow> 16 word) \<Rightarrow> pollfd list \<Rightarrow> pollfd list" where
  "poll_store_revents f ps = map (\<lambda>(i, p). p\<lparr>pfd_revents := f i\<rparr>) (enumerate 0 ps)"

text \<open>\<^verbatim>\<open>&pollfds_[0]\<close> is undefined on an empty vector.\<close>

definition poll_handle_events ::
  "dispatcher_poll \<Rightarrow> os_wait \<Rightarrow> ready_event_t \<Rightarrow> int \<Rightarrow> (int \<times> ready_event_t \<times> dispatcher_poll) exec" where
  "poll_handle_events d os ready timeout_ms =
     bind_exec (check (poll_fds d \<noteq> []) Out_Of_Range) (\<lambda>_.
       case os_poll os (map (\<lambda>p. (pfd_fd p, pfd_events p)) (poll_fds d)) timeout_ms of
         Inl e \<Rightarrow> Inr (-1, ready, d\<lparr>poll_last_errno := e\<rparr>)
       | Inr (ret, revents) \<Rightarrow>
           let ps = poll_store_revents revents (poll_fds d) in
           if ret = 0 then Inr (ret, ready, d\<lparr>poll_fds := ps\<rparr>)
           else Inr (ret, ready @ concat (map poll_events_of ps), d\<lparr>poll_fds := ps\<rparr>))"

definition poll_delete :: "dispatcher_poll \<Rightarrow> net_state \<Rightarrow> net_state" where
  "poll_delete d st = st"

definition poll_vtable :: "dispatcher_poll vtable" where
  "poll_vtable = \<lparr>get_last_errno = poll_last_errno, add_event = poll_add_event,
     mod_event = poll_mod_event, del_event = poll_del_event, handle_events = poll_handle_events, destroy = poll_delete\<rparr>"

section \<open>Invariant and contract\<close>

definition poll_watched :: "dispatcher_poll \<Rightarrow> int set" where
  "poll_watched d = pfd_fd ` set (poll_fds d)"

definition poll_invar :: "dispatcher_poll \<Rightarrow> bool" where
  "poll_invar d \<longleftrightarrow> distinct (map pfd_fd (poll_fds d))"

definition pfds_wants :: "pollfd list \<Rightarrow> int \<Rightarrow> bool \<times> bool" where
  "pfds_wants ps h =
     (case find (\<lambda>p. h = pfd_fd p) ps of
        None \<Rightarrow> (False, False)
      | Some p \<Rightarrow> (pfd_events p AND POLLIN \<noteq> 0, pfd_events p AND POLLOUT \<noteq> 0))"

definition poll_wants :: "dispatcher_poll \<Rightarrow> int \<Rightarrow> bool \<times> bool" where
  "poll_wants d = pfds_wants (poll_fds d)"

lemma poll_invar_new [inv_intros]: "poll_invar poll_new"
  by (simp add: poll_invar_def poll_new_def)

lemma pfds_wants_Cons:
  "pfds_wants (p # ps) h =
     (if h = pfd_fd p then (pfd_events p AND POLLIN \<noteq> 0, pfd_events p AND POLLOUT \<noteq> 0) else pfds_wants ps h)"
  by (simp add: pfds_wants_def)

lemma pfd_fd_make [simp]: "pfd_fd (poll_make_pfd h r w) = h"
  by (simp add: poll_make_pfd_def Let_def)

lemma poll_make_pfd_bits:
  "(pfd_events (poll_make_pfd h r w) AND POLLIN \<noteq> 0) = r"
  "(pfd_events (poll_make_pfd h r w) AND POLLOUT \<noteq> 0) = w"
  by (simp_all add: poll_make_pfd_def Let_def poll_flag_defs)

lemma pfds_wants_append:
  "h \<notin> pfd_fd ` set ps \<Longrightarrow> pfds_wants (ps @ [poll_make_pfd h r w]) = (pfds_wants ps)(h := (r, w))"
proof (induction ps)
  case Nil
  then show ?case by (simp add: fun_eq_iff pfds_wants_Cons poll_make_pfd_bits)
next
  case (Cons p ps)
  then show ?case by (auto simp: fun_eq_iff pfds_wants_Cons)
qed

lemma pfds_replace_None: "pfds_replace h new ps = None \<longleftrightarrow> h \<notin> pfd_fd ` set ps"
  by (induction ps) auto

lemma pfds_replace_fds: "pfds_replace h new ps = Some qs \<Longrightarrow> pfd_fd new = h \<Longrightarrow> map pfd_fd qs = map pfd_fd ps"
  by (induction ps arbitrary: qs) (auto split: if_splits)

lemma pfds_replace_wants:
  "pfds_replace h (poll_make_pfd h r w) ps = Some qs \<Longrightarrow> pfds_wants qs = (pfds_wants ps)(h := (r, w))"
  by (induction ps arbitrary: qs)
    (auto simp: fun_eq_iff pfds_wants_Cons poll_make_pfd_bits split: if_splits)

lemma pfds_erase_fds: "distinct (map pfd_fd ps) \<Longrightarrow>
  pfd_fd ` set (pfds_erase h ps) = pfd_fd ` set ps - {h} \<and> distinct (map pfd_fd (pfds_erase h ps))"
  by (induction ps) auto

lemma pfds_erase_wants: "k \<noteq> h \<Longrightarrow> pfds_wants (pfds_erase h ps) k = pfds_wants ps k"
  by (induction ps) (auto simp: pfds_wants_Cons)

lemma poll_store_revents_fds [simp]: "map pfd_fd (poll_store_revents f ps) = map pfd_fd ps"
proof -
  have "map pfd_fd (poll_store_revents f ps) = map (pfd_fd \<circ> snd) (enumerate 0 ps)"
    by (simp add: poll_store_revents_def case_prod_beta)
  also have "\<dots> = map pfd_fd (map snd (enumerate 0 ps))" by (rule map_map [symmetric])
  finally show ?thesis by simp
qed

lemma poll_store_revents_set [simp]: "pfd_fd ` set (poll_store_revents f ps) = pfd_fd ` set ps"
  by (metis poll_store_revents_fds list.set_map)

lemma poll_events_of_fds: "fst ` set (concat (map poll_events_of ps)) \<subseteq> pfd_fd ` set ps"
  by (auto simp: poll_events_of_def split: if_splits)

lemma poll_events_of_evs: "snd ` set (concat (map poll_events_of ps)) \<subseteq> {EVENT_READ, EVENT_WRITE, EVENT_ERROR}"
  by (auto simp: poll_events_of_def split: if_splits)

lemma poll_wait_ready:
  assumes "poll_invar d" and "poll_handle_events d os [] t = Inr (n, ready, d')"
  shows "poll_invar d'" "poll_watched d' = poll_watched d" "fst ` set ready \<subseteq> poll_watched d"
    "snd ` set ready \<subseteq> {EVENT_READ, EVENT_WRITE, EVENT_ERROR}"
proof -
  have r: "\<exists>f. ready = [] \<or> ready = concat (map poll_events_of (poll_store_revents f (poll_fds d)))"
    and d': "map pfd_fd (poll_fds d') = map pfd_fd (poll_fds d)"
    using assms(2)
    by (auto simp: poll_handle_events_def exec_simps Let_def split: sum.splits if_splits)
  from r obtain f where
    r: "ready = [] \<or> ready = concat (map poll_events_of (poll_store_revents f (poll_fds d)))" ..
  show "poll_invar d'" using assms(1) d' by (simp add: poll_invar_def)
  show "poll_watched d' = poll_watched d"
    using arg_cong [OF d', of set] by (simp add: poll_watched_def)
  show "fst ` set ready \<subseteq> poll_watched d"
    using r poll_events_of_fds [of "poll_store_revents f (poll_fds d)"]
    unfolding poll_watched_def poll_store_revents_set by (elim disjE) (simp_all only: list.set image_empty empty_subsetI)
  show "snd ` set ready \<subseteq> {EVENT_READ, EVENT_WRITE, EVENT_ERROR}"
    using r poll_events_of_evs [of "poll_store_revents f (poll_fds d)"]
    by (elim disjE) (simp_all only: list.set image_empty empty_subsetI)
qed

lemma poll_add_law:
  "poll_invar d \<Longrightarrow> h \<notin> poll_watched d \<Longrightarrow> poll_add_event d h r w = Inr (b, d') \<Longrightarrow>
   b \<and> poll_invar d' \<and> poll_watched d' = insert h (poll_watched d) \<and> poll_wants d' = (poll_wants d)(h := (r, w))"
  by (auto simp: poll_add_event_def poll_invar_def poll_watched_def poll_wants_def pfds_wants_append)

lemma poll_mod_law:
  assumes "poll_invar d" "poll_mod_event d h r w = Inr (b, d')"
  shows "b \<and> poll_invar d' \<and> poll_watched d' = poll_watched d \<and> poll_wants d' = (poll_wants d)(h := (r, w))"
proof -
  obtain qs where q: "pfds_replace h (poll_make_pfd h r w) (poll_fds d) = Some qs"
    and d': "b" "d' = d\<lparr>poll_fds := qs\<rparr>"
    using assms(2) by (auto simp: poll_mod_event_def split: option.splits)
  from q have "map pfd_fd qs = map pfd_fd (poll_fds d)" by (rule pfds_replace_fds) simp
  moreover from this have "pfd_fd ` set qs = pfd_fd ` set (poll_fds d)" by (metis list.set_map)
  ultimately show ?thesis
    using assms(1) d' pfds_replace_wants [OF q]
    by (simp add: poll_invar_def poll_watched_def poll_wants_def)
qed

lemma poll_del_law:
  "poll_invar d \<Longrightarrow> poll_del_event d h = Inr (b, d') \<Longrightarrow>
   b \<and> poll_invar d' \<and> poll_watched d' = poll_watched d - {h} \<and> (\<forall>k. k \<noteq> h \<longrightarrow> poll_wants d' k = poll_wants d k)"
  using pfds_erase_fds [of "poll_fds d" h]
  by (auto simp: poll_del_event_def poll_invar_def poll_watched_def poll_wants_def pfds_erase_wants)

interpretation pol: exact_dispatcher poll_vtable poll_watched poll_invar "\<lambda>d h. True" "\<lambda>d os. True" poll_wants
proof (unfold_locales, goal_cases)
  case (1 d h r w b d')
  then show ?case using poll_add_law [of d h r w b d'] by (simp add: poll_vtable_def)
next
  case (2 d h r w b d')
  then show ?case using poll_mod_law [of d h r w b d'] by (simp add: poll_vtable_def)
next
  case (3 d h b d')
  then show ?case using poll_del_law [of d h b d'] by (simp add: poll_vtable_def)
next
  case (5 d h r w)
  then have "pfds_replace h (poll_make_pfd h r w) (poll_fds d) \<noteq> None"
    unfolding pfds_replace_None by (simp add: poll_watched_def)
  then show ?case by (auto simp: poll_vtable_def poll_mod_event_def)
next
  case (7 d os t n ready d')
  then show ?case using poll_wait_ready [of d os t n ready d'] by (simp add: poll_vtable_def)
next
  case (8 d os t n ready d')
  then show ?case using poll_wait_ready [of d os t n ready d'] by (simp add: poll_vtable_def)
next
  case (9 d os t)
  then show ?case
    by (auto simp: poll_vtable_def poll_handle_events_def poll_watched_def Let_def split: sum.splits)
next
  case (10 d h r w d')
  then show ?case using poll_add_law [of d h r w True d'] by (simp add: poll_vtable_def)
next
  case (11 d h r w d')
  then show ?case using poll_mod_law [of d h r w True d'] by (simp add: poll_vtable_def)
next
  case (12 d h d' k)
  then show ?case using poll_del_law [of d h True d'] by (simp add: poll_vtable_def)
qed (auto simp: poll_vtable_def poll_add_event_def poll_del_event_def)

end
