(* ===== verification/Dispatcher_Epoll.thy ===== *)
theory Dispatcher_Epoll
  imports Event_Dispatcher
begin

text \<open>
  \<^verbatim>\<open>src/net/dispatcher/epoll.cc\<close>. \<^verbatim>\<open>epoll_ctl(2)\<close> is a parameter, carried in the record:
  \<open>ep_ctl m op h ev\<close> is the errno it answers (0 for success) when \<open>m\<close> is the interest list
  of the instance. \<open>ep_interest\<close> is that list: the successful calls this program has made.
\<close>

definition EPOLLIN :: "32 word" where "EPOLLIN = 1"
definition EPOLLPRI :: "32 word" where "EPOLLPRI = 2"
definition EPOLLOUT :: "32 word" where "EPOLLOUT = 4"
definition EPOLLERR :: "32 word" where "EPOLLERR = 8"
definition EPOLLHUP :: "32 word" where "EPOLLHUP = 16"

lemmas epoll_flag_defs = EPOLLIN_def EPOLLPRI_def EPOLLOUT_def EPOLLERR_def EPOLLHUP_def

datatype epoll_op = EPOLL_CTL_ADD | EPOLL_CTL_MOD | EPOLL_CTL_DEL

type_synonym interest = "int \<rightharpoonup> 32 word"
type_synonym epoll_ctl = "interest \<Rightarrow> epoll_op \<Rightarrow> int \<Rightarrow> int"

record dispatcher_epoll =
  ep_fd :: int
  ep_last_errno :: int
  ep_fd_count :: int
  ep_ctl :: epoll_ctl
  ep_interest :: interest

text \<open>
  The documented behaviour of \<^verbatim>\<open>epoll_ctl(2)\<close> the code relies on: a handle of the interest
  list cannot be added again and is never answered \<^verbatim>\<open>ENOENT\<close>, a handle outside it can be neither
  modified nor removed.
\<close>

definition epoll_ctl_documented :: "epoll_ctl \<Rightarrow> bool" where
  "epoll_ctl_documented ctl \<longleftrightarrow>
     (\<forall>m h. m h \<noteq> None \<longrightarrow> ctl m EPOLL_CTL_ADD h \<noteq> 0 \<and> ctl m EPOLL_CTL_DEL h \<noteq> ENOENT) \<and>
     (\<forall>m h. m h = None \<longrightarrow> ctl m EPOLL_CTL_MOD h \<noteq> 0 \<and> ctl m EPOLL_CTL_DEL h \<noteq> 0)"

text \<open>\<^verbatim>\<open>epoll_create(1024)\<close> answers a descriptor, which the constructor asserts positive.\<close>

definition epoll_new :: "epoll_ctl \<Rightarrow> int \<Rightarrow> dispatcher_epoll exec" where
  "epoll_new ctl create_answer =
     bind_exec (c_assert (create_answer > 0)) (\<lambda>_.
       Inr \<lparr>ep_fd = create_answer, ep_last_errno = 0, ep_fd_count = 0, ep_ctl = ctl, ep_interest = Map.empty\<rparr>)"

text \<open>
  The event mask: two assignments in a row, so \<open>writeable\<close> overwrites \<open>readable\<close>; with neither,
  \<^verbatim>\<open>ev.events\<close> is passed uninitialised.
\<close>

definition epoll_events :: "bool \<Rightarrow> bool \<Rightarrow> 32 word exec" where
  "epoll_events readable writeable =
     (let ev0 = None;
          ev1 = (if readable then Some EPOLLIN else ev0);
          ev2 = (if writeable then Some EPOLLOUT else ev1)
      in case ev2 of None \<Rightarrow> Inl Uninitialised_Read | Some e \<Rightarrow> Inr e)"

definition epoll_count_inc :: "dispatcher_epoll \<Rightarrow> dispatcher_epoll exec" where
  "epoll_count_inc d =
     (if ep_fd_count d = INT_MAX then Inl Signed_Overflow else Inr (d\<lparr>ep_fd_count := ep_fd_count d + 1\<rparr>))"

definition epoll_add_event :: "dispatcher_epoll \<Rightarrow> int \<Rightarrow> bool \<Rightarrow> bool \<Rightarrow> (bool \<times> dispatcher_epoll) exec" where
  "epoll_add_event d h readable writeable =
     bind_exec (epoll_events readable writeable) (\<lambda>ev.
       let err = ep_ctl d (ep_interest d) EPOLL_CTL_ADD h in
       if err \<noteq> 0 then Inr (False, d\<lparr>ep_last_errno := err\<rparr>)
       else bind_exec (epoll_count_inc (d\<lparr>ep_interest := (ep_interest d)(h \<mapsto> ev)\<rparr>)) (\<lambda>d'. Inr (True, d')))"

definition epoll_mod_event :: "dispatcher_epoll \<Rightarrow> int \<Rightarrow> bool \<Rightarrow> bool \<Rightarrow> (bool \<times> dispatcher_epoll) exec" where
  "epoll_mod_event d h readable writeable =
     bind_exec (epoll_events readable writeable) (\<lambda>ev.
       let err = ep_ctl d (ep_interest d) EPOLL_CTL_MOD h in
       if err \<noteq> 0 then Inr (False, d\<lparr>ep_last_errno := err\<rparr>)
       else Inr (True, d\<lparr>ep_interest := (ep_interest d)(h \<mapsto> ev)\<rparr>))"

text \<open>A missing entry (\<^verbatim>\<open>ENOENT\<close>) is no failure; the counter goes up here as well.\<close>

definition epoll_del_event :: "dispatcher_epoll \<Rightarrow> int \<Rightarrow> (bool \<times> dispatcher_epoll) exec" where
  "epoll_del_event d h =
     (let err = ep_ctl d (ep_interest d) EPOLL_CTL_DEL h in
      if err \<noteq> 0 \<and> err \<noteq> ENOENT then Inr (False, d\<lparr>ep_last_errno := err\<rparr>)
      else
        let d1 = (if err = 0 then d\<lparr>ep_interest := (ep_interest d)(h := None)\<rparr> else d) in
        bind_exec (epoll_count_inc d1) (\<lambda>d'. Inr (True, d')))"

definition epoll_events_of :: "int \<times> 32 word \<Rightarrow> ready_event_t" where
  "epoll_events_of = (\<lambda>(fd, ev).
     (if ev AND (EPOLLIN OR EPOLLPRI) \<noteq> 0 then [(fd, EVENT_READ)] else []) @
     (if ev AND EPOLLOUT \<noteq> 0 then [(fd, EVENT_WRITE)] else []) @
     (if ev AND (EPOLLHUP OR EPOLLERR) \<noteq> 0 then [(fd, EVENT_ERROR)] else []))"

text \<open>
  \<^verbatim>\<open>&look_events[0]\<close> is undefined on an empty vector, and an answer of more than
  \<^verbatim>\<open>fd_count_\<close> events would be read past its end.
\<close>

definition epoll_handle_events ::
  "dispatcher_epoll \<Rightarrow> os_wait \<Rightarrow> ready_event_t \<Rightarrow> int \<Rightarrow> (int \<times> ready_event_t \<times> dispatcher_epoll) exec" where
  "epoll_handle_events d os ready timeout_ms =
     bind_exec (check (ep_fd_count d > 0) Out_Of_Range) (\<lambda>_.
       case os_epoll_wait os (ep_fd_count d) timeout_ms of
         Inl e \<Rightarrow> Inr (-1, ready, d\<lparr>ep_last_errno := e\<rparr>)
       | Inr evs \<Rightarrow>
           if evs = [] then Inr (0, ready, d)
           else if int (length evs) > ep_fd_count d then Inl Out_Of_Range
           else Inr (int (length evs), ready @ concat (map epoll_events_of evs), d))"

definition epoll_delete :: "dispatcher_epoll \<Rightarrow> net_state \<Rightarrow> net_state" where
  "epoll_delete d st = (if ep_fd d > 0 then net_close (ep_fd d) st else st)"

definition epoll_vtable :: "dispatcher_epoll vtable" where
  "epoll_vtable = \<lparr>get_last_errno = ep_last_errno, add_event = epoll_add_event,
     mod_event = epoll_mod_event, del_event = epoll_del_event, handle_events = epoll_handle_events, destroy = epoll_delete\<rparr>"

lemmas epoll_defs = epoll_add_event_def epoll_mod_event_def epoll_del_event_def epoll_count_inc_def

section \<open>Invariant and contract\<close>

definition epoll_watched :: "dispatcher_epoll \<Rightarrow> int set" where
  "epoll_watched d = dom (ep_interest d)"

text \<open>The vector that receives the events is always long enough for every watched handle.\<close>

definition epoll_invar :: "dispatcher_epoll \<Rightarrow> bool" where
  "epoll_invar d \<longleftrightarrow> epoll_ctl_documented (ep_ctl d) \<and> finite (epoll_watched d) \<and>
     int (card (epoll_watched d)) \<le> ep_fd_count d"

definition epoll_admits :: "dispatcher_epoll \<Rightarrow> int \<Rightarrow> bool" where
  "epoll_admits d h \<longleftrightarrow> ep_fd_count d < INT_MAX"

text \<open>
  The documented part of \<^verbatim>\<open>epoll_wait(2)\<close>: at most \<open>maxevents\<close> events, each for a handle of
  the interest list.
\<close>

definition epoll_os_ok :: "dispatcher_epoll \<Rightarrow> os_wait \<Rightarrow> bool" where
  "epoll_os_ok d os \<longleftrightarrow> (\<forall>n t evs. os_epoll_wait os n t = Inr evs \<longrightarrow>
     int (length evs) \<le> n \<and> fst ` set evs \<subseteq> epoll_watched d)"

lemma epoll_ctl_documentedD:
  assumes "epoll_ctl_documented ctl"
  shows "ctl m EPOLL_CTL_ADD h = 0 \<Longrightarrow> m h = None"
    and "ctl m EPOLL_CTL_MOD h = 0 \<Longrightarrow> m h \<noteq> None"
    and "ctl m EPOLL_CTL_DEL h = 0 \<Longrightarrow> m h \<noteq> None"
    and "ctl m EPOLL_CTL_DEL h = ENOENT \<Longrightarrow> m h = None"
  using assms unfolding epoll_ctl_documented_def by metis+

lemma epoll_events_cases:
  "epoll_events r w = (if w then Inr EPOLLOUT else if r then Inr EPOLLIN else Inl Uninitialised_Read)"
  by (simp add: epoll_events_def Let_def)

lemma epoll_add_law:
  assumes "epoll_invar d" "h \<notin> epoll_watched d" "epoll_add_event d h r w = Inr (b, d')"
  shows "epoll_invar d' \<and> epoll_watched d' = (if b then insert h (epoll_watched d) else epoll_watched d) \<and>
    (\<not> b \<longrightarrow> ep_last_errno d' \<noteq> 0)"
  using assms
  by (auto simp: epoll_add_event_def epoll_count_inc_def epoll_invar_def epoll_watched_def exec_simps Let_def
      card_insert_if split: if_splits)

lemma epoll_mod_law:
  assumes "epoll_invar d" "h \<in> epoll_watched d" "epoll_mod_event d h r w = Inr (b, d')"
  shows "epoll_invar d' \<and> epoll_watched d' = epoll_watched d \<and> (\<not> b \<longrightarrow> ep_last_errno d' \<noteq> 0)"
  using assms
  by (auto simp: epoll_mod_event_def epoll_invar_def epoll_watched_def exec_simps Let_def insert_absorb domI
      split: if_splits)

lemma epoll_del_law:
  assumes inv: "epoll_invar d" and del: "epoll_del_event d h = Inr (b, d')"
  shows "epoll_invar d' \<and> epoll_watched d' = (if b then epoll_watched d - {h} else epoll_watched d) \<and>
    (\<not> b \<longrightarrow> ep_last_errno d' \<noteq> 0)"
proof -
  let ?err = "ep_ctl d (ep_interest d) EPOLL_CTL_DEL h"
  have doc: "epoll_ctl_documented (ep_ctl d)" using inv by (simp add: epoll_invar_def)
  have card: "card (dom (ep_interest d) - {h}) \<le> card (dom (ep_interest d))"
    using inv by (intro card_mono) (auto simp: epoll_invar_def epoll_watched_def)
  consider "?err \<noteq> 0" "?err \<noteq> ENOENT" | "?err = 0" | "?err = ENOENT" by blast
  then show ?thesis
  proof cases
    case 1
    with inv del show ?thesis
      by (auto simp: epoll_del_event_def Let_def epoll_invar_def epoll_watched_def)
  next
    case 2
    with inv del card show ?thesis
      by (auto simp: epoll_del_event_def Let_def epoll_invar_def epoll_watched_def epoll_count_inc_def exec_simps
          split: if_splits)
  next
    case 3
    with doc have "ep_interest d h = None" by (rule epoll_ctl_documentedD)
    with 3 inv del show ?thesis
      by (auto simp: epoll_del_event_def Let_def epoll_invar_def epoll_watched_def epoll_count_inc_def exec_simps
          ENOENT_def split: if_splits)
  qed
qed

lemma epoll_events_of_fd: "p \<in> set (epoll_events_of e) \<Longrightarrow> fst p = fst e"
  by (cases e) (auto simp: epoll_events_of_def split: if_splits)

lemma epoll_events_of_fds: "fst ` set (concat (map epoll_events_of evs)) \<subseteq> fst ` set evs"
  by (auto dest!: epoll_events_of_fd)

lemma epoll_events_of_evs: "snd ` set (concat (map epoll_events_of evs)) \<subseteq> {EVENT_READ, EVENT_WRITE, EVENT_ERROR}"
  by (auto simp: epoll_events_of_def split: if_splits)

lemma epoll_wait_keeps:
  assumes "epoll_invar d" and "epoll_handle_events d os [] t = Inr (n, ready, d')"
  shows "epoll_invar d'" "epoll_watched d' = epoll_watched d"
proof -
  have d': "ep_interest d' = ep_interest d" "ep_fd_count d' = ep_fd_count d" "ep_ctl d' = ep_ctl d"
    using assms(2) by (auto simp: epoll_handle_events_def exec_simps split: sum.splits if_splits)
  show "epoll_invar d'" "epoll_watched d' = epoll_watched d"
    using assms(1) d' by (simp_all add: epoll_invar_def epoll_watched_def)
qed

lemma epoll_wait_ready:
  assumes "epoll_invar d" "epoll_os_ok d os" and "epoll_handle_events d os [] t = Inr (n, ready, d')"
  shows "fst ` set ready \<subseteq> epoll_watched d"
    "snd ` set ready \<subseteq> {EVENT_READ, EVENT_WRITE, EVENT_ERROR}"
proof -
  have r: "\<exists>evs. ready = [] \<or> os_epoll_wait os (ep_fd_count d) t = Inr evs \<and> ready = concat (map epoll_events_of evs)"
    using assms(3) by (auto simp: epoll_handle_events_def exec_simps split: sum.splits if_splits)
  from r obtain evs where
    r: "ready = [] \<or> os_epoll_wait os (ep_fd_count d) t = Inr evs \<and> ready = concat (map epoll_events_of evs)" ..
  show "fst ` set ready \<subseteq> epoll_watched d"
  proof (cases "ready = []")
    case False
    with r assms(2) have "fst ` set evs \<subseteq> epoll_watched d" and "ready = concat (map epoll_events_of evs)"
      unfolding epoll_os_ok_def by blast+
    then show ?thesis using epoll_events_of_fds [of evs] by (simp only:)
  qed simp
  show "snd ` set ready \<subseteq> {EVENT_READ, EVENT_WRITE, EVENT_ERROR}"
    using r epoll_events_of_evs [of evs]
    by (elim disjE conjE) (simp_all only: list.set image_empty empty_subsetI)
qed

interpretation ep: event_dispatcher epoll_vtable epoll_watched epoll_invar epoll_admits epoll_os_ok
proof (unfold_locales, goal_cases)
  case (1 d h r w b d')
  then show ?case using epoll_add_law [of d h r w b d'] by (simp add: epoll_vtable_def)
next
  case (2 d h r w b d')
  then show ?case using epoll_mod_law [of d h r w b d'] by (simp add: epoll_vtable_def)
next
  case (3 d h b d')
  then show ?case using epoll_del_law [of d h b d'] by (simp add: epoll_vtable_def)
next
  case (7 d os t n ready d')
  then show ?case using epoll_wait_keeps [of d os t n ready d'] by (simp add: epoll_vtable_def)
next
  case (8 d os t n ready d')
  then show ?case using epoll_wait_ready [of d os t n ready d'] by (simp add: epoll_vtable_def)
next
  case (9 d os t)
  then have "0 < card (epoll_watched d)" by (simp add: epoll_invar_def card_gt_0_iff)
  with 9 have "ep_fd_count d > 0" unfolding epoll_invar_def by linarith
  moreover have "int (length evs) \<le> ep_fd_count d" if "os_epoll_wait os (ep_fd_count d) t = Inr evs" for evs
    using 9(2) that unfolding epoll_os_ok_def by blast
  ultimately show ?case
    by (auto simp: epoll_vtable_def epoll_handle_events_def not_less split: sum.splits)
qed (auto simp: epoll_vtable_def epoll_defs epoll_events_cases epoll_admits_def Let_def)

end
