(* ===== verification/Dispatchers.thy ===== *)
theory Dispatchers
  imports Dispatcher_Select Dispatcher_Poll Dispatcher_Epoll
begin

text \<open>
  \<^verbatim>\<open>src/net/event_dispatcher.cc\<close>: the factory, and the virtual call. A \<open>dispatcher\<close> is an
  object of one of the three classes; \<open>virt\<close> is the table its calls go through.
\<close>

datatype dispatcher =
    D_Select dispatcher_select
  | D_Poll dispatcher_poll
  | D_Epoll dispatcher_epoll

text \<open>
  \<^verbatim>\<open>create_dispatcher(flg)\<close>; \<open>None\<close> is the null pointer. The last two arguments are the
  system's \<^verbatim>\<open>epoll_ctl\<close> and the answer of \<^verbatim>\<open>epoll_create\<close>.
\<close>

definition create_dispatcher :: "int \<Rightarrow> epoll_ctl \<Rightarrow> int \<Rightarrow> dispatcher option exec" where
  "create_dispatcher flg ctl epoll_answer =
     (if flg = 0 then Inr (Some (D_Select select_new))
      else if flg = 1 then Inr (Some (D_Poll poll_new))
      else if flg = 2 then bind_exec (epoll_new ctl epoll_answer) (\<lambda>d. Inr (Some (D_Epoll d)))
      else Inr None)"

definition wrap_result :: "('d \<Rightarrow> dispatcher) \<Rightarrow> (bool \<times> 'd) exec \<Rightarrow> (bool \<times> dispatcher) exec" where
  "wrap_result C m = bind_exec m (\<lambda>(b, d). Inr (b, C d))"

definition wrap_ready ::
  "('d \<Rightarrow> dispatcher) \<Rightarrow> (int \<times> ready_event_t \<times> 'd) exec \<Rightarrow> (int \<times> ready_event_t \<times> dispatcher) exec" where
  "wrap_ready C m = bind_exec m (\<lambda>(n, r, d). Inr (n, r, C d))"

fun virt_errno :: "dispatcher \<Rightarrow> int" where
  "virt_errno (D_Select d) = sel_last_errno d"
| "virt_errno (D_Poll d) = poll_last_errno d"
| "virt_errno (D_Epoll d) = ep_last_errno d"

fun virt_add :: "dispatcher \<Rightarrow> int \<Rightarrow> bool \<Rightarrow> bool \<Rightarrow> (bool \<times> dispatcher) exec" where
  "virt_add (D_Select d) h r w = wrap_result D_Select (select_add_event d h r w)"
| "virt_add (D_Poll d) h r w = wrap_result D_Poll (poll_add_event d h r w)"
| "virt_add (D_Epoll d) h r w = wrap_result D_Epoll (epoll_add_event d h r w)"

fun virt_mod :: "dispatcher \<Rightarrow> int \<Rightarrow> bool \<Rightarrow> bool \<Rightarrow> (bool \<times> dispatcher) exec" where
  "virt_mod (D_Select d) h r w = wrap_result D_Select (select_mod_event d h r w)"
| "virt_mod (D_Poll d) h r w = wrap_result D_Poll (poll_mod_event d h r w)"
| "virt_mod (D_Epoll d) h r w = wrap_result D_Epoll (epoll_mod_event d h r w)"

fun virt_del :: "dispatcher \<Rightarrow> int \<Rightarrow> (bool \<times> dispatcher) exec" where
  "virt_del (D_Select d) h = wrap_result D_Select (select_del_event d h)"
| "virt_del (D_Poll d) h = wrap_result D_Poll (poll_del_event d h)"
| "virt_del (D_Epoll d) h = wrap_result D_Epoll (epoll_del_event d h)"

fun virt_handle_events ::
  "dispatcher \<Rightarrow> os_wait \<Rightarrow> ready_event_t \<Rightarrow> int \<Rightarrow> (int \<times> ready_event_t \<times> dispatcher) exec" where
  "virt_handle_events (D_Select d) os rd t = wrap_ready D_Select (select_handle_events d os rd t)"
| "virt_handle_events (D_Poll d) os rd t = wrap_ready D_Poll (poll_handle_events d os rd t)"
| "virt_handle_events (D_Epoll d) os rd t = wrap_ready D_Epoll (epoll_handle_events d os rd t)"

fun virt_delete :: "dispatcher \<Rightarrow> net_state \<Rightarrow> net_state" where
  "virt_delete (D_Select d) st = select_delete d st"
| "virt_delete (D_Poll d) st = poll_delete d st"
| "virt_delete (D_Epoll d) st = epoll_delete d st"

definition virt :: "dispatcher vtable" where
  "virt = \<lparr>get_last_errno = virt_errno, add_event = virt_add, mod_event = virt_mod,
     del_event = virt_del, handle_events = virt_handle_events, destroy = virt_delete\<rparr>"

section \<open>The contract of the virtual calls\<close>

fun disp_watched :: "dispatcher \<Rightarrow> int set" where
  "disp_watched (D_Select d) = sel_esets d"
| "disp_watched (D_Poll d) = poll_watched d"
| "disp_watched (D_Epoll d) = epoll_watched d"

fun disp_invar :: "dispatcher \<Rightarrow> bool" where
  "disp_invar (D_Select d) = select_invar d"
| "disp_invar (D_Poll d) = poll_invar d"
| "disp_invar (D_Epoll d) = epoll_invar d"

fun disp_admits :: "dispatcher \<Rightarrow> int \<Rightarrow> bool" where
  "disp_admits (D_Select d) h = fd_in_range h"
| "disp_admits (D_Poll d) h = True"
| "disp_admits (D_Epoll d) h = epoll_admits d h"

fun disp_os_ok :: "dispatcher \<Rightarrow> os_wait \<Rightarrow> bool" where
  "disp_os_ok (D_Select d) os = select_os_ok d os"
| "disp_os_ok (D_Poll d) os = True"
| "disp_os_ok (D_Epoll d) os = epoll_os_ok d os"

lemma wrap_result_Inr [simp]:
  "wrap_result C m = Inr (b, x) \<longleftrightarrow> (\<exists>d. m = Inr (b, d) \<and> x = C d)"
  by (cases m) (auto simp: wrap_result_def)

lemma wrap_ready_Inr [simp]:
  "wrap_ready C m = Inr (n, r, x) \<longleftrightarrow> (\<exists>d. m = Inr (n, r, d) \<and> x = C d)"
  by (cases m) (auto simp: wrap_ready_def)

lemma vtable_sel_simps [simp]:
  "get_last_errno select_vtable = sel_last_errno" "add_event select_vtable = select_add_event"
  "mod_event select_vtable = select_mod_event" "del_event select_vtable = select_del_event"
  "handle_events select_vtable = select_handle_events"
  by (simp_all add: select_vtable_def)

lemma vtable_poll_simps [simp]:
  "get_last_errno poll_vtable = poll_last_errno" "add_event poll_vtable = poll_add_event"
  "mod_event poll_vtable = poll_mod_event" "del_event poll_vtable = poll_del_event"
  "handle_events poll_vtable = poll_handle_events"
  by (simp_all add: poll_vtable_def)

lemma vtable_epoll_simps [simp]:
  "get_last_errno epoll_vtable = ep_last_errno" "add_event epoll_vtable = epoll_add_event"
  "mod_event epoll_vtable = epoll_mod_event" "del_event epoll_vtable = epoll_del_event"
  "handle_events epoll_vtable = epoll_handle_events"
  by (simp_all add: epoll_vtable_def)

lemma vtable_virt_simps [simp]:
  "get_last_errno virt = virt_errno" "add_event virt = virt_add" "mod_event virt = virt_mod"
  "del_event virt = virt_del" "handle_events virt = virt_handle_events" "destroy virt = virt_delete"
  by (simp_all add: virt_def)

text \<open>The laws of the three classes in terms of their own operations.\<close>

lemmas each_add_law = sel.add_law [simplified] pol.add_law [simplified] ep.add_law [simplified]
lemmas each_mod_law = sel.mod_law [simplified] pol.mod_law [simplified] ep.mod_law [simplified]
lemmas each_del_law = sel.del_law [simplified] pol.del_law [simplified] ep.del_law [simplified]
lemmas each_add_returns = sel.add_returns [simplified] pol.add_returns [simplified] ep.add_returns [simplified]
lemmas each_mod_returns = sel.mod_returns [simplified] pol.mod_returns [simplified] ep.mod_returns [simplified]
lemmas each_del_returns = sel.del_returns [simplified] pol.del_returns [simplified] ep.del_returns [simplified]
lemmas each_wait_keeps = sel.wait_keeps [simplified] pol.wait_keeps [simplified] ep.wait_keeps [simplified]
lemmas each_wait_reports = sel.wait_reports [simplified] pol.wait_reports [simplified] ep.wait_reports [simplified]
lemmas each_wait_returns = sel.wait_returns [simplified] pol.wait_returns [simplified] ep.wait_returns [simplified]

interpretation any: event_dispatcher virt disp_watched disp_invar disp_admits disp_os_ok
proof (unfold_locales, goal_cases)
  case (1 d h r w b d')
  then show ?case by (cases d) (auto dest: each_add_law)
next
  case (2 d h r w b d')
  then show ?case by (cases d) (auto dest: each_mod_law)
next
  case (3 d h b d')
  then show ?case by (cases d) (auto dest: each_del_law)
next
  case (4 d h r w)
  then show ?case by (cases d) (auto intro: each_add_returns)
next
  case (5 d h r w)
  then show ?case by (cases d) (auto intro: each_mod_returns)
next
  case (6 d h)
  then show ?case by (cases d) (auto intro: each_del_returns)
next
  case (7 d os t n ready d')
  then show ?case by (cases d) (auto dest: each_wait_keeps)
next
  case (8 d os t n ready d')
  then show ?case by (cases d) (auto dest: each_wait_reports)
next
  case (9 d os t)
  then show ?case by (cases d) (auto intro: each_wait_returns)
qed

section \<open>Sequences of calls\<close>

datatype disp_call = Call_Add int bool bool | Call_Mod int bool bool | Call_Del int

fun run_call :: "'d vtable \<Rightarrow> 'd \<Rightarrow> disp_call \<Rightarrow> (bool \<times> 'd) exec" where
  "run_call V d (Call_Add h r w) = add_event V d h r w"
| "run_call V d (Call_Mod h r w) = mod_event V d h r w"
| "run_call V d (Call_Del h) = del_event V d h"

fun run_calls :: "'d vtable \<Rightarrow> 'd \<Rightarrow> disp_call list \<Rightarrow> (bool list \<times> 'd) exec" where
  "run_calls V d [] = Inr ([], d)"
| "run_calls V d (c # cs) =
     bind_exec (run_call V d c) (\<lambda>(b, d'). bind_exec (run_calls V d' cs) (\<lambda>(bs, d''). Inr (b # bs, d'')))"

fun counts_up :: "disp_call \<times> bool \<Rightarrow> bool" where
  "counts_up (Call_Mod h r w, b) = False"
| "counts_up (c, b) = b"

lemma epoll_add_watched_fails:
  "epoll_ctl_documented (ep_ctl d) \<Longrightarrow> h \<in> epoll_watched d \<Longrightarrow> epoll_add_event d h r w = Inr (b, d') \<Longrightarrow>
   \<not> b \<and> epoll_watched d' = epoll_watched d \<and> ep_ctl d' = ep_ctl d \<and> ep_fd_count d' = ep_fd_count d"
  by (auto simp: epoll_add_event_def epoll_watched_def exec_simps Let_def dest: epoll_ctl_documentedD split: if_splits)

lemma epoll_mod_unwatched_fails:
  "epoll_ctl_documented (ep_ctl d) \<Longrightarrow> h \<notin> epoll_watched d \<Longrightarrow> epoll_mod_event d h r w = Inr (b, d') \<Longrightarrow>
   \<not> b \<and> epoll_watched d' = epoll_watched d \<and> ep_ctl d' = ep_ctl d \<and> ep_fd_count d' = ep_fd_count d"
  by (auto simp: epoll_mod_event_def epoll_watched_def exec_simps Let_def dest: epoll_ctl_documentedD split: if_splits)

lemma epoll_run_call_invar:
  assumes inv: "epoll_invar d" and run: "run_call epoll_vtable d c = Inr (b, d')"
  shows "epoll_invar d'"
proof (cases c)
  case (Call_Add h r w)
  show ?thesis
  proof (cases "h \<in> epoll_watched d")
    case True
    with inv run Call_Add epoll_add_watched_fails [of d h r w b d'] show ?thesis by (simp add: epoll_invar_def)
  next
    case False
    with inv run Call_Add epoll_add_law [of d h r w b d'] show ?thesis by simp
  qed
next
  case (Call_Mod h r w)
  show ?thesis
  proof (cases "h \<in> epoll_watched d")
    case True
    with inv run Call_Mod epoll_mod_law [of d h r w b d'] show ?thesis by simp
  next
    case False
    with inv run Call_Mod epoll_mod_unwatched_fails [of d h r w b d'] show ?thesis by (simp add: epoll_invar_def)
  qed
next
  case (Call_Del h)
  with inv run epoll_del_law [of d h b d'] show ?thesis by simp
qed

lemma epoll_run_call_count:
  "run_call epoll_vtable d c = Inr (b, d') \<Longrightarrow> ep_fd_count d' = ep_fd_count d + (if counts_up (c, b) then 1 else 0)"
  by (cases c)
    (auto simp: epoll_defs exec_simps Let_def split: if_splits)

lemma epoll_run_calls:
  "run_calls epoll_vtable d cs = Inr (bs, d') \<Longrightarrow>
     ep_fd_count d' = ep_fd_count d + int (length (filter counts_up (zip cs bs))) \<and>
     (epoll_invar d \<longrightarrow> epoll_invar d')"
proof (induction cs arbitrary: d bs)
  case (Cons c cs)
  then obtain b d1 bs' where "run_call epoll_vtable d c = Inr (b, d1)"
    "run_calls epoll_vtable d1 cs = Inr (bs', d')" "bs = b # bs'"
    by (auto simp: exec_simps)
  with Cons.IH [of d1 bs'] epoll_run_call_count [of d c b d1] epoll_run_call_invar [of d c b d1]
  show ?case by auto
qed auto

section \<open>Which directions a dispatcher really watches\<close>

fun disp_reads :: "dispatcher \<Rightarrow> int \<Rightarrow> bool" where
  "disp_reads (D_Select d) h = (h \<in> sel_rsets d)"
| "disp_reads (D_Poll d) h = fst (poll_wants d h)"
| "disp_reads (D_Epoll d) h = (case ep_interest d h of None \<Rightarrow> False | Some e \<Rightarrow> e AND EPOLLIN \<noteq> 0)"

fun disp_writes :: "dispatcher \<Rightarrow> int \<Rightarrow> bool" where
  "disp_writes (D_Select d) h = (h \<in> sel_wsets d)"
| "disp_writes (D_Poll d) h = snd (poll_wants d h)"
| "disp_writes (D_Epoll d) h = (case ep_interest d h of None \<Rightarrow> False | Some e \<Rightarrow> e AND EPOLLOUT \<noteq> 0)"

fun is_epoll :: "dispatcher \<Rightarrow> bool" where
  "is_epoll (D_Epoll d) = True"
| "is_epoll _ = False"

lemma virt_mod_directions:
  assumes "disp_invar d" "h \<in> disp_watched d" "virt_mod d h r w = Inr (True, d')"
  shows "disp_writes d' h = w \<and> disp_reads d' h = (r \<and> \<not> (is_epoll d \<and> w))"
proof (cases d)
  case (D_Select e)
  with assms show ?thesis
    by (auto simp: fdset_op_defs select_invar_def exec_simps split: if_splits)
next
  case (D_Poll e)
  with assms pol.mod_wants [of e h r w] show ?thesis by auto
next
  case (D_Epoll e)
  with assms show ?thesis
    by (auto simp: epoll_mod_event_def epoll_events_cases Let_def epoll_flag_defs split: if_splits)
qed

lemma virt_add_directions:
  assumes "disp_invar d" "h \<notin> disp_watched d" "virt_add d h r w = Inr (True, d')"
  shows "disp_writes d' h = w \<and> disp_reads d' h = (r \<and> \<not> (is_epoll d \<and> w))"
proof (cases d)
  case (D_Select e)
  with assms show ?thesis
    by (auto simp: fdset_op_defs select_invar_def exec_simps split: if_splits)
next
  case (D_Poll e)
  with assms pol.add_wants [of e h r w] show ?thesis by auto
next
  case (D_Epoll e)
  with assms show ?thesis
    by (auto simp: epoll_add_event_def epoll_count_inc_def epoll_events_cases Let_def epoll_flag_defs exec_simps
        split: if_splits)
qed

section \<open>Properties\<close>

text \<open>
  Claim C36. The same request means two things: after a successful \<^verbatim>\<open>add_event\<close> of a new handle or
  \<^verbatim>\<open>mod_event\<close> of a watched one, the select and poll dispatchers watch exactly the requested
  directions, but the epoll dispatcher drops the read direction whenever the write direction
  is requested as well (the mask is assigned, not or-ed).
\<close>

theorem dispatcher_directions:
  assumes "disp_invar d"
    and "h \<notin> disp_watched d \<and> virt_add d h r w = Inr (True, d') \<or>
         h \<in> disp_watched d \<and> virt_mod d h r w = Inr (True, d')"
  shows "disp_writes d' h = w \<and> disp_reads d' h = (r \<and> \<not> (is_epoll d \<and> w))"
  using assms virt_add_directions [of d h r w d'] virt_mod_directions [of d h r w d'] by blast

definition sample_ctl :: epoll_ctl where
  "sample_ctl m op h =
     (case op of EPOLL_CTL_ADD \<Rightarrow> if m h = None then 0 else EEXIST
      | _ \<Rightarrow> if m h = None then ENOENT else 0)"

definition sample_epoll :: dispatcher_epoll where
  "sample_epoll = \<lparr>ep_fd = 3, ep_last_errno = 0, ep_fd_count = 1, ep_ctl = sample_ctl,
     ep_interest = [4 \<mapsto> EPOLLIN]\<rparr>"

lemma sample_ctl_documented [simp]: "epoll_ctl_documented sample_ctl"
  by (simp add: epoll_ctl_documented_def sample_ctl_def errno_defs)

lemma sample_epoll_invar [simp]: "epoll_invar sample_epoll"
  by (simp add: epoll_invar_def sample_epoll_def epoll_watched_def)

lemma sample_epoll_sels [simp]:
  "ep_interest sample_epoll = [4 \<mapsto> EPOLLIN]" "ep_ctl sample_epoll = sample_ctl"
  "ep_fd_count sample_epoll = 1"
  by (simp_all add: sample_epoll_def)

theorem dispatcher_directions_witness:
  "\<not> disp_reads (D_Epoll (sample_epoll\<lparr>ep_interest := [4 \<mapsto> EPOLLOUT]\<rparr>)) 4"
  using dispatcher_directions [of "D_Epoll sample_epoll" 4 True True
      "D_Epoll (sample_epoll\<lparr>ep_interest := [4 \<mapsto> EPOLLOUT]\<rparr>)"]
  by (simp add: epoll_watched_def epoll_mod_event_def epoll_events_cases sample_ctl_def)

text \<open>
  Claim C38. \<^verbatim>\<open>fd_count_\<close> of the epoll dispatcher never goes down: after any sequence of calls it
  has grown by the number of successful registrations plus the number of successful
  deletions (the deletion increments it too); so the vector handed to \<^verbatim>\<open>epoll_wait\<close> always
  has room for every watched handle, and keeps growing with every connection closed.
\<close>

theorem epoll_fd_count:
  assumes "epoll_ctl_documented ctl" and "epoll_new ctl fd = Inr d"
    and "run_calls epoll_vtable d cs = Inr (bs, d')"
  shows "ep_fd_count d' = int (length (filter counts_up (zip cs bs))) \<and>
    int (card (epoll_watched d')) \<le> ep_fd_count d'"
proof -
  from assms(1,2) have "ep_fd_count d = 0" "epoll_invar d"
    by (auto simp: epoll_new_def exec_simps epoll_invar_def epoll_watched_def)
  with epoll_run_calls [OF assms(3)] show ?thesis by (simp add: epoll_invar_def)
qed

theorem epoll_fd_count_witness:
  "\<exists>d'. run_calls epoll_vtable \<lparr>ep_fd = 3, ep_last_errno = 0, ep_fd_count = 0, ep_ctl = sample_ctl, ep_interest = Map.empty\<rparr>
      [Call_Add 4 True False, Call_Del 4] = Inr ([True, True], d') \<and> ep_fd_count d' = 2 \<and> epoll_watched d' = {}"
proof -
  let ?d = "\<lparr>ep_fd = 3, ep_last_errno = 0, ep_fd_count = 0, ep_ctl = sample_ctl, ep_interest = Map.empty\<rparr>"
  let ?d' = "?d\<lparr>ep_fd_count := 2\<rparr>"
  have new: "epoll_new sample_ctl 3 = Inr ?d" by (simp add: epoll_new_def)
  have run: "run_calls epoll_vtable ?d [Call_Add 4 True False, Call_Del 4] = Inr ([True, True], ?d')"
    by (simp add: epoll_defs epoll_events_cases Let_def sample_ctl_def INT_MAX_def)
  have "ep_fd_count ?d' = 2"
    using epoll_fd_count [OF sample_ctl_documented new run] by simp
  with run show ?thesis by (intro exI [of _ ?d']) (simp add: epoll_watched_def)
qed

text \<open>
  Claim C17. A wait on any of the three dispatchers that watches something returns, and reports
  only read, write and error events, only for handles that are watched, whatever the
  system answers within its documented behaviour.
\<close>

theorem handle_events_watched:
  assumes "disp_invar d" "disp_os_ok d os" "disp_watched d \<noteq> {}"
  shows "\<exists>n ready d'. virt_handle_events d os [] t = Inr (n, ready, d') \<and>
    disp_invar d' \<and> disp_watched d' = disp_watched d \<and>
    (\<forall>(fd, ev)\<in>set ready. fd \<in> disp_watched d \<and> ev \<in> {EVENT_READ, EVENT_WRITE, EVENT_ERROR})"
proof -
  from any.wait_returns [OF assms] obtain n ready d' where
    r: "virt_handle_events d os [] t = Inr (n, ready, d')" unfolding vtable_virt_simps by blast
  with any.wait_keeps [OF assms(1), of os t n ready d'] any.wait_reports [OF assms(1,2), of t n ready d']
  show ?thesis by fastforce
qed

definition sample_os :: os_wait where
  "sample_os = \<lparr>os_select = (\<lambda>_ _ _ _ _. Inl EBADF), os_poll = (\<lambda>_ _. Inl EBADF),
     os_epoll_wait = (\<lambda>n t. if n \<le> 0 then Inl EINVAL else Inr [(4, EPOLLIN OR EPOLLHUP)])\<rparr>"

theorem handle_events_watched_witness:
  "\<exists>n ready d'. virt_handle_events (D_Epoll sample_epoll) sample_os [] 2 = Inr (n, ready, d') \<and>
    disp_invar d' \<and> disp_watched d' = disp_watched (D_Epoll sample_epoll) \<and>
    (\<forall>(fd, ev)\<in>set ready. fd \<in> disp_watched (D_Epoll sample_epoll) \<and> ev \<in> {EVENT_READ, EVENT_WRITE, EVENT_ERROR})"
  by (rule handle_events_watched)
    (auto simp: epoll_os_ok_def sample_os_def epoll_watched_def split: if_splits)

text \<open>
  The select dispatcher reports exactly what \<^verbatim>\<open>select(2)\<close> answered: one read, write or
  error event per bit of the three result sets, grouped by ascending descriptor.
\<close>

theorem select_reports_answer:
  assumes "select_invar d" "select_os_ok d os"
    and "os_select os (sel_maxfd d + 1) (sel_rsets d) (sel_wsets d) (sel_esets d) (select_timeval t) = Inr (k, rs, ws, es)"
    and "k \<noteq> 0"
  shows "\<exists>ready. select_handle_events d os [] t = Inr (k, ready, d) \<and> sorted (map fst ready) \<and> distinct ready \<and>
    set ready = (\<lambda>i. (i, EVENT_READ)) ` rs \<union> (\<lambda>i. (i, EVENT_WRITE)) ` ws \<union> (\<lambda>i. (i, EVENT_ERROR)) ` es"
proof (intro exI conjI)
  show "select_handle_events d os [] t = Inr (k, select_scan (sel_maxfd d) rs ws es, d)"
    using assms(3,4) by (simp add: select_handle_events_def)
  have "rs \<union> ws \<union> es \<subseteq> {0..sel_maxfd d}"
    using assms(1-3) unfolding select_os_ok_def select_invar_def by blast
  then show "set (select_scan (sel_maxfd d) rs ws es) =
      (\<lambda>i. (i, EVENT_READ)) ` rs \<union> (\<lambda>i. (i, EVENT_WRITE)) ` ws \<union> (\<lambda>i. (i, EVENT_ERROR)) ` es"
    unfolding select_scan_set by auto
qed (rule select_scan_sorted select_scan_distinct)+

theorem select_reports_answer_witness:
  "\<exists>ready. select_handle_events \<lparr>sel_maxfd = 5, sel_last_errno = 0, sel_rsets = {4, 5}, sel_wsets = {4}, sel_esets = {4, 5}\<rparr>
      \<lparr>os_select = (\<lambda>n r w e tv. Inr (2, r, w, {})), os_poll = (\<lambda>_ _. Inl EBADF), os_epoll_wait = (\<lambda>_ _. Inl EBADF)\<rparr> [] 2
      = Inr (2, ready, \<lparr>sel_maxfd = 5, sel_last_errno = 0, sel_rsets = {4, 5}, sel_wsets = {4}, sel_esets = {4, 5}\<rparr>) \<and>
    sorted (map fst ready) \<and> distinct ready \<and>
    set ready = (\<lambda>i. (i, EVENT_READ)) ` {4, 5} \<union> (\<lambda>i. (i, EVENT_WRITE)) ` {4} \<union> (\<lambda>i. (i, EVENT_ERROR)) ` {}"
  by (rule select_reports_answer) (auto simp: select_invar_def FD_SETSIZE_def select_os_ok_def)

text \<open>
  Nothing in the select dispatcher keeps a descriptor of 1024 or more (or a negative
  one) out: each of the three operations on such a handle writes outside the \<^verbatim>\<open>fd_set\<close> arrays,
  while every handle in range is served without undefined behaviour.
\<close>

theorem select_range:
  "(\<not> fd_in_range h \<longrightarrow> select_add_event d h r w = Inl Out_Of_Range \<and>
      select_mod_event d h r w = Inl Out_Of_Range \<and> select_del_event d h = Inl Out_Of_Range) \<and>
   (fd_in_range h \<longrightarrow> (\<exists>d1 d2 d3. select_add_event d h r w = Inr (True, d1) \<and>
      select_mod_event d h r w = Inr (True, d2) \<and> select_del_event d h = Inr (True, d3)))"
  by (simp add: fdset_op_defs)

theorem select_range_witness:
  "select_add_event select_new 1024 True False = Inl Out_Of_Range \<and> (\<exists>d. select_add_event select_new 1023 True False = Inr (True, d))"
  using select_range [of 1024 select_new True False] select_range [of 1023 select_new True False]
  by (auto simp: fd_in_range_def FD_SETSIZE_def)

text \<open>
  The poll dispatcher does not reject a second registration of a handle: it keeps two
  entries, and the one deletion that follows leaves the handle watched; a modification of a
  handle that is not registered fails its assertion.
\<close>

theorem poll_duplicate_registration:
  "(\<exists>d1 d2 d3. poll_add_event d h r w = Inr (True, d1) \<and> poll_add_event d1 h r' w' = Inr (True, d2) \<and>
      poll_del_event d2 h = Inr (True, d3) \<and> h \<in> poll_watched d3) \<and>
   (h \<notin> poll_watched d \<longrightarrow> poll_mod_event d h r w = Inl Assertion_Failed)"
proof (intro conjI impI)
  have "h \<in> pfd_fd ` set (pfds_erase h (ps @ [poll_make_pfd h r w, poll_make_pfd h r' w']))" for ps
    by (induction ps) auto
  then show "\<exists>d1 d2 d3. poll_add_event d h r w = Inr (True, d1) \<and> poll_add_event d1 h r' w' = Inr (True, d2) \<and>
      poll_del_event d2 h = Inr (True, d3) \<and> h \<in> poll_watched d3"
    by (simp add: poll_add_event_def poll_del_event_def poll_watched_def)
next
  assume "h \<notin> poll_watched d"
  then have "pfds_replace h (poll_make_pfd h r w) (poll_fds d) = None"
    unfolding pfds_replace_None by (simp add: poll_watched_def)
  then show "poll_mod_event d h r w = Inl Assertion_Failed" by (simp add: poll_mod_event_def)
qed

theorem poll_duplicate_registration_witness:
  "poll_mod_event poll_new 7 True True = Inl Assertion_Failed"
  using poll_duplicate_registration [of poll_new 7 True True True True] by (simp add: poll_new_def poll_watched_def)

end
