(* ===== verification/Mutex_Lock.thy ===== *)
theory Mutex_Lock
  imports Net_Prelude
begin

text \<open>
  \<^verbatim>\<open>src/base/mutex_lock.h\<close>: the wrappers of a POSIX mutex and condition variable. Every call's code
  goes through \<^verbatim>\<open>CHECK\<close>, which aborts the process when it is not 0; what a call that answers 0 does
  is the documented behaviour of a default mutex. A blocked call is \<open>Pending\<close>.
\<close>

section \<open>The mutex\<close>

definition CHECK :: "int \<Rightarrow> unit exec" where
  "CHECK rc = check (rc = 0) Process_Abort"

lemma CHECK_simps [simp]: "CHECK 0 = Inr ()" "CHECK rc = Inr u \<longleftrightarrow> rc = 0"
  by (simp_all add: CHECK_def)

text \<open>\<open>pm_alive\<close> is cleared by \<^verbatim>\<open>pthread_mutex_destroy\<close>; threads are numbers.\<close>

record pthread_mutex =
  pm_alive :: bool
  pm_owner :: "nat option"

definition mutex_lock_new :: "int \<Rightarrow> pthread_mutex exec" where
  "mutex_lock_new rc = bind_exec (CHECK rc) (\<lambda>_. Inr \<lparr>pm_alive = True, pm_owner = None\<rparr>)"

definition mutex_lock_delete :: "int \<Rightarrow> pthread_mutex \<Rightarrow> pthread_mutex exec" where
  "mutex_lock_delete rc m = bind_exec (CHECK rc) (\<lambda>_. Inr (m\<lparr>pm_alive := False\<rparr>))"

definition mutex_lock :: "int \<Rightarrow> nat \<Rightarrow> pthread_mutex \<Rightarrow> pthread_mutex exec" where
  "mutex_lock rc i m =
     bind_exec (check (pm_alive m) Use_After_Free) (\<lambda>_.
     bind_exec (check (pm_owner m = None) Pending) (\<lambda>_.
     bind_exec (CHECK rc) (\<lambda>_. Inr (m\<lparr>pm_owner := Some i\<rparr>))))"

definition mutex_unlock :: "int \<Rightarrow> pthread_mutex \<Rightarrow> pthread_mutex exec" where
  "mutex_unlock rc m =
     bind_exec (check (pm_alive m) Use_After_Free) (\<lambda>_.
     bind_exec (CHECK rc) (\<lambda>_. Inr (m\<lparr>pm_owner := None\<rparr>)))"

text \<open>\<^verbatim>\<open>MutexLockGuard\<close>: the constructor locks, the destructor unlocks, around the guarded body.\<close>

definition mutex_lock_guard ::
  "int \<Rightarrow> int \<Rightarrow> nat \<Rightarrow> (pthread_mutex \<times> 's \<Rightarrow> ('a \<times> pthread_mutex \<times> 's) exec) \<Rightarrow> pthread_mutex \<times> 's \<Rightarrow>
     ('a \<times> pthread_mutex \<times> 's) exec" where
  "mutex_lock_guard lock_rc unlock_rc i body x =
     (case x of (m, s) \<Rightarrow>
        bind_exec (mutex_lock lock_rc i m) (\<lambda>m1.
        bind_exec (body (m1, s)) (\<lambda>(r, m2, s').
        bind_exec (mutex_unlock unlock_rc m2) (\<lambda>m3. Inr (r, m3, s')))))"

section \<open>The condition variable\<close>

text \<open>
  \<open>cv_waiting\<close> are the threads blocked in \<^verbatim>\<open>pthread_cond_wait\<close>, \<open>cv_woken\<close> those that have been notified
  and still have to take the mutex.
\<close>

record condition_var =
  cv_waiting :: "nat list"
  cv_woken :: "nat list"

definition condition_var_new :: "int \<Rightarrow> condition_var exec" where
  "condition_var_new rc = bind_exec (CHECK rc) (\<lambda>_. Inr \<lparr>cv_waiting = [], cv_woken = []\<rparr>)"

definition condition_var_delete :: "int \<Rightarrow> condition_var \<Rightarrow> unit exec" where
  "condition_var_delete rc c = CHECK rc"

text \<open>
  \<^verbatim>\<open>wait\<close> up to the point where the thread is blocked, and its return. POSIX requires the caller to hold
  the mutex; on a default mutex the call releases it in any case.
\<close>

definition cond_wait_begin :: "nat \<Rightarrow> condition_var \<times> pthread_mutex \<Rightarrow> condition_var \<times> pthread_mutex" where
  "cond_wait_begin i x = (case x of (c, m) \<Rightarrow>
     (c\<lparr>cv_waiting := cv_waiting c @ [i]\<rparr>, if pm_owner m = Some i then m\<lparr>pm_owner := None\<rparr> else m))"

definition cond_wait_end :: "int \<Rightarrow> nat \<Rightarrow> condition_var \<times> pthread_mutex \<Rightarrow> (condition_var \<times> pthread_mutex) exec" where
  "cond_wait_end rc i x = (case x of (c, m) \<Rightarrow>
     bind_exec (check (i \<in> set (cv_woken c) \<and> pm_owner m = None) Pending) (\<lambda>_.
     bind_exec (CHECK rc) (\<lambda>_. Inr (c\<lparr>cv_woken := remove1 i (cv_woken c)\<rparr>, m\<lparr>pm_owner := Some i\<rparr>))))"

text \<open>\<open>k\<close> is the waiting thread the system chooses.\<close>

definition cond_notify :: "int \<Rightarrow> nat \<Rightarrow> condition_var \<Rightarrow> condition_var exec" where
  "cond_notify rc k c =
     bind_exec (CHECK rc) (\<lambda>_.
       if k \<in> set (cv_waiting c)
       then Inr (c\<lparr>cv_waiting := remove1 k (cv_waiting c), cv_woken := cv_woken c @ [k]\<rparr>)
       else Inr c)"

definition cond_notify_all :: "int \<Rightarrow> condition_var \<Rightarrow> condition_var exec" where
  "cond_notify_all rc c = bind_exec (CHECK rc) (\<lambda>_. Inr (c\<lparr>cv_waiting := [], cv_woken := cv_woken c @ cv_waiting c\<rparr>))"

section \<open>The guard\<close>

text \<open>A body that does not touch the mutex itself runs with the mutex held, and leaves it free.\<close>

lemma guard_runs_body:
  assumes "pm_alive m" "pm_owner m = None"
  shows "mutex_lock_guard 0 0 i (\<lambda>(m1, s). bind_exec (f s) (\<lambda>(r, s'). Inr (r, m1, s'))) (m, s) =
    bind_exec (f s) (\<lambda>(r, s'). Inr (r, m, s'))"
  using assms by (cases "f s") (auto simp: mutex_lock_guard_def mutex_lock_def mutex_unlock_def)

text \<open>
  What the mutex guarantees to a program that uses guards only: while one thread is in a guarded body no
  other guard on the same mutex (nor a second one of the same thread) gets past its constructor, and an
  error code ends the process.
\<close>

lemma guard_blocks:
  "pm_alive m \<Longrightarrow> pm_owner m = Some j \<Longrightarrow> mutex_lock_guard a b i body (m, s) = Inl Pending"
  by (simp add: mutex_lock_guard_def mutex_lock_def)

lemma guard_aborts:
  "pm_alive m \<Longrightarrow> pm_owner m = None \<Longrightarrow> rc \<noteq> 0 \<Longrightarrow> mutex_lock_guard rc b i body (m, s) = Inl Process_Abort"
  by (simp add: mutex_lock_guard_def mutex_lock_def CHECK_def)

text \<open>A notification reaches only threads that already wait: one that begins its wait later stays blocked.\<close>

lemma late_wait_blocks:
  assumes "i \<notin> set (cv_waiting c)" "i \<notin> set (cv_woken c)" "cond_notify 0 k c = Inr c'"
  shows "cond_wait_end 0 i (cond_wait_begin i (c', m)) = Inl Pending"
  using assms by (cases "i = k") (auto simp: cond_notify_def cond_wait_begin_def cond_wait_end_def split: if_splits)

end
