(* ===== verification/Thread_Queue.thy ===== *)
theory Thread_Queue
  imports Mutex_Lock
begin

text \<open>
  \<^verbatim>\<open>src/base/thread_queue.h\<close> over the mutex of \<^verbatim>\<open>src/base/mutex_lock.h\<close>: first the
  sequential operations on the deque, then the same operations as the threads execute them,
  lock, body and unlock being separate steps of an interleaving.
\<close>

section \<open>The sequential queue\<close>

definition tq_push :: "'a list \<Rightarrow> 'a \<Rightarrow> 'a list" where
  "tq_push q t = q @ [t]"

fun tq_pop :: "'a list \<Rightarrow> 'a option \<times> 'a list" where
  "tq_pop [] = (None, [])"
| "tq_pop (t # q) = (Some t, q)"

definition tq_size :: "'a list \<Rightarrow> int" where
  "tq_size q = c_int (int (length q))"

text \<open>The contract of a task queue, as the service loop uses it.\<close>

locale task_queue =
  fixes push :: "'q \<Rightarrow> 'a \<Rightarrow> 'q"
    and pop :: "'q \<Rightarrow> 'a option \<times> 'q"
    and contents :: "'q \<Rightarrow> 'a list"
  assumes push_law: "contents (push q t) = contents q @ [t]"
    and pop_empty: "contents q = [] \<Longrightarrow> fst (pop q) = None \<and> contents (snd (pop q)) = []"
    and pop_cons: "contents q = t # ts \<Longrightarrow> fst (pop q) = Some t \<and> contents (snd (pop q)) = ts"
begin

primrec pop_n :: "nat \<Rightarrow> 'q \<Rightarrow> 'a list \<times> 'q" where
  "pop_n 0 q = ([], q)"
| "pop_n (Suc n) q =
     (case pop q of
        (None, q') \<Rightarrow> ([], q')
      | (Some t, q') \<Rightarrow> (case pop_n n q' of (ts, q'') \<Rightarrow> (t # ts, q'')))"

lemma pop_n_take: "fst (pop_n n q) = take n (contents q) \<and> contents (snd (pop_n n q)) = drop n (contents q)"
proof (induction n arbitrary: q)
  case (Suc n)
  show ?case
  proof (cases "contents q")
    case Nil
    with pop_empty [of q] show ?thesis by (auto split: prod.splits option.splits)
  next
    case (Cons t ts)
    with pop_cons [of q t ts] Suc.IH [of "snd (pop q)"] show ?thesis
      by (auto split: prod.splits option.splits)
  qed
qed simp

lemma contents_push_list: "contents (foldl push q ts) = contents q @ ts"
  by (induction ts arbitrary: q) (simp_all add: push_law)

end

interpretation tq: task_queue tq_push tq_pop id
  by unfold_locales (simp_all add: tq_push_def)

text \<open>
  \<^verbatim>\<open>push\<close>, \<^verbatim>\<open>pop\<close> and \<^verbatim>\<open>size\<close> as the code has them, each body under a guard; \<open>i\<close> is the calling thread.
\<close>

definition locked_push :: "nat \<Rightarrow> 'a \<Rightarrow> pthread_mutex \<times> 'a list \<Rightarrow> (unit \<times> pthread_mutex \<times> 'a list) exec" where
  "locked_push i t = mutex_lock_guard 0 0 i (\<lambda>(m, q). Inr ((), m, tq_push q t))"

definition locked_pop :: "nat \<Rightarrow> pthread_mutex \<times> 'a list \<Rightarrow> ('a option \<times> pthread_mutex \<times> 'a list) exec" where
  "locked_pop i = mutex_lock_guard 0 0 i (\<lambda>(m, q). case tq_pop q of (r, q') \<Rightarrow> Inr (r, m, q'))"

definition locked_size :: "nat \<Rightarrow> pthread_mutex \<times> 'a list \<Rightarrow> (int \<times> pthread_mutex \<times> 'a list) exec" where
  "locked_size i = mutex_lock_guard 0 0 i (\<lambda>(m, q). Inr (tq_size q, m, q))"

lemma locked_ops:
  assumes "pm_alive m" "pm_owner m = None"
  shows "locked_push i t (m, q) = Inr ((), m, tq_push q t)"
    "locked_pop i (m, q) = Inr (fst (tq_pop q), m, snd (tq_pop q))"
    "locked_size i (m, q) = Inr (tq_size q, m, q)"
  using assms
  by (auto simp: locked_push_def locked_pop_def locked_size_def mutex_lock_guard_def mutex_lock_def mutex_unlock_def
      split: prod.splits)

section \<open>Interleaved execution\<close>

text \<open>
  Where a thread is inside an operation. \<open>Lock\<close> states wait for the mutex; the body of
  \<^verbatim>\<open>pop\<close> is three accesses (the emptiness test, the copy of the front, \<^verbatim>\<open>pop_front\<close>).
\<close>

datatype 'a tq_pc =
    Outside
  | Push_Lock 'a
  | Push_Body 'a
  | Pop_Lock
  | Pop_Test
  | Pop_Front
  | Pop_Erase 'a
  | Unlock "'a option"

text \<open>
  The shared state, and two ghost histories: the tasks pushed and the tasks popped so far, in
  the order the deque was changed.
\<close>

record 'a tq_state =
  tq_tasks :: "'a list"
  tq_owner :: "nat option"
  tq_at :: "nat \<Rightarrow> 'a tq_pc"
  tq_pushed :: "'a list"
  tq_popped :: "'a list"

definition tq_init :: "'a tq_state" where
  "tq_init = \<lparr>tq_tasks = [], tq_owner = None, tq_at = (\<lambda>_. Outside), tq_pushed = [], tq_popped = []\<rparr>"

definition goto :: "nat \<Rightarrow> 'a tq_pc \<Rightarrow> 'a tq_state \<Rightarrow> 'a tq_state" where
  "goto i pc s = s\<lparr>tq_at := (tq_at s)(i := pc)\<rparr>"

inductive tq_step :: "'a tq_state \<Rightarrow> 'a tq_state \<Rightarrow> bool" where
  call_push: "tq_at s i = Outside \<Longrightarrow> tq_step s (goto i (Push_Lock x) s)"
| call_pop: "tq_at s i = Outside \<Longrightarrow> tq_step s (goto i Pop_Lock s)"
| lock_push: "tq_at s i = Push_Lock x \<Longrightarrow> tq_owner s = None \<Longrightarrow>
    tq_step s (goto i (Push_Body x) (s\<lparr>tq_owner := Some i\<rparr>))"
| lock_pop: "tq_at s i = Pop_Lock \<Longrightarrow> tq_owner s = None \<Longrightarrow>
    tq_step s (goto i Pop_Test (s\<lparr>tq_owner := Some i\<rparr>))"
| push_back: "tq_at s i = Push_Body x \<Longrightarrow>
    tq_step s (goto i (Unlock None) (s\<lparr>tq_tasks := tq_push (tq_tasks s) x, tq_pushed := tq_pushed s @ [x]\<rparr>))"
| test_empty: "tq_at s i = Pop_Test \<Longrightarrow> tq_tasks s = [] \<Longrightarrow> tq_step s (goto i (Unlock None) s)"
| test_some: "tq_at s i = Pop_Test \<Longrightarrow> tq_tasks s \<noteq> [] \<Longrightarrow> tq_step s (goto i Pop_Front s)"
| copy_front: "tq_at s i = Pop_Front \<Longrightarrow> tq_step s (goto i (Pop_Erase (hd (tq_tasks s))) s)"
| pop_front: "tq_at s i = Pop_Erase x \<Longrightarrow>
    tq_step s (goto i (Unlock (Some x)) (s\<lparr>tq_tasks := tl (tq_tasks s), tq_popped := tq_popped s @ [x]\<rparr>))"
| unlock: "tq_at s i = Unlock r \<Longrightarrow> tq_step s (goto i Outside (s\<lparr>tq_owner := None\<rparr>))"

inductive tq_reachable :: "'a tq_state \<Rightarrow> bool" where
  tq_start: "tq_reachable tq_init"
| tq_next: "tq_reachable s \<Longrightarrow> tq_step s t \<Longrightarrow> tq_reachable t"

inductive_cases tq_stepE: "tq_step s t"

fun in_section :: "'a tq_pc \<Rightarrow> bool" where
  "in_section Outside = False"
| "in_section (Push_Lock x) = False"
| "in_section Pop_Lock = False"
| "in_section _ = True"

text \<open>What a thread inside its section may rely on.\<close>

fun pc_ok :: "'a list \<Rightarrow> 'a tq_pc \<Rightarrow> bool" where
  "pc_ok q Pop_Front = (q \<noteq> [])"
| "pc_ok q (Pop_Erase x) = (q \<noteq> [] \<and> hd q = x)"
| "pc_ok q _ = True"

definition tq_inv :: "'a tq_state \<Rightarrow> bool" where
  "tq_inv s \<longleftrightarrow> (\<forall>i. in_section (tq_at s i) \<longleftrightarrow> tq_owner s = Some i) \<and>
     (\<forall>i. pc_ok (tq_tasks s) (tq_at s i)) \<and> tq_pushed s = tq_popped s @ tq_tasks s"

lemma pc_ok_outside: "\<not> in_section pc \<Longrightarrow> pc_ok q pc"
  by (cases pc) simp_all

lemma tq_inv_init: "tq_inv tq_init"
  by (simp add: tq_inv_def tq_init_def)

lemma tq_inv_owner_unique: "tq_inv s \<Longrightarrow> in_section (tq_at s i) \<Longrightarrow> j \<noteq> i \<Longrightarrow> \<not> in_section (tq_at s j)"
  by (simp add: tq_inv_def)

text \<open>A step that changes the deque is taken by the owner, so every other thread is outside.\<close>

lemma tq_inv_change:
  assumes "tq_inv s" and i: "in_section (tq_at s i)" and "in_section pc" "pc_ok q pc"
    and "pushed = popped @ q"
  shows "tq_inv (goto i pc (s\<lparr>tq_tasks := q, tq_pushed := pushed, tq_popped := popped\<rparr>))"
proof -
  have "pc_ok q (tq_at s j)" if "j \<noteq> i" for j
    using tq_inv_owner_unique [OF assms(1) i that] by (rule pc_ok_outside)
  with assms show ?thesis by (auto simp: tq_inv_def goto_def)
qed

lemma tq_inv_move:
  assumes "tq_inv s" and "in_section pc = in_section (tq_at s i)" "pc_ok (tq_tasks s) pc"
  shows "tq_inv (goto i pc s)"
  using assms by (simp add: tq_inv_def goto_def)

lemma tq_step_inv: "tq_step s t \<Longrightarrow> tq_inv s \<Longrightarrow> tq_inv t"
proof (induction rule: tq_step.induct)
  case (push_back s i x)
  then show ?case
    using tq_inv_change [of s i "Unlock None" "tq_push (tq_tasks s) x" "tq_pushed s @ [x]" "tq_popped s"]
    by (simp add: tq_push_def tq_inv_def goto_def)
next
  case (pop_front s i x)
  then have "pc_ok (tq_tasks s) (Pop_Erase x)" by (metis tq_inv_def)
  then have "tq_tasks s = x # tl (tq_tasks s)" by (metis pc_ok.simps(2) list.collapse)
  with pop_front show ?case
    using tq_inv_change [of s i "Unlock (Some x)" "tl (tq_tasks s)" "tq_pushed s" "tq_popped s @ [x]"]
    by (simp add: tq_inv_def goto_def)
next
  case (copy_front s i)
  then have "pc_ok (tq_tasks s) Pop_Front" by (metis tq_inv_def)
  with copy_front show ?case by (intro tq_inv_move) simp_all
next
  case (lock_push s i x)
  then show ?case by (auto simp: tq_inv_def goto_def)
next
  case (lock_pop s i)
  then show ?case by (auto simp: tq_inv_def goto_def)
next
  case (unlock s i r)
  then have "tq_owner s = Some i" by (simp add: tq_inv_def) (metis in_section.simps)
  with unlock show ?case by (auto simp: tq_inv_def goto_def)
qed (auto intro!: tq_inv_move)

lemma tq_reachable_inv: "tq_reachable s \<Longrightarrow> tq_inv s"
  by (induction rule: tq_reachable.induct) (auto intro: tq_inv_init tq_step_inv)

section \<open>Properties\<close>

text \<open>
  Claim C16. Whatever the interleaving of the threads' \<open>push\<close> and \<open>pop\<close> calls, the queue is FIFO
  and loses or duplicates nothing (what was pushed is what was popped followed by what is
  still queued), at most one thread is inside a guarded section, and a thread about to execute
  \<^verbatim>\<open>pop_front\<close> erases the very element it copied.
\<close>

theorem tq_linearizable:
  assumes "tq_reachable s"
  shows "tq_pushed s = tq_popped s @ tq_tasks s \<and>
    (\<forall>i j. in_section (tq_at s i) \<and> in_section (tq_at s j) \<longrightarrow> i = j) \<and>
    (\<forall>i x. tq_at s i = Pop_Erase x \<longrightarrow> (\<exists>q. tq_tasks s = x # q))"
proof -
  from assms have inv: "tq_inv s" by (rule tq_reachable_inv)
  have "\<exists>q. tq_tasks s = x # q" if "tq_at s i = Pop_Erase x" for i x
  proof -
    from inv have "pc_ok (tq_tasks s) (tq_at s i)" by (simp add: tq_inv_def)
    with that show ?thesis by (cases "tq_tasks s") simp_all
  qed
  with inv show ?thesis by (auto simp: tq_inv_def)
qed

lemma tq_reachable_push_one:
  "tq_reachable (goto 1 (Unlock None) (goto 1 (Push_Body 7) (goto 1 (Push_Lock 7) tq_init\<lparr>tq_owner := Some 1\<rparr>)
      \<lparr>tq_tasks := [7 :: nat], tq_pushed := [7]\<rparr>))" (is "tq_reachable ?s")
proof -
  have "tq_reachable (goto 1 (Push_Lock 7) tq_init)"
    by (rule tq_next [OF tq_start]) (simp add: call_push tq_init_def)
  then have "tq_reachable (goto 1 (Push_Body 7) (goto 1 (Push_Lock 7) tq_init\<lparr>tq_owner := Some 1\<rparr>))"
    by (rule tq_next) (rule lock_push, simp_all add: goto_def tq_init_def)
  then show ?thesis
    by (rule tq_next)
      (use push_back [of "goto 1 (Push_Body 7) (goto 1 (Push_Lock 7) tq_init\<lparr>tq_owner := Some 1\<rparr>)" 1 "7::nat"]
       in \<open>simp add: goto_def tq_init_def tq_push_def\<close>)
qed

theorem tq_linearizable_witness:
  "tq_pushed (goto 1 (Unlock None) (goto 1 (Push_Body 7) (goto 1 (Push_Lock 7) tq_init\<lparr>tq_owner := Some 1\<rparr>)
      \<lparr>tq_tasks := [7 :: nat], tq_pushed := [7]\<rparr>)) = [] @ [7]"
  using tq_linearizable [OF tq_reachable_push_one, THEN conjunct1] by (simp add: goto_def tq_init_def)

text \<open>
  The lock-protected implementation refines the sequential queue: every step of every
  thread either leaves the deque and both histories alone, or is one atomic \<^verbatim>\<open>push\<close> or one
  atomic successful \<^verbatim>\<open>pop\<close> of the sequential operations. A thread that owns the mutex always has
  a step.
\<close>

theorem tq_step_refines_sequential:
  assumes "tq_reachable s"
  shows "(tq_step s t \<longrightarrow>
      (tq_tasks t = tq_tasks s \<and> tq_pushed t = tq_pushed s \<and> tq_popped t = tq_popped s) \<or>
      (\<exists>x. tq_tasks t = tq_push (tq_tasks s) x \<and> tq_pushed t = tq_pushed s @ [x] \<and> tq_popped t = tq_popped s) \<or>
      (\<exists>x. tq_pop (tq_tasks s) = (Some x, tq_tasks t) \<and> tq_popped t = tq_popped s @ [x] \<and> tq_pushed t = tq_pushed s)) \<and>
    (tq_owner s = Some i \<longrightarrow> (\<exists>u. tq_step s u \<and> tq_at u i \<noteq> tq_at s i))"
proof (intro conjI impI)
  from assms have inv: "tq_inv s" by (rule tq_reachable_inv)
  assume "tq_step s t"
  then show "(tq_tasks t = tq_tasks s \<and> tq_pushed t = tq_pushed s \<and> tq_popped t = tq_popped s) \<or>
      (\<exists>x. tq_tasks t = tq_push (tq_tasks s) x \<and> tq_pushed t = tq_pushed s @ [x] \<and> tq_popped t = tq_popped s) \<or>
      (\<exists>x. tq_pop (tq_tasks s) = (Some x, tq_tasks t) \<and> tq_popped t = tq_popped s @ [x] \<and> tq_pushed t = tq_pushed s)"
  proof (cases rule: tq_step.cases)
    case (pop_front i x)
    with inv have "pc_ok (tq_tasks s) (Pop_Erase x)" by (metis tq_inv_def)
    then have "tq_pop (tq_tasks s) = (Some x, tl (tq_tasks s))" by (cases "tq_tasks s") simp_all
    with pop_front show ?thesis by (simp add: goto_def)
  qed (simp_all add: goto_def)
next
  from assms have inv: "tq_inv s" by (rule tq_reachable_inv)
  assume "tq_owner s = Some i"
  with inv have "in_section (tq_at s i)" by (simp add: tq_inv_def)
  then show "\<exists>u. tq_step s u \<and> tq_at u i \<noteq> tq_at s i"
  proof (cases "tq_at s i")
    case (Push_Body x)
    then show ?thesis by (intro exI conjI, rule push_back) (auto simp: goto_def)
  next
    case Pop_Test
    then have "tq_step s (goto i (if tq_tasks s = [] then Unlock None else Pop_Front) s)"
      by (simp add: test_empty test_some)
    with Pop_Test show ?thesis
      by (intro exI [of _ "goto i (if tq_tasks s = [] then Unlock None else Pop_Front) s"]) (simp add: goto_def)
  next
    case Pop_Front
    then show ?thesis by (intro exI conjI, rule copy_front) (auto simp: goto_def)
  next
    case (Pop_Erase x)
    then show ?thesis by (intro exI conjI, rule pop_front) (auto simp: goto_def)
  next
    case (Unlock r)
    then show ?thesis by (intro exI conjI, rule unlock) (auto simp: goto_def)
  qed simp_all
qed

theorem tq_step_refines_sequential_witness:
  "\<exists>u. tq_step (goto 1 (Unlock None) (goto 1 (Push_Body 7) (goto 1 (Push_Lock 7) tq_init\<lparr>tq_owner := Some 1\<rparr>)
      \<lparr>tq_tasks := [7 :: nat], tq_pushed := [7]\<rparr>)) u \<and> tq_at u 1 \<noteq> Unlock None"
  using tq_step_refines_sequential [OF tq_reachable_push_one, of _ 1]
  by (simp add: goto_def tq_init_def)

end
