(* ===== verification/Service_Loop.thy ===== *)
theory Service_Loop
  imports Dispatchers Thread_Queue "HOL-Library.Multiset"
begin

text \<open>
  The reactor of \<^verbatim>\<open>src/net/service_loop.cc\<close> and \<^verbatim>\<open>.h\<close>. The operations are written against a
  dispatcher's virtual table \<open>V\<close>, as the code calls through \<^verbatim>\<open>EventDispatcher*\<close>; the handlers'
  virtual methods are the parameter \<open>invoke\<close> of the run loop. The record is extensible: a
  client adds its own objects as further fields, and the loop's operations leave them alone.
\<close>

section \<open>State\<close>

text \<open>
  The private \<^verbatim>\<open>WakeupHandler\<close>: its address, its eventfd, and (ghost) the values written to the
  eventfd that no \<^verbatim>\<open>read\<close> has taken yet.
\<close>

record wakeup_handler =
  wk_self :: ptr
  wk_fd :: int
  wk_unread :: "nat list"

record ('d, 'f) service_loop =
  sl_quit :: bool
  sl_dispatcher :: "'d option"
  sl_handlers :: "int \<rightharpoonup> ptr"
  sl_functors :: "'f list"
  sl_wakeup :: "wakeup_handler option"

definition the_dispatcher :: "('d, 'f, 'z) service_loop_scheme \<Rightarrow> 'd exec" where
  "the_dispatcher L = (case sl_dispatcher L of None \<Rightarrow> Inl Null_Deref | Some d \<Rightarrow> Inr d)"

section \<open>Registration\<close>

definition register_event ::
  "'d vtable \<Rightarrow> ('d, 'f, 'z) service_loop_scheme \<Rightarrow> int \<Rightarrow> bool \<Rightarrow> bool \<Rightarrow> ptr \<Rightarrow>
     (int \<times> ('d, 'f, 'z) service_loop_scheme) exec" where
  "register_event V L h readable writeable handler =
     bind_exec (c_assert (h > 0)) (\<lambda>_.
     bind_exec (c_assert (handler \<noteq> NULL)) (\<lambda>_.
     bind_exec (the_dispatcher L) (\<lambda>d.
     bind_exec (add_event V d h readable writeable) (\<lambda>(ok, d').
       if \<not> ok then Inr (get_last_errno V d', L\<lparr>sl_dispatcher := Some d'\<rparr>)
       else Inr (0, L\<lparr>sl_dispatcher := Some d', sl_handlers := (sl_handlers L)(h \<mapsto> handler)\<rparr>)))))"

definition modify_event ::
  "'d vtable \<Rightarrow> ('d, 'f, 'z) service_loop_scheme \<Rightarrow> int \<Rightarrow> bool \<Rightarrow> bool \<Rightarrow> ptr \<Rightarrow>
     (int \<times> ('d, 'f, 'z) service_loop_scheme) exec" where
  "modify_event V L h readable writeable handler =
     bind_exec (c_assert (h > 0)) (\<lambda>_.
     bind_exec (c_assert (handler \<noteq> NULL)) (\<lambda>_.
     bind_exec (the_dispatcher L) (\<lambda>d.
     bind_exec (mod_event V d h readable writeable) (\<lambda>(ok, d').
       if \<not> ok then Inr (get_last_errno V d', L\<lparr>sl_dispatcher := Some d'\<rparr>)
       else
         let (cur, m) = map_index (sl_handlers L) h;
             m' = (if handler \<noteq> cur then m(h \<mapsto> handler) else m)
         in Inr (0, L\<lparr>sl_dispatcher := Some d', sl_handlers := m'\<rparr>)))))"

definition delete_event ::
  "'d vtable \<Rightarrow> ('d, 'f, 'z) service_loop_scheme \<Rightarrow> int \<Rightarrow> (int \<times> ('d, 'f, 'z) service_loop_scheme) exec" where
  "delete_event V L h =
     bind_exec (c_assert (h > 0)) (\<lambda>_.
       case sl_handlers L h of
         None \<Rightarrow> Inr (0, L)
       | Some _ \<Rightarrow>
           bind_exec (the_dispatcher L) (\<lambda>d.
           bind_exec (del_event V d h) (\<lambda>(ok, d').
             if \<not> ok then Inr (get_last_errno V d', L\<lparr>sl_dispatcher := Some d'\<rparr>)
             else Inr (0, L\<lparr>sl_dispatcher := Some d', sl_handlers := (sl_handlers L)(h := None)\<rparr>))))"

definition add_run :: "('d, 'f, 'z) service_loop_scheme \<Rightarrow> 'f \<Rightarrow> ('d, 'f, 'z) service_loop_scheme" where
  "add_run L f = L\<lparr>sl_functors := tq_push (sl_functors L) f\<rparr>"

section \<open>The wakeup handler\<close>

text \<open>\<^verbatim>\<open>eventfd(2)\<close> answers a descriptor or -1; the constructor asserts.\<close>

definition wakeup_new :: "ptr \<Rightarrow> int \<Rightarrow> wakeup_handler exec" where
  "wakeup_new self eventfd_answer =
     bind_exec (c_assert (eventfd_answer \<noteq> -1)) (\<lambda>_.
       Inr \<lparr>wk_self = self, wk_fd = eventfd_answer, wk_unread = []\<rparr>)"

definition wakeup_open ::
  "'d vtable \<Rightarrow> ('d, 'f, 'z) service_loop_scheme \<Rightarrow> wakeup_handler \<Rightarrow> ('d, 'f, 'z) service_loop_scheme exec" where
  "wakeup_open V L wk =
     bind_exec (register_event V L (wk_fd wk) True False (wk_self wk)) (\<lambda>(result, L').
     bind_exec (c_assert (0 = result)) (\<lambda>_. Inr L'))"

definition wakeup_close ::
  "'d vtable \<Rightarrow> ('d, 'f, 'z) service_loop_scheme \<Rightarrow> wakeup_handler \<Rightarrow> net_state \<Rightarrow>
     (wakeup_handler \<times> net_state \<times> ('d, 'f, 'z) service_loop_scheme) exec" where
  "wakeup_close V L wk st =
     (if wk_fd wk > -1 then
        bind_exec (delete_event V L (wk_fd wk)) (\<lambda>(result, L').
        bind_exec (c_assert (0 = result)) (\<lambda>_. Inr (wk\<lparr>wk_fd := -1\<rparr>, net_close (wk_fd wk) st, L')))
      else Inr (wk, st, L))"

text \<open>
  \<open>ev_read\<close> is the system's \<^verbatim>\<open>read\<close> on the eventfd: given the values written and not yet read it
  answers an errno or the 8-byte value. A failed read returns -1, which is not
  \<^verbatim>\<open>sizeof(uint64_t)\<close>.
\<close>

definition wakeup_handle_read :: "(nat list \<Rightarrow> int + nat) \<Rightarrow> wakeup_handler \<Rightarrow> wakeup_handler exec" where
  "wakeup_handle_read ev_read wk =
     (case ev_read (wk_unread wk) of
        Inl e \<Rightarrow> Inl Assertion_Failed
      | Inr one \<Rightarrow> bind_exec (c_assert (1 = one)) (\<lambda>_. Inr (wk\<lparr>wk_unread := []\<rparr>)))"

text \<open>\<open>n\<close> is the answer of \<^verbatim>\<open>write(2)\<close>.\<close>

definition wakeup_write_some :: "int \<Rightarrow> wakeup_handler \<Rightarrow> wakeup_handler exec" where
  "wakeup_write_some n wk =
     bind_exec (c_assert (n = 8)) (\<lambda>_. Inr (wk\<lparr>wk_unread := wk_unread wk @ [1]\<rparr>))"

definition wakeup_event :: "int \<Rightarrow> ('d, 'f, 'z) service_loop_scheme \<Rightarrow> ('d, 'f, 'z) service_loop_scheme exec" where
  "wakeup_event n L =
     (case sl_wakeup L of
        None \<Rightarrow> Inr L
      | Some wk \<Rightarrow> bind_exec (wakeup_write_some n wk) (\<lambda>wk'. Inr (L\<lparr>sl_wakeup := Some wk'\<rparr>)))"

definition quit_loop :: "int \<Rightarrow> ('d, 'f, 'z) service_loop_scheme \<Rightarrow> ('d, 'f, 'z) service_loop_scheme exec" where
  "quit_loop n L = wakeup_event n (L\<lparr>sl_quit := True\<rparr>)"

section \<open>Construction and destruction\<close>

definition service_loop_new ::
  "int \<Rightarrow> epoll_ctl \<Rightarrow> int \<Rightarrow> int \<Rightarrow> ptr \<Rightarrow> (dispatcher, 'f) service_loop exec" where
  "service_loop_new poll ctl epoll_answer eventfd_answer wk_addr =
     bind_exec (wakeup_new wk_addr eventfd_answer) (\<lambda>wk.
     bind_exec (create_dispatcher poll ctl epoll_answer) (\<lambda>d.
     bind_exec (c_assert (d \<noteq> None)) (\<lambda>_.
       wakeup_open virt
         \<lparr>sl_quit = False, sl_dispatcher = d, sl_handlers = Map.empty, sl_functors = [], sl_wakeup = Some wk\<rparr> wk)))"

text \<open>
  The destructor deletes the dispatcher first, then clears the handlers, then deletes the wakeup
  handler, whose own destructor calls back into \<^verbatim>\<open>delete_event\<close>.
\<close>

definition service_loop_delete ::
  "'d vtable \<Rightarrow> ('d, 'f, 'z) service_loop_scheme \<Rightarrow> net_state \<Rightarrow> (net_state \<times> ('d, 'f, 'z) service_loop_scheme) exec" where
  "service_loop_delete V L st =
     (let st1 = (case sl_dispatcher L of None \<Rightarrow> st | Some d \<Rightarrow> destroy V d st);
          L1 = L\<lparr>sl_dispatcher := None\<rparr>;
          L2 = L1\<lparr>sl_handlers := Map.empty\<rparr>
      in case sl_wakeup L2 of
           None \<Rightarrow> Inr (st1, L2)
         | Some wk \<Rightarrow> bind_exec (wakeup_close V L2 wk st1) (\<lambda>(_, st2, L3). Inr (st2, L3\<lparr>sl_wakeup := None\<rparr>)))"

section \<open>The run loop\<close>

text \<open>
  \<open>invoke p ev L\<close> is the virtual call on the handler at \<open>p\<close> (\<^verbatim>\<open>do_handle_read\<close>, \<^verbatim>\<open>_write\<close> or
  \<^verbatim>\<open>_error\<close>). The handler is looked up with \<^verbatim>\<open>handlers_[fd]\<close>, which inserts a null pointer for an
  unknown handle.
\<close>

type_synonym ('d, 'f, 'z) invoke =
  "ptr \<Rightarrow> int \<Rightarrow> ('d, 'f, 'z) service_loop_scheme \<Rightarrow> ('d, 'f, 'z) service_loop_scheme exec"

definition dispatch_event ::
  "('d, 'f, 'z) invoke \<Rightarrow> int \<Rightarrow> int \<Rightarrow> ('d, 'f, 'z) service_loop_scheme \<Rightarrow> ('d, 'f, 'z) service_loop_scheme exec" where
  "dispatch_event invoke fd ev L =
     (let (handler, m) = map_index (sl_handlers L) fd; L0 = L\<lparr>sl_handlers := m\<rparr> in
      bind_exec (if ev = EVENT_READ \<and> handler \<noteq> NULL then invoke handler EVENT_READ L0 else Inr L0) (\<lambda>L1.
      bind_exec (if ev = EVENT_WRITE \<and> handler \<noteq> NULL then invoke handler EVENT_WRITE L1 else Inr L1) (\<lambda>L2.
        if ev = EVENT_ERROR \<and> handler \<noteq> NULL then invoke handler EVENT_ERROR L2 else Inr L2)))"

fun dispatch_ready ::
  "('d, 'f, 'z) invoke \<Rightarrow> ready_event_t \<Rightarrow> ('d, 'f, 'z) service_loop_scheme \<Rightarrow> ('d, 'f, 'z) service_loop_scheme exec" where
  "dispatch_ready invoke [] L = Inr L"
| "dispatch_ready invoke ((fd, ev) # ready) L =
     bind_exec (dispatch_event invoke fd ev L) (dispatch_ready invoke ready)"

text \<open>\<^verbatim>\<open>while (functors_.pop(fun)) fun();\<close>: tasks queued by a task run in the same loop.\<close>

partial_function (option) drain_functors ::
  "('f \<Rightarrow> ('d, 'f, 'z) service_loop_scheme \<Rightarrow> ('d, 'f, 'z) service_loop_scheme exec) \<Rightarrow>
     ('d, 'f, 'z) service_loop_scheme \<Rightarrow> ('d, 'f, 'z) service_loop_scheme exec option" where
  "drain_functors call L =
     (case tq_pop (sl_functors L) of
        (None, q) \<Rightarrow> Some (Inr (L\<lparr>sl_functors := q\<rparr>))
      | (Some f, q) \<Rightarrow>
          (case call f (L\<lparr>sl_functors := q\<rparr>) of
             Inl e \<Rightarrow> Some (Inl e)
           | Inr L' \<Rightarrow> drain_functors call L'))"

definition next_timeout :: "int \<Rightarrow> int" where
  "next_timeout ret = (if ret = -1 then 2 else if ret = 0 then 2 else 1)"

definition loop_iteration ::
  "'d vtable \<Rightarrow> ('d, 'f, 'z) invoke \<Rightarrow>
     ('f \<Rightarrow> ('d, 'f, 'z) service_loop_scheme \<Rightarrow> ('d, 'f, 'z) service_loop_scheme exec) \<Rightarrow> os_wait \<Rightarrow> int \<Rightarrow>
     ('d, 'f, 'z) service_loop_scheme \<Rightarrow> (int \<times> ('d, 'f, 'z) service_loop_scheme) exec" where
  "loop_iteration V invoke call os timeout_ms L =
     bind_exec (the_dispatcher L) (\<lambda>d.
     bind_exec (handle_events V d os [] timeout_ms) (\<lambda>(ret, ready, d').
     bind_exec (dispatch_ready invoke ready (L\<lparr>sl_dispatcher := Some d'\<rparr>)) (\<lambda>L2.
       case drain_functors call L2 of
         None \<Rightarrow> Inl Diverges
       | Some r \<Rightarrow> bind_exec r (\<lambda>L3. Inr (next_timeout ret, L3)))))"

text \<open>
  \<^verbatim>\<open>run()\<close>, given the system's behaviour in each successive wait; when the list ends the thread
  is inside the next wait.
\<close>

fun loop_run ::
  "'d vtable \<Rightarrow> ('d, 'f, 'z) invoke \<Rightarrow>
     ('f \<Rightarrow> ('d, 'f, 'z) service_loop_scheme \<Rightarrow> ('d, 'f, 'z) service_loop_scheme exec) \<Rightarrow> os_wait list \<Rightarrow> int \<Rightarrow>
     ('d, 'f, 'z) service_loop_scheme \<Rightarrow> ('d, 'f, 'z) service_loop_scheme exec" where
  "loop_run V invoke call [] timeout_ms L = (if sl_quit L then Inr L else Inl Pending)"
| "loop_run V invoke call (os # oss) timeout_ms L =
     (if sl_quit L then Inr L
      else bind_exec (loop_iteration V invoke call os timeout_ms L) (\<lambda>(t, L').
             loop_run V invoke call oss t L'))"

definition run_loop ::
  "'d vtable \<Rightarrow> ('d, 'f, 'z) invoke \<Rightarrow>
     ('f \<Rightarrow> ('d, 'f, 'z) service_loop_scheme \<Rightarrow> ('d, 'f, 'z) service_loop_scheme exec) \<Rightarrow> os_wait list \<Rightarrow>
     ('d, 'f, 'z) service_loop_scheme \<Rightarrow> ('d, 'f, 'z) service_loop_scheme exec" where
  "run_loop V invoke call oss L = loop_run V invoke call oss 2 L"

section \<open>The loop and its dispatcher agree\<close>

text \<open>
  \<open>loop_sync\<close>: the dispatcher exists, satisfies its invariant, and watches exactly the handles
  with a non-null entry in \<^verbatim>\<open>handlers_\<close>.
\<close>

definition loop_sync ::
  "('d \<Rightarrow> int set) \<Rightarrow> ('d \<Rightarrow> bool) \<Rightarrow> ('d, 'f, 'z) service_loop_scheme \<Rightarrow> bool" where
  "loop_sync watched invar L \<longleftrightarrow>
     (\<exists>d. sl_dispatcher L = Some d \<and> invar d \<and> watched d = live_keys (sl_handlers L))"

lemma loop_syncI:
  "sl_dispatcher L = Some d \<Longrightarrow> invar d \<Longrightarrow> watched d = live_keys (sl_handlers L) \<Longrightarrow> loop_sync watched invar L"
  by (auto simp: loop_sync_def)

lemma loop_syncE:
  assumes "loop_sync watched invar L"
  obtains d where "sl_dispatcher L = Some d" "invar d" "watched d = live_keys (sl_handlers L)"
  using assms by (auto simp: loop_sync_def)

lemma loop_sync_frame:
  "sl_dispatcher L' = sl_dispatcher L \<Longrightarrow> live_keys (sl_handlers L') = live_keys (sl_handlers L) \<Longrightarrow>
   loop_sync watched invar L' = loop_sync watched invar L"
  by (simp add: loop_sync_def)

lemma the_dispatcher_Inr [simp]: "the_dispatcher L = Inr d \<longleftrightarrow> sl_dispatcher L = Some d"
  by (auto simp: the_dispatcher_def split: option.splits)

text \<open>The result of a registration, seen from the handler map; the loop's other fields never change.\<close>

lemma register_event_handlers:
  assumes "register_event V L h r w p = Inr (e, L')"
  shows "\<exists>d d' ok. sl_dispatcher L = Some d \<and> h > 0 \<and> p \<noteq> NULL \<and> add_event V d h r w = Inr (ok, d') \<and>
    L' = L\<lparr>sl_dispatcher := Some d', sl_handlers := (if ok then (sl_handlers L)(h \<mapsto> p) else sl_handlers L)\<rparr> \<and>
    e = (if ok then 0 else get_last_errno V d')"
proof -
  have pre: "h > 0" "p \<noteq> NULL" using assms by (simp_all add: register_event_def check_def split: if_splits)
  from assms pre obtain d where d: "sl_dispatcher L = Some d"
    by (cases "sl_dispatcher L") (simp_all add: register_event_def the_dispatcher_def)
  with assms pre obtain ok d' where o: "add_event V d h r w = Inr (ok, d')"
    by (cases "add_event V d h r w") (simp_all add: register_event_def the_dispatcher_def split: prod.splits)
  have "register_event V L h r w p = Inr (if ok then 0 else get_last_errno V d',
      L\<lparr>sl_dispatcher := Some d', sl_handlers := (if ok then (sl_handlers L)(h \<mapsto> p) else sl_handlers L)\<rparr>)"
    using pre d o by (cases ok) (simp_all add: register_event_def the_dispatcher_def)
  with assms have "e = (if ok then 0 else get_last_errno V d')"
    "L' = L\<lparr>sl_dispatcher := Some d', sl_handlers := (if ok then (sl_handlers L)(h \<mapsto> p) else sl_handlers L)\<rparr>"
    by (simp_all only: sum.inject prod.inject)
  with d pre o show ?thesis by blast
qed

lemma modify_event_handlers:
  assumes "modify_event V L h r w p = Inr (e, L')"
  shows "\<exists>d d' ok. sl_dispatcher L = Some d \<and> h > 0 \<and> p \<noteq> NULL \<and> mod_event V d h r w = Inr (ok, d') \<and>
    L' = L\<lparr>sl_dispatcher := Some d', sl_handlers := (if ok then (sl_handlers L)(h \<mapsto> p) else sl_handlers L)\<rparr> \<and>
    e = (if ok then 0 else get_last_errno V d')"
proof -
  have pre: "h > 0" "p \<noteq> NULL" using assms by (simp_all add: modify_event_def check_def split: if_splits)
  from assms pre obtain d where d: "sl_dispatcher L = Some d"
    by (cases "sl_dispatcher L") (simp_all add: modify_event_def the_dispatcher_def)
  with assms pre obtain ok d' where o: "mod_event V d h r w = Inr (ok, d')"
    by (cases "mod_event V d h r w") (simp_all add: modify_event_def the_dispatcher_def split: prod.splits)
  have "modify_event V L h r w p = Inr (if ok then 0 else get_last_errno V d',
      L\<lparr>sl_dispatcher := Some d', sl_handlers := (if ok then (sl_handlers L)(h \<mapsto> p) else sl_handlers L)\<rparr>)"
    using pre d o by (cases ok) (simp_all add: modify_event_def the_dispatcher_def map_index_def Let_def fun_upd_idem split: option.splits)
  with assms have "e = (if ok then 0 else get_last_errno V d')"
    "L' = L\<lparr>sl_dispatcher := Some d', sl_handlers := (if ok then (sl_handlers L)(h \<mapsto> p) else sl_handlers L)\<rparr>"
    by (simp_all only: sum.inject prod.inject)
  with d pre o show ?thesis by blast
qed

lemma delete_event_handlers:
  assumes "delete_event V L h = Inr (e, L')"
  shows "h > 0 \<and> (sl_handlers L h = None \<and> e = 0 \<and> L' = L \<or>
    (\<exists>d d' ok. sl_handlers L h \<noteq> None \<and> sl_dispatcher L = Some d \<and> del_event V d h = Inr (ok, d') \<and>
      L' = L\<lparr>sl_dispatcher := Some d', sl_handlers := (if ok then (sl_handlers L)(h := None) else sl_handlers L)\<rparr> \<and>
      e = (if ok then 0 else get_last_errno V d')))"
proof (cases "sl_handlers L h")
  case None
  with assms show ?thesis by (cases "h > 0") (simp_all add: delete_event_def)
next
  case (Some x)
  have pre: "h > 0" using assms by (simp add: delete_event_def check_def split: if_splits)
  from assms pre Some obtain d where d: "sl_dispatcher L = Some d"
    by (cases "sl_dispatcher L") (simp_all add: delete_event_def the_dispatcher_def)
  with assms pre Some obtain ok d' where o: "del_event V d h = Inr (ok, d')"
    by (cases "del_event V d h") (simp_all add: delete_event_def the_dispatcher_def split: prod.splits)
  have "delete_event V L h = Inr (if ok then 0 else get_last_errno V d',
      L\<lparr>sl_dispatcher := Some d', sl_handlers := (if ok then (sl_handlers L)(h := None) else sl_handlers L)\<rparr>)"
    using pre d o Some by (cases ok) (simp_all add: delete_event_def the_dispatcher_def)
  with assms have "e = (if ok then 0 else get_last_errno V d')"
    "L' = L\<lparr>sl_dispatcher := Some d', sl_handlers := (if ok then (sl_handlers L)(h := None) else sl_handlers L)\<rparr>"
    by (simp_all only: sum.inject prod.inject)
  with d pre o Some show ?thesis by blast
qed

text \<open>What the loop needs of the handlers it calls: they keep it in step with its dispatcher.\<close>

definition keeps_sync ::
  "('d \<Rightarrow> int set) \<Rightarrow> ('d \<Rightarrow> bool) \<Rightarrow> (('d, 'f, 'z) service_loop_scheme \<Rightarrow> ('d, 'f, 'z) service_loop_scheme exec) \<Rightarrow> bool" where
  "keeps_sync watched invar act \<longleftrightarrow>
     (\<forall>L L'. loop_sync watched invar L \<longrightarrow> act L = Inr L' \<longrightarrow> loop_sync watched invar L')"

lemma keeps_syncD:
  "keeps_sync watched invar act \<Longrightarrow> loop_sync watched invar L \<Longrightarrow> act L = Inr L' \<Longrightarrow> loop_sync watched invar L'"
  by (simp add: keeps_sync_def)

lemma keeps_sync_bind:
  "keeps_sync watched invar f \<Longrightarrow> keeps_sync watched invar g \<Longrightarrow> keeps_sync watched invar (\<lambda>L. bind_exec (f L) g)"
  unfolding keeps_sync_def bind_exec_eq_Inr by blast

lemma keeps_sync_Inr: "keeps_sync watched invar Inr"
  by (simp add: keeps_sync_def)

context event_dispatcher begin

lemma register_event_sync:
  assumes "loop_sync watched invar L" "h \<notin> live_keys (sl_handlers L)"
    and "register_event V L h r w p = Inr (e, L')"
  shows "loop_sync watched invar L' \<and>
    sl_handlers L' = (if e = 0 then (sl_handlers L)(h \<mapsto> p) else sl_handlers L)"
proof -
  from register_event_handlers [OF assms(3)] obtain d d' ok where
    r: "sl_dispatcher L = Some d" "p \<noteq> NULL" "add_event V d h r w = Inr (ok, d')"
      "L' = L\<lparr>sl_dispatcher := Some d', sl_handlers := (if ok then (sl_handlers L)(h \<mapsto> p) else sl_handlers L)\<rparr>"
      "e = (if ok then 0 else get_last_errno V d')" by blast
  from assms(1) r(1) have "invar d" "watched d = live_keys (sl_handlers L)" by (auto simp: loop_sync_def)
  with add_law [of d h r w ok d'] assms(2) r show ?thesis by (auto simp: loop_sync_def)
qed

lemma modify_event_sync:
  assumes "loop_sync watched invar L" "h \<in> live_keys (sl_handlers L)"
    and "modify_event V L h r w p = Inr (e, L')"
  shows "loop_sync watched invar L' \<and>
    sl_handlers L' = (if e = 0 then (sl_handlers L)(h \<mapsto> p) else sl_handlers L)"
proof -
  from modify_event_handlers [OF assms(3)] obtain d d' ok where
    r: "sl_dispatcher L = Some d" "p \<noteq> NULL" "mod_event V d h r w = Inr (ok, d')"
      "L' = L\<lparr>sl_dispatcher := Some d', sl_handlers := (if ok then (sl_handlers L)(h \<mapsto> p) else sl_handlers L)\<rparr>"
      "e = (if ok then 0 else get_last_errno V d')" by blast
  from assms(1) r(1) have "invar d" "watched d = live_keys (sl_handlers L)" by (auto simp: loop_sync_def)
  with mod_law [of d h r w ok d'] assms(2) r show ?thesis by (auto simp: loop_sync_def insert_absorb)
qed

lemma delete_event_sync:
  assumes "loop_sync watched invar L" and "delete_event V L h = Inr (e, L')"
  shows "loop_sync watched invar L' \<and> sl_handlers L' = (if e = 0 then (sl_handlers L)(h := None) else sl_handlers L)"
proof -
  from delete_event_handlers [OF assms(2)] consider
      "sl_handlers L h = None" "e = 0" "L' = L"
    | d d' ok where "sl_dispatcher L = Some d" "del_event V d h = Inr (ok, d')"
      "L' = L\<lparr>sl_dispatcher := Some d', sl_handlers := (if ok then (sl_handlers L)(h := None) else sl_handlers L)\<rparr>"
      "e = (if ok then 0 else get_last_errno V d')" by metis
  then show ?thesis
  proof cases
    case 1
    with assms(1) show ?thesis by (auto simp: fun_upd_idem)
  next
    case 2
    from assms(1) 2(1) have "invar d" "watched d = live_keys (sl_handlers L)" by (auto simp: loop_sync_def)
    with del_law [of d h ok d'] 2 show ?thesis by (auto simp: loop_sync_def)
  qed
qed

lemma dispatch_event_sync:
  assumes "\<And>p ev. p \<noteq> NULL \<Longrightarrow> keeps_sync watched invar (invoke p ev)"
  shows "keeps_sync watched invar (dispatch_event invoke fd ev)"
  unfolding keeps_sync_def
proof (intro allI impI)
  fix L L'
  assume L: "loop_sync watched invar L" and run: "dispatch_event invoke fd ev L = Inr L'"
  define p where "p = fst (map_index (sl_handlers L) fd)"
  let ?L0 = "L\<lparr>sl_handlers := snd (map_index (sl_handlers L) fd)\<rparr>"
  from L have L0: "loop_sync watched invar ?L0" by (subst loop_sync_frame [of _ L]) simp_all
  from run have "invoke p ev ?L0 = Inr L' \<and> p \<noteq> NULL \<or> L' = ?L0"
    unfolding dispatch_event_def Let_def case_prod_beta p_def [symmetric] event_defs
    by (cases "p = NULL"; cases "ev = 0"; cases "ev = 1"; cases "ev = 2") (simp_all add: bind_exec_eq_Inr)
  with L0 assms show "loop_sync watched invar L'" by (auto dest: keeps_syncD)
qed

lemma dispatch_ready_sync:
  assumes "\<And>p ev. p \<noteq> NULL \<Longrightarrow> keeps_sync watched invar (invoke p ev)"
  shows "keeps_sync watched invar (dispatch_ready invoke ready)"
proof (induction ready)
  case Nil
  then show ?case by (simp add: keeps_sync_def)
next
  case (Cons e ready)
  obtain fd ev where "e = (fd, ev)" by fastforce
  with keeps_sync_bind [OF dispatch_event_sync [of invoke fd ev, OF assms] Cons.IH] show ?case by simp
qed

lemma register_event_returns:
  assumes "loop_sync watched invar L" "h > 0" "p \<noteq> NULL" "r \<or> w"
    and "\<And>d. sl_dispatcher L = Some d \<Longrightarrow> admits d h"
  shows "\<exists>e L'. register_event V L h r w p = Inr (e, L')"
proof -
  from assms(1) obtain d where d: "sl_dispatcher L = Some d" "invar d" by (auto simp: loop_sync_def)
  with add_returns [of d h r w] assms(4,5) obtain b d' where "add_event V d h r w = Inr (b, d')" by blast
  with d assms(2,3) show ?thesis by (cases b) (simp_all add: register_event_def the_dispatcher_def)
qed

lemma modify_event_returns:
  assumes "loop_sync watched invar L" "h \<in> live_keys (sl_handlers L)" "h > 0" "p \<noteq> NULL" "r \<or> w"
    and "\<And>d. sl_dispatcher L = Some d \<Longrightarrow> admits d h"
  shows "\<exists>e L'. modify_event V L h r w p = Inr (e, L')"
proof -
  from assms(1,2) obtain d where d: "sl_dispatcher L = Some d" "invar d" "h \<in> watched d" by (auto simp: loop_sync_def)
  with mod_returns [of d h r w] assms(5,6) obtain b d' where "mod_event V d h r w = Inr (b, d')" by blast
  with d assms(3,4) show ?thesis by (cases b) (simp_all add: modify_event_def the_dispatcher_def Let_def split: prod.splits)
qed

lemma delete_event_returns:
  assumes "loop_sync watched invar L" "h > 0" and "\<And>d. sl_dispatcher L = Some d \<Longrightarrow> admits d h"
  shows "\<exists>e L'. delete_event V L h = Inr (e, L')"
proof (cases "sl_handlers L h")
  case (Some q)
  from assms(1) obtain d where d: "sl_dispatcher L = Some d" "invar d" by (auto simp: loop_sync_def)
  with del_returns [of d h] assms(3) obtain b d' where "del_event V d h = Inr (b, d')" by blast
  with d assms(2) Some show ?thesis by (cases b) (simp_all add: delete_event_def the_dispatcher_def)
qed (use assms(2) in \<open>simp add: delete_event_def\<close>)

lemma wait_sync:
  assumes "loop_sync watched invar L" "sl_dispatcher L = Some d"
    and "handle_events V d os [] t = Inr (n, ready, d')"
  shows "loop_sync watched invar (L\<lparr>sl_dispatcher := Some d'\<rparr>)"
  using assms wait_keeps [of d os t n ready d'] by (auto simp: loop_sync_def)

end

section \<open>Draining the tasks\<close>

lemma drain_functors_Nil: "sl_functors L = [] \<Longrightarrow> drain_functors call L = Some (Inr L)"
  by (subst drain_functors.simps) (simp add: service_loop.surjective)

lemma drain_functors_Cons:
  "sl_functors L = f # q \<Longrightarrow> drain_functors call L =
     (case call f (L\<lparr>sl_functors := q\<rparr>) of Inl e \<Rightarrow> Some (Inl e) | Inr L' \<Rightarrow> drain_functors call L')"
  by (subst drain_functors.simps) simp

text \<open>
  A task may queue further tasks; the drain ends when every queued task has a smaller rank than
  the task that queued it (rank 0: queues nothing).
\<close>

definition ranked_tasks ::
  "('f \<Rightarrow> ('d, 'f, 'z) service_loop_scheme \<Rightarrow> ('d, 'f, 'z) service_loop_scheme exec) \<Rightarrow> ('f \<Rightarrow> nat) \<Rightarrow> bool" where
  "ranked_tasks call rank \<longleftrightarrow> (\<forall>f L L'. call f L = Inr L' \<longrightarrow>
     (\<exists>gs. sl_functors L' = sl_functors L @ gs \<and> (\<forall>g\<in>set gs. rank g < rank f)))"

lemma drain_functors_ranked:
  assumes "ranked_tasks call rank"
  shows "\<exists>r. drain_functors call L = Some r \<and> (\<forall>L'. r = Inr L' \<longrightarrow> sl_functors L' = [])"
proof -
  let ?M = "\<lambda>L. image_mset rank (mset (sl_functors L))"
  have wf: "wf (inv_image (mult {(x, y). x < y}) ?M)" by (intro wf_inv_image wf_mult wf)
  show ?thesis
    using wf
  proof (induction L rule: wf_induct_rule)
    case (less L)
    show ?case
    proof (cases "sl_functors L")
      case Nil
      then show ?thesis by (simp add: drain_functors_Nil)
    next
      case (Cons f q)
      show ?thesis
      proof (cases "call f (L\<lparr>sl_functors := q\<rparr>)")
        case (Inl e)
        with Cons show ?thesis by (simp add: drain_functors_Cons)
      next
        case (Inr L')
        with assms obtain gs where gs: "sl_functors L' = q @ gs" "\<forall>g\<in>set gs. rank g < rank f"
          unfolding ranked_tasks_def by fastforce
        have "(image_mset rank (mset q) + image_mset rank (mset gs), image_mset rank (mset q) + {#rank f#})
            \<in> mult {(x, y). x < y}"
          using gs(2) by (intro one_step_implies_mult) auto
        then have "(L', L) \<in> inv_image (mult {(x, y). x < y}) ?M" using gs(1) Cons by simp
        from less.IH [OF this] Cons Inr show ?thesis by (simp add: drain_functors_Cons)
      qed
    qed
  qed
qed

text \<open>The tasks in sequence, for tasks that queue nothing.\<close>

fun run_tasks ::
  "('f \<Rightarrow> ('d, 'f, 'z) service_loop_scheme \<Rightarrow> ('d, 'f, 'z) service_loop_scheme exec) \<Rightarrow> 'f list \<Rightarrow>
     ('d, 'f, 'z) service_loop_scheme \<Rightarrow> ('d, 'f, 'z) service_loop_scheme exec" where
  "run_tasks call [] L = Inr L"
| "run_tasks call (f # fs) L = bind_exec (call f (L\<lparr>sl_functors := fs\<rparr>)) (run_tasks call fs)"

lemma drain_functors_run_tasks:
  assumes "\<And>f L L'. call f L = Inr L' \<Longrightarrow> sl_functors L' = sl_functors L"
  shows "sl_functors L = fs \<Longrightarrow> drain_functors call L = Some (run_tasks call fs L)"
proof (induction fs arbitrary: L)
  case Nil
  then show ?case by (simp add: drain_functors_Nil)
next
  case (Cons f fs)
  show ?case
  proof (cases "call f (L\<lparr>sl_functors := fs\<rparr>)")
    case (Inl e)
    with Cons.prems show ?thesis by (simp add: drain_functors_Cons)
  next
    case (Inr L')
    with assms [OF Inr] Cons show ?thesis by (simp add: drain_functors_Cons)
  qed
qed

context event_dispatcher begin

lemma drain_functors_sync:
  assumes "\<And>f. keeps_sync watched invar (call f)"
    and "loop_sync watched invar L" and "drain_functors call L = Some r" and "r = Inr L'"
  shows "loop_sync watched invar L'"
  using assms(3,4,2,1)
proof (induct call L r rule: drain_functors.raw_induct [rotated, consumes 1, case_names step])
  case (step drain c L r)
  have upd: "loop_sync watched invar (L\<lparr>sl_functors := q\<rparr>)" for q
    using step(4) by (simp add: loop_sync_def)
  show ?case
  proof (cases "sl_functors L")
    case Nil
    with step(2,3) upd show ?thesis by auto
  next
    case (Cons f q)
    with step(2,3) obtain L1 where L1: "c f (L\<lparr>sl_functors := q\<rparr>) = Inr L1" "drain c L1 = Some r"
      by (auto split: sum.splits)
    from keeps_syncD [OF step(5) upd L1(1)] step(1) [OF L1(2) step(3)] step(5) show ?thesis by blast
  qed
qed

lemma loop_iteration_sync:
  assumes "\<And>p ev. p \<noteq> NULL \<Longrightarrow> keeps_sync watched invar (invoke p ev)" and "\<And>f. keeps_sync watched invar (call f)"
    and "loop_sync watched invar L" and "loop_iteration V invoke call os t L = Inr (t', L')"
  shows "loop_sync watched invar L' \<and> t' \<in> {1, 2}"
proof -
  from assms(4) obtain d n ready d' L2 where d: "sl_dispatcher L = Some d" "handle_events V d os [] t = Inr (n, ready, d')"
    and L2: "dispatch_ready invoke ready (L\<lparr>sl_dispatcher := Some d'\<rparr>) = Inr L2"
    and L': "drain_functors call L2 = Some (Inr L')" "t' = next_timeout n"
    by (auto simp: loop_iteration_def bind_exec_eq_Inr split: option.splits)
  from wait_sync [OF assms(3) d] dispatch_ready_sync [of invoke ready, OF assms(1)] L2
  have "loop_sync watched invar L2" by (auto dest: keeps_syncD)
  from drain_functors_sync [OF assms(2) this L'(1) refl] L'(2) show ?thesis by (simp add: next_timeout_def)
qed

lemma loop_run_sync:
  assumes "\<And>p ev. p \<noteq> NULL \<Longrightarrow> keeps_sync watched invar (invoke p ev)" and "\<And>f. keeps_sync watched invar (call f)"
  shows "loop_sync watched invar L \<Longrightarrow> loop_run V invoke call oss t L = Inr L' \<Longrightarrow>
    loop_sync watched invar L' \<and> sl_quit L'"
proof (induction oss arbitrary: t L)
  case Nil
  then show ?case by (simp split: if_splits)
next
  case (Cons os oss)
  show ?case
  proof (cases "sl_quit L")
    case True
    with Cons.prems show ?thesis by auto
  next
    case False
    with Cons.prems(2) obtain t1 L1 where "loop_iteration V invoke call os t L = Inr (t1, L1)"
      "loop_run V invoke call oss t1 L1 = Inr L'" by (auto simp: bind_exec_eq_Inr)
    with Cons.IH loop_iteration_sync [of invoke call, OF assms Cons.prems(1)] show ?thesis by blast
  qed
qed

end

section \<open>Reachable loops\<close>

text \<open>
  The states a loop passes through when clients register new handles, modify registered ones
  and delete any, threads queue tasks, wake and quit, the run loop waits and looks handlers up.
\<close>

inductive loop_step :: "(dispatcher, 'f) service_loop \<Rightarrow> (dispatcher, 'f) service_loop \<Rightarrow> bool" where
  step_register: "h \<notin> live_keys (sl_handlers L) \<Longrightarrow> register_event virt L h r w p = Inr (e, L') \<Longrightarrow> loop_step L L'"
| step_modify: "h \<in> live_keys (sl_handlers L) \<Longrightarrow> modify_event virt L h r w p = Inr (e, L') \<Longrightarrow> loop_step L L'"
| step_delete: "delete_event virt L h = Inr (e, L') \<Longrightarrow> loop_step L L'"
| step_add_run: "loop_step L (add_run L f)"
| step_wakeup: "wakeup_event n L = Inr L' \<Longrightarrow> loop_step L L'"
| step_quit: "quit_loop n L = Inr L' \<Longrightarrow> loop_step L L'"
| step_woken: "sl_wakeup L = Some wk \<Longrightarrow> wakeup_handle_read f wk = Inr wk' \<Longrightarrow> loop_step L (L\<lparr>sl_wakeup := Some wk'\<rparr>)"
| step_wait: "sl_dispatcher L = Some d \<Longrightarrow> handle_events virt d os [] t = Inr (n, ready, d') \<Longrightarrow>
    loop_step L (L\<lparr>sl_dispatcher := Some d'\<rparr>)"
| step_lookup: "loop_step L (L\<lparr>sl_handlers := snd (map_index (sl_handlers L) fd)\<rparr>)"

inductive loop_reachable :: "(dispatcher, 'f) service_loop \<Rightarrow> (dispatcher, 'f) service_loop \<Rightarrow> bool" for L0 where
  reach_start: "loop_reachable L0 L0"
| reach_step: "loop_reachable L0 L \<Longrightarrow> loop_step L L' \<Longrightarrow> loop_reachable L0 L'"

abbreviation in_sync :: "(dispatcher, 'f, 'z) service_loop_scheme \<Rightarrow> bool" where
  "in_sync \<equiv> loop_sync disp_watched disp_invar"

lemma wakeup_event_frame:
  "wakeup_event n L = Inr L' \<Longrightarrow> sl_dispatcher L' = sl_dispatcher L \<and> sl_handlers L' = sl_handlers L"
  by (auto simp: wakeup_event_def bind_exec_eq_Inr split: option.splits)

lemma loop_step_sync: "loop_step L L' \<Longrightarrow> in_sync L \<Longrightarrow> in_sync L'"
proof (induction rule: loop_step.induct)
  case (step_register h L r w p e L')
  then show ?case using any.register_event_sync by blast
next
  case (step_modify h L r w p e L')
  then show ?case using any.modify_event_sync by blast
next
  case (step_delete L h e L')
  then show ?case using any.delete_event_sync by blast
next
  case (step_add_run L f)
  then show ?case by (simp add: loop_sync_def add_run_def)
next
  case (step_wakeup n L L')
  then show ?case by (auto simp: loop_sync_def dest: wakeup_event_frame)
next
  case (step_quit n L L')
  then show ?case by (auto simp: loop_sync_def quit_loop_def dest!: wakeup_event_frame)
next
  case (step_woken L wk f wk')
  then show ?case by (simp add: loop_sync_def)
next
  case (step_wait L d os t n ready d')
  then show ?case using any.wait_sync by blast
next
  case (step_lookup L fd)
  then show ?case by (simp add: loop_sync_def)
qed

lemma loop_reachable_sync: "loop_reachable L0 L \<Longrightarrow> in_sync L0 \<Longrightarrow> in_sync L"
  by (induction rule: loop_reachable.induct) (auto dest: loop_step_sync)

lemma create_dispatcher_facts:
  assumes "create_dispatcher poll ctl ea = Inr (Some d)" "epoll_ctl_documented ctl"
  shows "disp_invar d" "disp_watched d = {}"
  using assms select_invar_new poll_invar_new
  by (auto simp: create_dispatcher_def epoll_new_def bind_exec_eq_Inr epoll_invar_def epoll_watched_def
      poll_watched_def poll_new_def select_new_def split: if_splits)

lemma service_loop_new_facts:
  assumes "service_loop_new poll ctl ea ef wk = Inr L" "epoll_ctl_documented ctl"
  shows "in_sync L" "sl_handlers L = [ef \<mapsto> wk]" "sl_quit L = False" "sl_functors L = []"
    "sl_wakeup L = Some \<lparr>wk_self = wk, wk_fd = ef, wk_unread = []\<rparr>" "ef > 0" "wk \<noteq> NULL"
proof -
  let ?W = "\<lparr>wk_self = wk, wk_fd = ef, wk_unread = []\<rparr>"
  let ?L0 = "\<lambda>d. \<lparr>sl_quit = False, sl_dispatcher = Some d, sl_handlers = Map.empty, sl_functors = [], sl_wakeup = Some ?W\<rparr>"
  from assms(1) obtain d where d: "create_dispatcher poll ctl ea = Inr (Some d)"
    and r: "register_event virt (?L0 d) ef True False wk = Inr (0, L)"
    by (auto simp: service_loop_new_def wakeup_new_def wakeup_open_def bind_exec_eq_Inr)
  have "in_sync (?L0 d)"
    using create_dispatcher_facts [OF d assms(2)] by (simp add: loop_sync_def)
  from any.register_event_sync [OF this _ r] show "in_sync L" "sl_handlers L = [ef \<mapsto> wk]" by auto
  from register_event_handlers [OF r] show "sl_quit L = False" "sl_functors L = []" "sl_wakeup L = Some ?W"
    "ef > 0" "wk \<noteq> NULL" by auto
qed

section \<open>Properties\<close>

text \<open>A loop on the epoll dispatcher as its constructor leaves it, for the witnesses.\<close>

definition sample_loop :: "(dispatcher, nat) service_loop" where
  "sample_loop = \<lparr>sl_quit = False, sl_dispatcher = Some (D_Epoll (sample_epoll\<lparr>ep_fd := 3\<rparr>)),
     sl_handlers = [4 \<mapsto> 100], sl_functors = [], sl_wakeup = Some \<lparr>wk_self = 100, wk_fd = 4, wk_unread = []\<rparr>\<rparr>"

lemma sample_loop_new: "service_loop_new 2 sample_ctl 3 4 100 = Inr sample_loop"
  by (simp add: service_loop_new_def wakeup_new_def wakeup_open_def create_dispatcher_def epoll_new_def
      register_event_def the_dispatcher_def epoll_add_event_def epoll_events_cases epoll_count_inc_def
      sample_ctl_def INT_MAX_def wrap_result_def sample_loop_def sample_epoll_def)

lemma sample_loop_sync [simp]: "in_sync sample_loop"
  by (rule service_loop_new_facts [OF sample_loop_new sample_ctl_documented])



text \<open>
  \<^verbatim>\<open>register_event\<close> on a handle without a live handler returns; it returns 0 exactly when
  the handler is now stored under the handle and the dispatcher watches it, and otherwise an
  errno, with the map and the watched set as before.
\<close>

theorem register_event_outcome:
  assumes "in_sync L" "h \<notin> live_keys (sl_handlers L)" "h > 0" "p \<noteq> NULL" "r \<or> w"
    and "sl_dispatcher L = Some d" "disp_admits d h"
  shows "\<exists>e L' d'. register_event virt L h r w p = Inr (e, L') \<and> sl_dispatcher L' = Some d' \<and>
    (if e = 0 then sl_handlers L' = (sl_handlers L)(h \<mapsto> p) \<and> disp_watched d' = insert h (disp_watched d)
     else sl_handlers L' = sl_handlers L \<and> disp_watched d' = disp_watched d)"
proof -
  from any.register_event_returns [OF assms(1,3,4,5)] assms(6,7) obtain e L' where
    r: "register_event virt L h r w p = Inr (e, L')" by fastforce
  from any.register_event_sync [OF assms(1,2) r] have s: "in_sync L'"
    "sl_handlers L' = (if e = 0 then (sl_handlers L)(h \<mapsto> p) else sl_handlers L)" by auto
  from s(1) obtain d' where "sl_dispatcher L' = Some d'" "disp_watched d' = live_keys (sl_handlers L')"
    by (auto simp: loop_sync_def)
  with s r assms(1,4,6) show ?thesis by (auto simp: loop_sync_def)
qed

theorem register_event_outcome_witness:
  "\<exists>e L' d'. register_event virt sample_loop 7 True False 200 = Inr (e, L') \<and> sl_dispatcher L' = Some d' \<and>
    (if e = 0 then sl_handlers L' = (sl_handlers sample_loop)(7 \<mapsto> 200) \<and>
       disp_watched d' = insert 7 (disp_watched (D_Epoll (sample_epoll\<lparr>ep_fd := 3\<rparr>)))
     else sl_handlers L' = sl_handlers sample_loop \<and>
       disp_watched d' = disp_watched (D_Epoll (sample_epoll\<lparr>ep_fd := 3\<rparr>)))"
  by (rule register_event_outcome [OF sample_loop_sync])
    (simp_all add: sample_loop_def live_keys_def epoll_admits_def INT_MAX_def)

text \<open>
  After a \<^verbatim>\<open>delete_event\<close> that returned 0 the handle has no entry and is not watched, every
  other handler is untouched, and deleting again returns 0 and changes nothing.
\<close>

theorem delete_event_idempotent:
  assumes "in_sync L" and "delete_event virt L h = Inr (0, L')"
  shows "sl_handlers L' = (sl_handlers L)(h := None) \<and> in_sync L' \<and>
    h \<notin> disp_watched (the (sl_dispatcher L')) \<and> delete_event virt L' h = Inr (0, L')"
proof -
  from any.delete_event_sync [OF assms] have s: "in_sync L'" "sl_handlers L' = (sl_handlers L)(h := None)" by auto
  have "h > 0" using delete_event_handlers [OF assms(2)] by blast
  with s have "delete_event virt L' h = Inr (0, L')" by (simp add: delete_event_def)
  moreover from s(1) obtain d where "sl_dispatcher L' = Some d" "disp_watched d = live_keys (sl_handlers L')"
    by (auto simp: loop_sync_def)
  ultimately show ?thesis using s by simp
qed

theorem delete_event_idempotent_witness:
  "delete_event virt (sample_loop\<lparr>sl_dispatcher := Some (D_Epoll (sample_epoll\<lparr>ep_fd_count := 2, ep_interest := Map.empty\<rparr>)),
     sl_handlers := Map.empty\<rparr>) 4 = Inr (0, sample_loop\<lparr>sl_dispatcher := Some (D_Epoll (sample_epoll\<lparr>ep_fd_count := 2,
     ep_interest := Map.empty\<rparr>)), sl_handlers := Map.empty\<rparr>)"
proof -
  have "delete_event virt sample_loop 4 = Inr (0, sample_loop\<lparr>sl_dispatcher := Some (D_Epoll (sample_epoll\<lparr>ep_fd_count := 2,
     ep_interest := Map.empty\<rparr>)), sl_handlers := Map.empty\<rparr>)"
    by (simp add: delete_event_def sample_loop_def the_dispatcher_def epoll_del_event_def epoll_count_inc_def
        sample_ctl_def INT_MAX_def Let_def wrap_result_def sample_epoll_def fun_eq_iff)
  from delete_event_idempotent [OF sample_loop_sync this] show ?thesis by blast
qed

text \<open>
  Claim C10. For each reported event the loop makes exactly one virtual call, on the handler that is
  registered for the handle when the event's turn comes; when the handle has no live handler
  any more (an earlier event of the same batch removed it) the event is skipped, so a deleted
  handler is not called.
\<close>

theorem dispatch_ready_calls_live:
  assumes "ev \<in> {EVENT_READ, EVENT_WRITE, EVENT_ERROR}"
  shows "dispatch_ready invoke ((fd, ev) # ready) L =
    (if fd \<in> live_keys (sl_handlers L)
     then bind_exec (invoke (the (sl_handlers L fd)) ev L) (dispatch_ready invoke ready)
     else dispatch_ready invoke ready (L\<lparr>sl_handlers := (sl_handlers L)(fd \<mapsto> NULL)\<rparr>))"
proof (cases "fd \<in> live_keys (sl_handlers L)")
  case True
  then obtain p where p: "sl_handlers L fd = Some p" "p \<noteq> NULL" by (auto simp: live_keys_def)
  with assms True p show ?thesis
    by (auto simp: dispatch_event_def map_index_def event_defs)
next
  case False
  then have "map_index (sl_handlers L) fd = (NULL, (sl_handlers L)(fd \<mapsto> NULL))"
    by (auto simp: map_index_def live_keys_def fun_upd_idem split: option.splits)
  with False show ?thesis by (simp add: dispatch_event_def)
qed

theorem dispatch_ready_calls_live_witness:
  "dispatch_ready (\<lambda>p ev L. Inr (L\<lparr>sl_handlers := Map.empty\<rparr>)) [(4, EVENT_READ), (4, EVENT_ERROR)] sample_loop =
   Inr (sample_loop\<lparr>sl_handlers := [4 \<mapsto> NULL]\<rparr>)"
  using dispatch_ready_calls_live [of EVENT_READ "\<lambda>p ev L. Inr (L\<lparr>sl_handlers := Map.empty\<rparr>)" 4 "[(4, EVENT_ERROR)]" sample_loop]
    dispatch_ready_calls_live [of EVENT_ERROR "\<lambda>p ev L. Inr (L\<lparr>sl_handlers := Map.empty\<rparr>)" 4 "[]" "sample_loop\<lparr>sl_handlers := Map.empty\<rparr>"]
  by (simp add: sample_loop_def live_keys_def)

text \<open>
  Claim C24. If every task that a task queues has a smaller rank, draining the task queue ends with
  the queue empty (or with the stop of a task); and if tasks queue nothing, it runs exactly the
  queued tasks, in order.
\<close>

theorem drain_functors_terminates:
  assumes "ranked_tasks call rank"
  shows "(\<exists>r. drain_functors call L = Some r \<and> (\<forall>L'. r = Inr L' \<longrightarrow> sl_functors L' = [])) \<and>
    ((\<forall>f. rank f = 0) \<longrightarrow> drain_functors call L = Some (run_tasks call (sl_functors L) L))"
proof (intro conjI impI)
  assume "\<forall>f. rank f = 0"
  then have "sl_functors L' = sl_functors L" if "call f L = Inr L'" for f L L'
    using assms that unfolding ranked_tasks_def by fastforce
  then show "drain_functors call L = Some (run_tasks call (sl_functors L) L)"
    by (rule drain_functors_run_tasks) simp_all
qed (rule drain_functors_ranked [OF assms])

text \<open>The task \<open>n\<close> of this example queues the task \<open>n - 1\<close>.\<close>

definition countdown_task :: "nat \<Rightarrow> (dispatcher, nat) service_loop \<Rightarrow> (dispatcher, nat) service_loop exec" where
  "countdown_task n L = (if n = 0 then Inr L else Inr (add_run L (n - 1)))"

theorem drain_functors_terminates_witness:
  "\<exists>r. drain_functors countdown_task (sample_loop\<lparr>sl_functors := [3, 1]\<rparr>) = Some r \<and>
     (\<forall>L'. r = Inr L' \<longrightarrow> sl_functors L' = [])"
proof -
  have "ranked_tasks countdown_task id"
    by (auto simp: ranked_tasks_def countdown_task_def add_run_def tq_push_def)
  from drain_functors_terminates [OF this] show ?thesis by blast
qed

text \<open>
  A task that queues itself again is run over and over inside one drain: the drain never
  ends and the iteration never returns to the dispatcher.
\<close>

theorem requeueing_task_starves_loop:
  fixes L :: "('d, 'f, 'z) service_loop_scheme"
  assumes "sl_dispatcher L = Some d" "handle_events V d os [] t = Inr (n, [], d')" "sl_functors L = [f]"
  shows "loop_iteration V invoke (\<lambda>g K. Inr (add_run K g)) os t L = Inl Diverges"
proof -
  have starve: "\<not> (sl_functors K = [f])" if "drain_functors (\<lambda>g K. Inr (add_run K g)) K = Some r"
    for K :: "('d, 'f, 'z) service_loop_scheme" and r
  proof (rule drain_functors.raw_induct [where P = "\<lambda>c K r. c = (\<lambda>g K. Inr (add_run K g)) \<longrightarrow> sl_functors K \<noteq> [f]",
        OF _ that, THEN mp, OF _ refl], intro impI notI)
    fix drain and c :: "'f \<Rightarrow> ('d, 'f, 'z) service_loop_scheme \<Rightarrow> ('d, 'f, 'z) service_loop_scheme exec" and K r
    assume IH: "\<And>c K r. drain c K = Some r \<Longrightarrow> c = (\<lambda>g K. Inr (add_run K g)) \<longrightarrow> sl_functors K \<noteq> [f]"
      and eq: "(case tq_pop (sl_functors K) of
        (None, q) \<Rightarrow> Some (Inr (K\<lparr>sl_functors := q\<rparr>))
      | (Some f, q) \<Rightarrow> (case c f (K\<lparr>sl_functors := q\<rparr>) of Inl e \<Rightarrow> Some (Inl e) | Inr L' \<Rightarrow> drain c L')) = Some r"
      and c: "c = (\<lambda>g K. Inr (add_run K g))" and K: "sl_functors K = [f]"
    from eq c K have "drain c (add_run (K\<lparr>sl_functors := []\<rparr>) f) = Some r" by simp
    from IH [OF this] c show False by (simp add: add_run_def tq_push_def)
  qed
  have "drain_functors (\<lambda>g K. Inr (add_run K g)) (L\<lparr>sl_dispatcher := Some d'\<rparr>) = None"
  proof (rule ccontr)
    assume "drain_functors (\<lambda>g K. Inr (add_run K g)) (L\<lparr>sl_dispatcher := Some d'\<rparr>) \<noteq> None"
    then obtain r where "drain_functors (\<lambda>g K. Inr (add_run K g)) (L\<lparr>sl_dispatcher := Some d'\<rparr>) = Some r" by blast
    from starve [OF this] assms(3) show False by simp
  qed
  with assms show ?thesis by (simp add: loop_iteration_def the_dispatcher_def)
qed

theorem requeueing_task_starves_loop_witness:
  "loop_iteration virt (\<lambda>p ev L. Inr L) (\<lambda>g K. Inr (add_run K g))
     (sample_os\<lparr>os_epoll_wait := \<lambda>n t. Inr []\<rparr>) 2 (sample_loop\<lparr>sl_functors := [5]\<rparr>) = Inl Diverges"
  by (rule requeueing_task_starves_loop [where n = 0])
    (auto simp: sample_loop_def epoll_handle_events_def sample_os_def sample_epoll_def wrap_ready_def)

text \<open>
  When the system behaves as documented (a read of the eventfd returns the sum of the
  values written since the last read), one wakeup before the loop reads is handled, and two
  wakeups before the loop reads abort the process at \<^verbatim>\<open>assert(1==one)\<close>.
\<close>

theorem second_wakeup_aborts:
  assumes "\<And>ws. ws \<noteq> [] \<Longrightarrow> ev_read ws = Inr (sum_list ws)" and "wk_unread wk = []"
  shows "\<exists>wk1 wk2. wakeup_write_some 8 wk = Inr wk1 \<and> wakeup_handle_read ev_read wk1 = Inr wk \<and>
    wakeup_write_some 8 wk1 = Inr wk2 \<and> wakeup_handle_read ev_read wk2 = Inl Assertion_Failed"
  using assms by (simp add: wakeup_write_some_def wakeup_handle_read_def)

theorem second_wakeup_aborts_witness:
  "\<exists>wk1 wk2. wakeup_write_some 8 \<lparr>wk_self = 100, wk_fd = 4, wk_unread = []\<rparr> = Inr wk1 \<and>
    wakeup_handle_read (\<lambda>ws. Inr (sum_list ws)) wk1 = Inr \<lparr>wk_self = 100, wk_fd = 4, wk_unread = []\<rparr> \<and>
    wakeup_write_some 8 wk1 = Inr wk2 \<and> wakeup_handle_read (\<lambda>ws. Inr (sum_list ws)) wk2 = Inl Assertion_Failed"
  by (rule second_wakeup_aborts) simp_all



end
