(* ===== verification/Loop_Registry.thy ===== *)
theory Loop_Registry
  imports Service_Loop
begin

text \<open>
  What \<^verbatim>\<open>ServiceLoop\<close> promises its handlers, as an abstract object: a map from descriptors to the directions asked
  for and the handler to call. \<open>register_event\<close>, \<open>modify_event\<close> and \<open>delete_event\<close> implement its
  operations on every dispatcher, failures included.
\<close>

section \<open>The registry\<close>

type_synonym registry = "int \<rightharpoonup> (bool \<times> bool) \<times> ptr"

datatype loop_call =
    Call_Register int bool bool ptr
  | Call_Modify int bool bool ptr
  | Call_Delete int

text \<open>
  One call and the result it returned: a result other than 0 says that nothing happened. On epoll the write
  direction replaces the read direction.
\<close>

definition directions :: "bool \<Rightarrow> bool \<Rightarrow> bool \<Rightarrow> bool \<times> bool" where
  "directions epoll r w = (r \<and> \<not> (epoll \<and> w), w)"

fun registry_call :: "bool \<Rightarrow> registry \<Rightarrow> loop_call \<times> int \<Rightarrow> registry" where
  "registry_call epoll R (Call_Register h r w p, e) = (if e = 0 then R(h \<mapsto> (directions epoll r w, p)) else R)"
| "registry_call epoll R (Call_Modify h r w p, e) = (if e = 0 then R(h \<mapsto> (directions epoll r w, p)) else R)"
| "registry_call epoll R (Call_Delete h, e) = (if e = 0 then R(h := None) else R)"

text \<open>
  The calls handlers make: registration of a descriptor that is not registered, modification of one that is; a
  deletion is always allowed.
\<close>

fun legal_call :: "registry \<Rightarrow> loop_call \<Rightarrow> bool" where
  "legal_call R (Call_Register h r w p) \<longleftrightarrow> h > 0 \<and> p \<noteq> NULL \<and> (r \<or> w) \<and> R h = None"
| "legal_call R (Call_Modify h r w p) \<longleftrightarrow> h > 0 \<and> p \<noteq> NULL \<and> (r \<or> w) \<and> R h \<noteq> None"
| "legal_call R (Call_Delete h) \<longleftrightarrow> h > 0"

section \<open>The loop as a registry\<close>

definition disp_wants :: "dispatcher \<Rightarrow> int \<Rightarrow> bool \<times> bool" where
  "disp_wants d h = (disp_reads d h, disp_writes d h)"

definition registry_of :: "(dispatcher, 'f, 'z) service_loop_scheme \<Rightarrow> registry" where
  "registry_of L h =
     (case (sl_dispatcher L, sl_handlers L h) of
        (Some d, Some p) \<Rightarrow> if p = NULL then None else Some (disp_wants d h, p)
      | _ \<Rightarrow> None)"

lemma registry_of_live:
  "sl_dispatcher L = Some d \<Longrightarrow>
   registry_of L h = (if h \<in> live_keys (sl_handlers L) then Some (disp_wants d h, the (sl_handlers L h)) else None)"
  by (simp add: registry_of_def live_keys_def split: option.splits)

fun run_loop_call ::
  "loop_call \<Rightarrow> (dispatcher, 'f, 'z) service_loop_scheme \<Rightarrow> (int \<times> (dispatcher, 'f, 'z) service_loop_scheme) exec" where
  "run_loop_call (Call_Register h r w p) L = register_event virt L h r w p"
| "run_loop_call (Call_Modify h r w p) L = modify_event virt L h r w p"
| "run_loop_call (Call_Delete h) L = delete_event virt L h"

fun run_loop_calls ::
  "loop_call list \<Rightarrow> (dispatcher, 'f, 'z) service_loop_scheme \<Rightarrow>
     (int list \<times> (dispatcher, 'f, 'z) service_loop_scheme) exec" where
  "run_loop_calls [] L = Inr ([], L)"
| "run_loop_calls (c # cs) L =
     bind_exec (run_loop_call c L) (\<lambda>(e, L1).
     bind_exec (run_loop_calls cs L1) (\<lambda>(es, L2). Inr (e # es, L2)))"

text \<open>Whether a call is legal depends on what the calls before it returned.\<close>

fun legal_calls :: "(dispatcher, 'f, 'z) service_loop_scheme \<Rightarrow> loop_call list \<Rightarrow> bool" where
  "legal_calls L [] \<longleftrightarrow> True"
| "legal_calls L (c # cs) \<longleftrightarrow> legal_call (registry_of L) c \<and>
     (case run_loop_call c L of Inl s \<Rightarrow> True | Inr (e, L1) \<Rightarrow> legal_calls L1 cs)"

fun loop_call_handle :: "loop_call \<Rightarrow> int" where
  "loop_call_handle (Call_Register h r w p) = h"
| "loop_call_handle (Call_Modify h r w p) = h"
| "loop_call_handle (Call_Delete h) = h"

text \<open>
  Where \<open>n\<close> more calls are free of undefined behaviour: below \<open>FD_SETSIZE\<close> for select, while the counter
  does not overflow for epoll.
\<close>

fun has_room :: "dispatcher \<Rightarrow> loop_call list \<Rightarrow> bool" where
  "has_room (D_Select d) cs \<longleftrightarrow> (\<forall>c\<in>set cs. fd_in_range (loop_call_handle c))"
| "has_room (D_Poll d) cs \<longleftrightarrow> True"
| "has_room (D_Epoll d) cs \<longleftrightarrow> ep_fd_count d + int (length cs) \<le> INT_MAX"

section \<open>One call of the dispatcher\<close>

text \<open>What a call leaves of the object: its kind, and room for one call less.\<close>

definition same_kind :: "dispatcher \<Rightarrow> dispatcher \<Rightarrow> bool" where
  "same_kind d d' \<longleftrightarrow> is_epoll d' = is_epoll d \<and> (\<forall>c cs. has_room d (c # cs) \<longrightarrow> has_room d' cs)"

lemma has_room_admits: "has_room d (c # cs) \<Longrightarrow> disp_admits d (loop_call_handle c)"
  by (cases d) (auto simp: epoll_admits_def)

lemma poll_add_fails_never: "poll_add_event d h r w = Inr (b, d') \<Longrightarrow> b"
  by (auto simp: poll_add_event_def)

lemma virt_add_wants:
  assumes "disp_invar d" "h \<notin> disp_watched d" "virt_add d h r w = Inr (b, d')"
  shows "disp_wants d' = (if b then (disp_wants d)(h := directions (is_epoll d) r w) else disp_wants d)" "same_kind d d'"
proof -
  show "disp_wants d' = (if b then (disp_wants d)(h := directions (is_epoll d) r w) else disp_wants d)"
  proof (cases d)
    case (D_Select e)
    with assms show ?thesis
      by (auto simp: fdset_op_defs select_invar_def exec_simps disp_wants_def directions_def fun_eq_iff split: if_splits)
  next
    case (D_Poll e)
    with assms obtain e' where e': "poll_add_event e h r w = Inr (b, e')" "d' = D_Poll e'" by auto
    then have "b" by (rule_tac poll_add_fails_never)
    with pol.add_wants [of e h r w e'] D_Poll e' assms show ?thesis by (simp add: disp_wants_def directions_def fun_eq_iff)
  next
    case (D_Epoll e)
    with assms show ?thesis
      by (auto simp: epoll_add_event_def epoll_count_inc_def epoll_events_cases Let_def epoll_flag_defs exec_simps
          disp_wants_def directions_def fun_eq_iff split: if_splits)
  qed
  show "same_kind d d'"
    using assms(3) by (cases d) (auto simp: same_kind_def epoll_add_event_def epoll_count_inc_def Let_def bind_exec_eq_Inr split: if_splits)
qed

lemma virt_mod_wants:
  assumes "disp_invar d" "h \<in> disp_watched d" "virt_mod d h r w = Inr (b, d')"
  shows "disp_wants d' = (if b then (disp_wants d)(h := directions (is_epoll d) r w) else disp_wants d)" "same_kind d d'"
proof -
  show "disp_wants d' = (if b then (disp_wants d)(h := directions (is_epoll d) r w) else disp_wants d)"
  proof (cases d)
    case (D_Select e)
    with assms show ?thesis
      by (auto simp: fdset_op_defs select_invar_def exec_simps disp_wants_def directions_def fun_eq_iff split: if_splits)
  next
    case (D_Poll e)
    with assms obtain e' where e': "poll_mod_event e h r w = Inr (b, e')" "d' = D_Poll e'" by auto
    show ?thesis
    proof (cases b)
      case True
      with pol.mod_wants [of e h r w e'] D_Poll e' assms show ?thesis by (simp add: disp_wants_def directions_def fun_eq_iff)
    next
      case False
      with e' D_Poll show ?thesis
        by (auto simp: poll_mod_event_def disp_wants_def poll_wants_def fun_eq_iff split: option.splits)
    qed
  next
    case (D_Epoll e)
    with assms show ?thesis
      by (auto simp: epoll_mod_event_def epoll_events_cases Let_def epoll_flag_defs exec_simps
          disp_wants_def directions_def fun_eq_iff split: if_splits)
  qed
  show "same_kind d d'"
    using assms(3) by (cases d) (auto simp: same_kind_def epoll_mod_event_def Let_def bind_exec_eq_Inr split: if_splits)
qed

lemma virt_del_wants:
  assumes "disp_invar d" "virt_del d h = Inr (b, d')"
  shows "k \<noteq> h \<or> \<not> b \<Longrightarrow> disp_wants d' k = disp_wants d k" "same_kind d d'"
proof -
  show "disp_wants d' k = disp_wants d k" if "k \<noteq> h \<or> \<not> b"
  proof (cases d)
    case (D_Select e)
    with assms that show ?thesis
      by (auto simp: fdset_op_defs exec_simps disp_wants_def split: if_splits)
  next
    case (D_Poll e)
    with assms obtain e' where e': "poll_del_event e h = Inr (b, e')" "d' = D_Poll e'" by auto
    then have "b" by (auto simp: poll_del_event_def)
    with pol.del_wants [of e h e' k] D_Poll e' assms that show ?thesis by (simp add: disp_wants_def)
  next
    case (D_Epoll e)
    with assms that show ?thesis
      by (auto simp: epoll_del_event_def epoll_count_inc_def Let_def bind_exec_eq_Inr disp_wants_def split: if_splits)
  qed
  show "same_kind d d'"
    using assms(2) by (cases d) (auto simp: same_kind_def epoll_del_event_def epoll_count_inc_def Let_def bind_exec_eq_Inr split: if_splits)
qed

section \<open>One call of the loop\<close>

lemma registry_of_None: "sl_dispatcher L = Some d \<Longrightarrow> registry_of L h = None \<longleftrightarrow> h \<notin> live_keys (sl_handlers L)"
  by (simp add: registry_of_live)

text \<open>The outcome of a call on a loop in step with its dispatcher.\<close>

definition implements_call :: "(dispatcher, 'f, 'z) service_loop_scheme \<Rightarrow> loop_call \<Rightarrow> int \<Rightarrow> (dispatcher, 'f, 'z) service_loop_scheme \<Rightarrow> bool" where
  "implements_call L c e L' \<longleftrightarrow> in_sync L' \<and> (\<exists>d d'. sl_dispatcher L = Some d \<and> sl_dispatcher L' = Some d' \<and> same_kind d d' \<and>
     registry_of L' = registry_call (is_epoll d) (registry_of L) (c, e))"

text \<open>A call that may change one entry: the map it leaves, from the handlers and the directions it leaves.\<close>

lemma registry_of_step:
  assumes "sl_dispatcher L = Some d" "sl_dispatcher L' = Some d'"
    and "\<And>k. k \<noteq> h \<Longrightarrow> sl_handlers L' k = sl_handlers L k" "\<And>k. k \<noteq> h \<Longrightarrow> disp_wants d' k = disp_wants d k"
  shows "registry_of L' = (registry_of L)(h := registry_of L' h)"
proof
  fix k
  have "k \<in> live_keys (sl_handlers L') \<longleftrightarrow> k \<in> live_keys (sl_handlers L)" if "k \<noteq> h"
    using assms(3) [OF that] by (simp add: live_keys_def)
  then show "registry_of L' k = ((registry_of L)(h := registry_of L' h)) k"
    using assms by (simp add: registry_of_live)
qed

lemma register_implements:
  assumes "in_sync L" "registry_of L h = None" "register_event virt L h r w p = Inr (e, L')"
  shows "implements_call L (Call_Register h r w p) e L'"
proof -
  from register_event_handlers [OF assms(3)] obtain d d' ok where
    o: "sl_dispatcher L = Some d" "p \<noteq> NULL" "virt_add d h r w = Inr (ok, d')"
      "L' = L\<lparr>sl_dispatcher := Some d', sl_handlers := (if ok then (sl_handlers L)(h \<mapsto> p) else sl_handlers L)\<rparr>"
      "e = (if ok then 0 else virt_errno d')" by auto
  with assms(1,2) have d: "disp_invar d" "h \<notin> disp_watched d" "h \<notin> live_keys (sl_handlers L)"
    by (auto simp: loop_sync_def registry_of_None)
  note a = virt_add_wants [OF d(1,2) o(3)]
  from any.register_event_sync [OF assms(1) d(3) assms(3)] have sync: "in_sync L'" by blast
  have e: "e = 0 \<longleftrightarrow> ok" using any.add_law [of d h r w ok d'] d o(3,5) by auto
  have "registry_of L' = (registry_of L)(h := registry_of L' h)"
    by (rule registry_of_step [OF o(1), of L' d']) (simp_all add: o(4) a(1))
  moreover have "registry_of L' h = (if ok then Some (directions (is_epoll d) r w, p) else None)"
    using o(2) d(3) by (simp add: o(4) a(1) registry_of_live)
  ultimately show ?thesis
    using sync o(1,4) a(2) e assms(2) by (auto simp: implements_call_def fun_upd_idem)
qed

lemma modify_implements:
  assumes "in_sync L" "registry_of L h \<noteq> None" "modify_event virt L h r w p = Inr (e, L')"
  shows "implements_call L (Call_Modify h r w p) e L'"
proof -
  from modify_event_handlers [OF assms(3)] obtain d d' ok where
    o: "sl_dispatcher L = Some d" "p \<noteq> NULL" "virt_mod d h r w = Inr (ok, d')"
      "L' = L\<lparr>sl_dispatcher := Some d', sl_handlers := (if ok then (sl_handlers L)(h \<mapsto> p) else sl_handlers L)\<rparr>"
      "e = (if ok then 0 else virt_errno d')" by auto
  with assms(1,2) have d: "disp_invar d" "h \<in> disp_watched d" "h \<in> live_keys (sl_handlers L)"
    by (auto simp: loop_sync_def registry_of_None)
  note a = virt_mod_wants [OF d(1,2) o(3)]
  from any.modify_event_sync [OF assms(1) d(3) assms(3)] have sync: "in_sync L'" by blast
  have e: "e = 0 \<longleftrightarrow> ok" using any.mod_law [of d h r w ok d'] d o(3,5) by auto
  have "registry_of L' = (registry_of L)(h := registry_of L' h)"
    by (rule registry_of_step [OF o(1), of L' d']) (simp_all add: o(4) a(1))
  moreover have "registry_of L' h = (if ok then Some (directions (is_epoll d) r w, p) else registry_of L h)"
    using o(1,2) d(3) by (simp add: o(4) a(1) registry_of_live)
  ultimately show ?thesis
    using sync o(1,4) a(2) e by (auto simp: implements_call_def)
qed

lemma same_kind_self: "has_room d (c # cs) \<Longrightarrow> has_room d cs"
  by (cases d) auto

lemma delete_implements:
  assumes "in_sync L" "delete_event virt L h = Inr (e, L')"
  shows "implements_call L (Call_Delete h) e L'"
proof -
  from any.delete_event_sync [OF assms] have sync: "in_sync L'"
    and h: "sl_handlers L' = (if e = 0 then (sl_handlers L)(h := None) else sl_handlers L)" by blast+
  from assms(1) obtain d where d: "sl_dispatcher L = Some d" "disp_invar d" by (rule loop_syncE)
  have "\<exists>d'. sl_dispatcher L' = Some d' \<and> same_kind d d' \<and> (\<forall>k. k \<noteq> h \<or> e \<noteq> 0 \<longrightarrow> disp_wants d' k = disp_wants d k)"
  proof (cases "sl_handlers L h")
    case None
    with delete_event_handlers [OF assms(2)] have "L' = L" by auto
    with d(1) show ?thesis by (auto simp: same_kind_def intro: same_kind_self)
  next
    case (Some q)
    with delete_event_handlers [OF assms(2)] d(1) obtain d' ok where
      o: "virt_del d h = Inr (ok, d')" "sl_dispatcher L' = Some d'" "e = (if ok then 0 else virt_errno d')" by auto
    with virt_del_wants [OF d(2) o(1)] show ?thesis by auto
  qed
  then obtain d' where d': "sl_dispatcher L' = Some d'" "same_kind d d'"
    "\<And>k. k \<noteq> h \<or> e \<noteq> 0 \<Longrightarrow> disp_wants d' k = disp_wants d k" by blast
  have "registry_of L' = (registry_of L)(h := registry_of L' h)"
    by (rule registry_of_step [OF d(1) d'(1)]) (use h d'(3) in auto)
  moreover have "registry_of L' h = (if e = 0 then None else registry_of L h)"
    using d(1) d'(1,3) h by (simp add: registry_of_live)
  ultimately show ?thesis using sync d(1) d'(1,2) by (auto simp: implements_call_def)
qed

lemma loop_call_implements:
  assumes "in_sync L" "sl_dispatcher L = Some d" "has_room d (c # cs)" "legal_call (registry_of L) c"
  obtains e L' where "run_loop_call c L = Inr (e, L')" "implements_call L c e L'"
proof -
  have adm: "\<And>d'. sl_dispatcher L = Some d' \<Longrightarrow> disp_admits d' (loop_call_handle c)"
    using has_room_admits [OF assms(3)] assms(2) by simp
  show thesis
  proof (cases c)
    case (Call_Register h r w p)
    with assms(4) adm any.register_event_returns [OF assms(1), of h p r w] obtain e L' where
      "register_event virt L h r w p = Inr (e, L')" by auto
    with register_implements [OF assms(1) _ this] assms(4) Call_Register that show ?thesis by simp
  next
    case (Call_Modify h r w p)
    with assms(4) adm any.modify_event_returns [OF assms(1), of h p r w] assms(2) obtain e L' where
      "modify_event virt L h r w p = Inr (e, L')" by (auto simp: registry_of_None)
    with modify_implements [OF assms(1) _ this] assms(4) Call_Modify that show ?thesis by simp
  next
    case (Call_Delete h)
    with assms(4) adm any.delete_event_returns [OF assms(1), of h] obtain e L' where
      "delete_event virt L h = Inr (e, L')" by auto
    with delete_implements [OF assms(1) this] Call_Delete that show ?thesis by simp
  qed
qed

lemma loop_calls_implement:
  "in_sync L \<Longrightarrow> sl_dispatcher L = Some d \<Longrightarrow> has_room d cs \<Longrightarrow> legal_calls L cs \<Longrightarrow>
   \<exists>es L'. run_loop_calls cs L = Inr (es, L') \<and> length es = length cs \<and> in_sync L' \<and>
     registry_of L' = foldl (registry_call (is_epoll d)) (registry_of L) (zip cs es)"
proof (induction cs arbitrary: L d)
  case (Cons c cs)
  from Cons.prems(4) have "legal_call (registry_of L) c" by simp
  from loop_call_implements [OF Cons.prems(1-3) this] obtain e L1 where
    c: "run_loop_call c L = Inr (e, L1)" "implements_call L c e L1" .
  from c(2) Cons.prems(2) obtain d1 where d1: "in_sync L1" "sl_dispatcher L1 = Some d1" "same_kind d d1"
    "registry_of L1 = registry_call (is_epoll d) (registry_of L) (c, e)" by (auto simp: implements_call_def)
  from d1(3) Cons.prems(3) have "has_room d1 cs" "is_epoll d1 = is_epoll d" by (auto simp: same_kind_def simp del: has_room.simps)
  moreover from Cons.prems(4) c(1) have "legal_calls L1 cs" by simp
  ultimately show ?case using Cons.IH [OF d1(1,2)] c(1) d1(4) by auto
qed simp

lemma dispatch_event_registry:
  assumes "registry_of L fd = Some (x, p)" "ev \<in> {EVENT_READ, EVENT_WRITE, EVENT_ERROR}"
  shows "dispatch_event invoke fd ev L = invoke p ev L"
proof -
  from assms(1) have "sl_handlers L fd = Some p" "p \<noteq> NULL"
    by (auto simp: registry_of_def split: option.splits if_splits)
  with assms(2) show ?thesis by (auto simp: dispatch_event_def map_index_def event_defs)
qed

section \<open>Properties\<close>

text \<open>
  Claim C5. The loop refines its registry, on each of the three dispatchers and whatever \<^verbatim>\<open>epoll_ctl\<close> answers: any
  sequence of legal calls returns, and the loop it leaves holds exactly the map that the calls answered with 0 build, each
  later one overwriting the directions and the handler of an earlier one, while a call answered with an
  errno leaves every entry as it was; an event of a registered descriptor becomes one call on the
  handler the map holds for it.
\<close>

theorem loop_refines_registry:
  assumes "in_sync L" "sl_dispatcher L = Some d" "has_room d cs" "legal_calls L cs"
  shows "\<exists>es L'. run_loop_calls cs L = Inr (es, L') \<and> length es = length cs \<and> in_sync L' \<and>
    registry_of L' = foldl (registry_call (is_epoll d)) (registry_of L) (zip cs es) \<and>
    (\<forall>invoke fd x p ev. registry_of L' fd = Some (x, p) \<and> ev \<in> {EVENT_READ, EVENT_WRITE, EVENT_ERROR} \<longrightarrow>
       dispatch_event invoke fd ev L' = invoke p ev L')"
  using loop_calls_implement [OF assms] dispatch_event_registry by blast

text \<open>
  A handler is registered, waits for both directions through another handler (on epoll: for writing only), an attempt
  to delete an unknown descriptor changes nothing, and the wakeup handler's entry stays.
\<close>

definition registry_sample :: "loop_call list" where
  "registry_sample = [Call_Register 7 True False 200, Call_Modify 7 True True 201, Call_Delete 9]"

theorem loop_refines_registry_witness:
  "\<exists>L'. run_loop_calls registry_sample sample_loop = Inr ([0, 0, 0], L') \<and>
     registry_of L' = (registry_of sample_loop)(7 \<mapsto> ((False, True), 201), 9 := None) \<and>
     (\<forall>L''. dispatch_event (\<lambda>p ev L. if p = 201 then Inr L'' else Inl Null_Deref) 7 EVENT_WRITE L' = Inr L'')"
proof -
  have d: "sl_dispatcher sample_loop = Some (D_Epoll (sample_epoll\<lparr>ep_fd := 3\<rparr>))" by (simp add: sample_loop_def)
  have ok: "legal_calls sample_loop registry_sample" by code_simp
  have room: "has_room (D_Epoll (sample_epoll\<lparr>ep_fd := 3\<rparr>)) registry_sample" by (simp add: registry_sample_def INT_MAX_def)
  have es: "case run_loop_calls registry_sample sample_loop of Inl s \<Rightarrow> False | Inr (es, L') \<Rightarrow> es = [0, 0, 0]" by code_simp
  from loop_refines_registry [OF sample_loop_sync d room ok] es obtain L' where
    r: "run_loop_calls registry_sample sample_loop = Inr ([0, 0, 0], L')"
      "registry_of L' = foldl (registry_call True) (registry_of sample_loop) (zip registry_sample [0, 0, 0])"
      "\<And>invoke fd x p ev. registry_of L' fd = Some (x, p) \<Longrightarrow> ev \<in> {EVENT_READ, EVENT_WRITE, EVENT_ERROR} \<Longrightarrow>
        dispatch_event invoke fd ev L' = invoke p ev L'" by (auto split: sum.splits)
  from r(2) have m: "registry_of L' = (registry_of sample_loop)(7 \<mapsto> ((False, True), 201), 9 := None)"
    by (simp add: registry_sample_def directions_def fun_eq_iff)
  show ?thesis
  proof (intro exI conjI allI)
    fix L''
    from m have "registry_of L' 7 = Some ((False, True), 201)" by simp
    from r(3) [OF this, of EVENT_WRITE] show "dispatch_event (\<lambda>p ev L. if p = 201 then Inr L'' else Inl Null_Deref) 7 EVENT_WRITE L' = Inr L''"
      by simp
  qed (fact r(1) m)+
qed

end
