(* ===== verification/Functor.thy ===== *)
theory Functor
  imports Net_Prelude
begin

text \<open>
  \<^verbatim>\<open>src/base/functor.h\<close>: \<^verbatim>\<open>owner::function\<close> owns a heap-allocated \<^verbatim>\<open>function_base\<close>. The store
  is explicit, because copying allocates and assignment forgets to free: \<open>fh_objs\<close> maps the
  live addresses to objects, \<open>fh_next\<close> is the next fresh address (never \<open>NULL\<close>). A
  \<^verbatim>\<open>function\<close> variable is the address in its member \<^verbatim>\<open>fun_\<close>.
\<close>

text \<open>
  The two implementations of \<^verbatim>\<open>function_base\<close>: a free procedure (\<open>None\<close> is the null function
  pointer) or a member procedure of an object, each with its stored argument.
\<close>

datatype ('p, 'o, 'a) function_base =
    Impl_Normal "'p option" 'a
  | Impl_Class 'o 'p 'a

record ('p, 'o, 'a) fheap =
  fh_objs :: "nat \<rightharpoonup> ('p, 'o, 'a) function_base"
  fh_next :: nat

definition fh_alloc ::
  "('p, 'o, 'a) fheap \<Rightarrow> ('p, 'o, 'a) function_base \<Rightarrow> ptr \<times> ('p, 'o, 'a) fheap" where
  "fh_alloc H b = (fh_next H, H\<lparr>fh_objs := (fh_objs H)(fh_next H \<mapsto> b), fh_next := Suc (fh_next H)\<rparr>)"

text \<open>\<^verbatim>\<open>delete p\<close>: nothing for the null pointer, undefined for an address that is not live.\<close>

definition fh_delete :: "('p, 'o, 'a) fheap \<Rightarrow> ptr \<Rightarrow> ('p, 'o, 'a) fheap exec" where
  "fh_delete H p =
     (if p = NULL then Inr H
      else if fh_objs H p = None then Inl Use_After_Free
      else Inr (H\<lparr>fh_objs := (fh_objs H)(p := None)\<rparr>))"

definition fh_deref :: "('p, 'o, 'a) fheap \<Rightarrow> ptr \<Rightarrow> ('p, 'o, 'a) function_base exec" where
  "fh_deref H p =
     (if p = NULL then Inl Null_Deref
      else case fh_objs H p of None \<Rightarrow> Inl Use_After_Free | Some b \<Rightarrow> Inr b)"

section \<open>The calls of a \<open>function_base\<close>\<close>

text \<open>
  What the procedures do is a parameter: \<open>norm p a\<close> runs the free procedure \<open>p\<close> on \<open>a\<close>,
  \<open>memb o p a\<close> the member procedure \<open>p\<close> of \<open>o\<close>. \<open>base_call\<close> is \<^verbatim>\<open>operator()()\<close>, on the stored
  argument, \<open>base_call_with\<close> is \<^verbatim>\<open>operator()(arg)\<close>.
\<close>

fun base_call_with ::
  "('p \<Rightarrow> 'a \<Rightarrow> 'r exec) \<Rightarrow> ('o \<Rightarrow> 'p \<Rightarrow> 'a \<Rightarrow> 'r exec) \<Rightarrow> ('p, 'o, 'a) function_base \<Rightarrow> 'a \<Rightarrow> 'r exec" where
  "base_call_with norm memb (Impl_Normal None stored) a = Inl Null_Deref"
| "base_call_with norm memb (Impl_Normal (Some p) stored) a = norm p a"
| "base_call_with norm memb (Impl_Class obj p stored) a = memb obj p a"

fun base_call ::
  "('p \<Rightarrow> 'a \<Rightarrow> 'r exec) \<Rightarrow> ('o \<Rightarrow> 'p \<Rightarrow> 'a \<Rightarrow> 'r exec) \<Rightarrow> ('p, 'o, 'a) function_base \<Rightarrow> 'r exec" where
  "base_call norm memb (Impl_Normal None stored) = Inl Null_Deref"
| "base_call norm memb (Impl_Normal (Some p) stored) = norm p stored"
| "base_call norm memb (Impl_Class obj p stored) = memb obj p stored"

text \<open>\<^verbatim>\<open>clone()\<close> builds a new object from the same members.\<close>

fun base_clone :: "('p, 'o, 'a) function_base \<Rightarrow> ('p, 'o, 'a) function_base" where
  "base_clone (Impl_Normal p a) = Impl_Normal p a"
| "base_clone (Impl_Class obj p a) = Impl_Class obj p a"

section \<open>class function\<close>

definition function_of_base :: "ptr \<Rightarrow> ptr" where
  "function_of_base b = b"

text \<open>
  \<^verbatim>\<open>function(proc, arg)\<close> with \<open>arg_default\<close> the value of \<^verbatim>\<open>arg_type()\<close>: the initialiser passes
  \<^verbatim>\<open>proc\<close> only, so the implementation object stores the default, not \<open>arg\<close>.
\<close>

definition function_of_proc ::
  "('p, 'o, 'a) fheap \<Rightarrow> 'a \<Rightarrow> 'p option \<Rightarrow> 'a \<Rightarrow> ptr \<times> ('p, 'o, 'a) fheap" where
  "function_of_proc H arg_default p arg = fh_alloc H (Impl_Normal p arg_default)"

definition function_copy :: "('p, 'o, 'a) fheap \<Rightarrow> ptr \<Rightarrow> (ptr \<times> ('p, 'o, 'a) fheap) exec" where
  "function_copy H f = bind_exec (fh_deref H f) (\<lambda>b. Inr (fh_alloc H (base_clone b)))"

definition function_destroy :: "('p, 'o, 'a) fheap \<Rightarrow> ptr \<Rightarrow> ('p, 'o, 'a) fheap exec" where
  "function_destroy H f = fh_delete H f"

text \<open>
  \<^verbatim>\<open>operator=\<close>: \<open>same\<close> says that both sides are the same variable. The previous \<^verbatim>\<open>fun_\<close> is
  overwritten without \<^verbatim>\<open>delete\<close>.
\<close>

definition function_assign ::
  "('p, 'o, 'a) fheap \<Rightarrow> bool \<Rightarrow> ptr \<Rightarrow> ptr \<Rightarrow> (ptr \<times> ('p, 'o, 'a) fheap) exec" where
  "function_assign H same f g = (if same then Inr (f, H) else function_copy H g)"

definition function_call ::
  "('p \<Rightarrow> 'a \<Rightarrow> 'r exec) \<Rightarrow> ('o \<Rightarrow> 'p \<Rightarrow> 'a \<Rightarrow> 'r exec) \<Rightarrow> ('p, 'o, 'a) fheap \<Rightarrow> ptr \<Rightarrow> 'r exec" where
  "function_call norm memb H f = bind_exec (fh_deref H f) (base_call norm memb)"

definition function_call_with ::
  "('p \<Rightarrow> 'a \<Rightarrow> 'r exec) \<Rightarrow> ('o \<Rightarrow> 'p \<Rightarrow> 'a \<Rightarrow> 'r exec) \<Rightarrow> ('p, 'o, 'a) fheap \<Rightarrow> ptr \<Rightarrow> 'a \<Rightarrow> 'r exec" where
  "function_call_with norm memb H f a = bind_exec (fh_deref H f) (\<lambda>b. base_call_with norm memb b a)"

section \<open>bind\<close>

definition bind_normal :: "('p, 'o, 'a) fheap \<Rightarrow> 'p option \<Rightarrow> 'a \<Rightarrow> ptr \<times> ('p, 'o, 'a) fheap" where
  "bind_normal H p arg = (case fh_alloc H (Impl_Normal p arg) of (pf, H') \<Rightarrow> (function_of_base pf, H'))"

definition bind_class_default :: "('p, 'o, 'a) fheap \<Rightarrow> 'a \<Rightarrow> 'p \<Rightarrow> 'o \<Rightarrow> ptr \<times> ('p, 'o, 'a) fheap" where
  "bind_class_default H arg_default p pc =
     (case fh_alloc H (Impl_Class pc p arg_default) of (pf, H') \<Rightarrow> (function_of_base pf, H'))"

definition bind_class :: "('p, 'o, 'a) fheap \<Rightarrow> 'p \<Rightarrow> 'o \<Rightarrow> 'a \<Rightarrow> ptr \<times> ('p, 'o, 'a) fheap" where
  "bind_class H p pc arg =
     (case fh_alloc H (Impl_Class pc p arg) of (pf, H') \<Rightarrow> (function_of_base pf, H'))"

section \<open>The functor queue of a service loop, on the store\<close>

text \<open>
  \<^verbatim>\<open>ThreadQueue<RunableFunctor>\<close>: \<^verbatim>\<open>push\<close> copies its argument into the deque; \<^verbatim>\<open>pop(t)\<close> assigns the
  front to \<open>t\<close> and destroys the front.
\<close>

definition fq_push ::
  "('p, 'o, 'a) fheap \<Rightarrow> ptr list \<Rightarrow> ptr \<Rightarrow> (ptr list \<times> ('p, 'o, 'a) fheap) exec" where
  "fq_push H q f = bind_exec (function_copy H f) (\<lambda>(c, H'). Inr (q @ [c], H'))"

fun fq_pop ::
  "('p, 'o, 'a) fheap \<Rightarrow> ptr list \<Rightarrow> ptr \<Rightarrow> (bool \<times> ptr \<times> ptr list \<times> ('p, 'o, 'a) fheap) exec" where
  "fq_pop H [] t = Inr (False, t, [], H)"
| "fq_pop H (f # q) t =
     bind_exec (function_assign H False t f) (\<lambda>(t', H').
     bind_exec (function_destroy H' f) (\<lambda>H''. Inr (True, t', q, H'')))"

text \<open>\<^verbatim>\<open>RunableFunctor fun; while (functors_.pop(fun)) fun();\<close> and the destructor of \<^verbatim>\<open>fun\<close>.\<close>

fun fq_drain_loop ::
  "('p \<Rightarrow> 'a \<Rightarrow> 'r exec) \<Rightarrow> ('o \<Rightarrow> 'p \<Rightarrow> 'a \<Rightarrow> 'r exec) \<Rightarrow> ('p, 'o, 'a) fheap \<Rightarrow> ptr list \<Rightarrow> ptr \<Rightarrow>
     ('r list \<times> ptr \<times> ('p, 'o, 'a) fheap) exec" where
  "fq_drain_loop norm memb H [] t = Inr ([], t, H)"
| "fq_drain_loop norm memb H (f # q) t =
     bind_exec (fq_pop H (f # q) t) (\<lambda>(_, t', _, H').
     bind_exec (function_call norm memb H' t') (\<lambda>r.
     bind_exec (fq_drain_loop norm memb H' q t') (\<lambda>(rs, t'', H''). Inr (r # rs, t'', H''))))"

definition fq_drain ::
  "('p \<Rightarrow> 'a \<Rightarrow> 'r exec) \<Rightarrow> ('o \<Rightarrow> 'p \<Rightarrow> 'a \<Rightarrow> 'r exec) \<Rightarrow> ('p, 'o, 'a) fheap \<Rightarrow> 'a \<Rightarrow> ptr list \<Rightarrow>
     ('r list \<times> ('p, 'o, 'a) fheap) exec" where
  "fq_drain norm memb H arg_default q =
     (case function_of_proc H arg_default None arg_default of (t, H1) \<Rightarrow>
        bind_exec (fq_drain_loop norm memb H1 q t) (\<lambda>(rs, t', H2).
        bind_exec (function_destroy H2 t') (\<lambda>H3. Inr (rs, H3))))"

lemmas functor_defs = function_of_base_def function_of_proc_def function_copy_def function_destroy_def
  function_assign_def function_call_def function_call_with_def bind_normal_def bind_class_default_def
  bind_class_def

section \<open>The store invariant\<close>

definition fh_ok :: "('p, 'o, 'a) fheap \<Rightarrow> bool" where
  "fh_ok H \<longleftrightarrow> 0 < fh_next H \<and> (\<forall>p b. fh_objs H p = Some b \<longrightarrow> 0 < p \<and> p < fh_next H)"

definition fh_live :: "('p, 'o, 'a) fheap \<Rightarrow> nat" where
  "fh_live H = card (dom (fh_objs H))"

definition fh_empty :: "('p, 'o, 'a) fheap" where
  "fh_empty = \<lparr>fh_objs = Map.empty, fh_next = 1\<rparr>"

lemma fh_ok_empty [simp]: "fh_ok fh_empty"
  by (simp add: fh_ok_def fh_empty_def)

lemma fh_ok_finite: "fh_ok H \<Longrightarrow> finite (dom (fh_objs H))"
  by (rule finite_subset [of _ "{..<fh_next H}"]) (auto simp: fh_ok_def)

lemma base_clone_id [simp]: "base_clone b = b"
  by (cases b) simp_all

lemma fh_alloc_facts:
  assumes "fh_ok H" and "fh_alloc H b = (p, H')"
  shows "fh_ok H'" "p \<noteq> NULL" "fh_objs H p = None" "fh_objs H' = (fh_objs H)(p \<mapsto> b)"
    "fh_live H' = Suc (fh_live H)" "p = fh_next H" "fh_next H' = Suc (fh_next H)"
proof -
  show "p = fh_next H" "fh_next H' = Suc (fh_next H)" using assms by (auto simp: fh_alloc_def)
  show *: "fh_objs H p = None" using assms by (force simp: fh_alloc_def fh_ok_def)
  show "fh_ok H'" "p \<noteq> NULL"
    using assms by (auto simp: fh_alloc_def fh_ok_def less_Suc_eq split: if_splits)
  show **: "fh_objs H' = (fh_objs H)(p \<mapsto> b)" using assms by (auto simp: fh_alloc_def)
  show "fh_live H' = Suc (fh_live H)"
    using fh_ok_finite [OF assms(1)] * ** by (simp add: fh_live_def card_insert_if domIff)
qed

lemma fh_delete_facts:
  assumes "fh_ok H" and "fh_objs H p = Some b"
  shows "fh_delete H p = Inr (H\<lparr>fh_objs := (fh_objs H)(p := None)\<rparr>)"
    "fh_ok (H\<lparr>fh_objs := (fh_objs H)(p := None)\<rparr>)"
    "Suc (fh_live (H\<lparr>fh_objs := (fh_objs H)(p := None)\<rparr>)) = fh_live H"
proof -
  have "p \<noteq> NULL" using assms by (force simp: fh_ok_def)
  with assms show "fh_delete H p = Inr (H\<lparr>fh_objs := (fh_objs H)(p := None)\<rparr>)" by (simp add: fh_delete_def)
  show "fh_ok (H\<lparr>fh_objs := (fh_objs H)(p := None)\<rparr>)" using assms by (simp add: fh_ok_def)
  have "Suc (card (dom (fh_objs H) - {p})) = card (dom (fh_objs H))"
    using fh_ok_finite [OF assms(1)] assms(2) by (intro card_Suc_Diff1) auto
  then show "Suc (fh_live (H\<lparr>fh_objs := (fh_objs H)(p := None)\<rparr>)) = fh_live H"
    by (simp add: fh_live_def)
qed

lemma fh_deref_Some: "fh_ok H \<Longrightarrow> fh_objs H p = Some b \<Longrightarrow> fh_deref H p = Inr b"
  by (force simp: fh_deref_def fh_ok_def)

lemma function_copy_facts:
  assumes "fh_ok H" and "fh_objs H f = Some b"
  shows "\<exists>c H'. function_copy H f = Inr (c, H') \<and> fh_ok H' \<and> c = fh_next H \<and> fh_next H' = Suc (fh_next H) \<and>
    fh_objs H c = None \<and> fh_objs H' = (fh_objs H)(c \<mapsto> b) \<and> fh_live H' = Suc (fh_live H)"
proof -
  obtain c H' where a: "fh_alloc H b = (c, H')" by fastforce
  with fh_alloc_facts [OF assms(1) a] fh_deref_Some [OF assms] show ?thesis
    by (simp add: function_copy_def)
qed

text \<open>
  One round of the loop: the popped functor is a live copy of the front, and the number of live
  cells is what it was (one allocated by the assignment, the front freed, the old value of the
  variable kept).
\<close>

lemma fq_pop_facts:
  assumes "fh_ok H" and "fh_objs H f = Some b"
  shows "\<exists>t' H'. fq_pop H (f # q) t = Inr (True, t', q, H') \<and> fh_ok H' \<and> fh_objs H t' = None \<and>
    t' = fh_next H \<and> fh_next H' = Suc (fh_next H) \<and>
    fh_objs H' = (fh_objs H)(t' \<mapsto> b, f := None) \<and> fh_live H' = fh_live H"
proof -
  from function_copy_facts [OF assms] obtain c H1 where
    c: "function_copy H f = Inr (c, H1)" "fh_ok H1" "fh_objs H c = None" "c = fh_next H"
      "fh_next H1 = Suc (fh_next H)" "fh_objs H1 = (fh_objs H)(c \<mapsto> b)" "fh_live H1 = Suc (fh_live H)" by blast
  have "c \<noteq> f" using c(3) assms(2) by auto
  then have f: "fh_objs H1 f = Some b" using c(6) assms(2) by simp
  from fh_delete_facts [OF c(2) f] c show ?thesis
    by (simp add: function_assign_def function_destroy_def)
qed

text \<open>
  The loop over a queue of distinct live functors whose calls succeed: results in queue order,
  every queue cell freed, the count of live cells unchanged, freed addresses not reused.
\<close>

definition fq_ready ::
  "('p \<Rightarrow> 'a \<Rightarrow> 'r exec) \<Rightarrow> ('o \<Rightarrow> 'p \<Rightarrow> 'a \<Rightarrow> 'r exec) \<Rightarrow> ('p, 'o, 'a) fheap \<Rightarrow> ptr list \<Rightarrow> 'r list \<Rightarrow> bool" where
  "fq_ready norm memb H q rs \<longleftrightarrow>
     list_all2 (\<lambda>f r. \<exists>b. fh_objs H f = Some b \<and> base_call norm memb b = Inr r) q rs"

lemma fq_ready_live: "fq_ready norm memb H q rs \<Longrightarrow> f \<in> set q \<Longrightarrow> fh_objs H f \<noteq> None"
  by (auto simp: fq_ready_def list_all2_conv_all_nth in_set_conv_nth)

lemma fq_ready_cong:
  "fq_ready norm memb H q rs \<Longrightarrow> (\<And>f. f \<in> set q \<Longrightarrow> fh_objs H' f = fh_objs H f) \<Longrightarrow> fq_ready norm memb H' q rs"
  unfolding fq_ready_def by (erule list.rel_mono_strong) simp

lemma fq_drain_loop_facts:
  assumes "fh_ok H" "distinct q" "fh_objs H t \<noteq> None" "fq_ready norm memb H q rs"
  shows "\<exists>t' H'. fq_drain_loop norm memb H q t = Inr (rs, t', H') \<and> fh_ok H' \<and> fh_live H' = fh_live H \<and>
    fh_objs H' t' \<noteq> None \<and> (\<forall>f\<in>set q. fh_objs H' f = None) \<and>
    (\<forall>p<fh_next H. fh_objs H p = None \<longrightarrow> fh_objs H' p = None)"
  using assms
proof (induction q arbitrary: H t rs)
  case Nil
  then show ?case by (simp add: fq_ready_def)
next
  case (Cons f q)
  from Cons.prems(4) obtain b r rs' where f: "fh_objs H f = Some b" "base_call norm memb b = Inr r"
    and rs: "rs = r # rs'" and q: "fq_ready norm memb H q rs'"
    by (auto simp: fq_ready_def list_all2_Cons1)
  from fq_pop_facts [OF Cons.prems(1) f(1), of q t] obtain t1 H1 where
    pop: "fq_pop H (f # q) t = Inr (True, t1, q, H1)" and H1: "fh_ok H1" "fh_objs H t1 = None"
      "t1 = fh_next H" "fh_next H1 = Suc (fh_next H)"
      "fh_objs H1 = (fh_objs H)(t1 \<mapsto> b, f := None)" "fh_live H1 = fh_live H" by blast
  have "t1 \<noteq> f" using H1(2) f(1) by auto
  then have t1: "fh_objs H1 t1 = Some b" using H1(5) by simp
  have "t1 \<notin> set q" using fq_ready_live [OF q] H1(2) by blast
  then have "fq_ready norm memb H1 q rs'"
    using q Cons.prems(2) H1(5) by (intro fq_ready_cong [of norm memb H q rs' H1]) auto
  with Cons.IH [of H1 t1 rs'] H1(1) t1 Cons.prems(2) obtain t' H' where
    IH: "fq_drain_loop norm memb H1 q t1 = Inr (rs', t', H')" "fh_ok H'" "fh_live H' = fh_live H1"
      "fh_objs H' t' \<noteq> None" "\<forall>f\<in>set q. fh_objs H' f = None"
      "\<forall>p<fh_next H1. fh_objs H1 p = None \<longrightarrow> fh_objs H' p = None" by auto
  have "function_call norm memb H1 t1 = Inr r"
    using fh_deref_Some [OF H1(1) t1] f(2) by (simp add: function_call_def)
  moreover have "fh_objs H' f = None"
    using IH(6) f(1) Cons.prems(1) H1(4,5) by (force simp: fh_ok_def)
  moreover have "\<forall>p<fh_next H. fh_objs H p = None \<longrightarrow> fh_objs H' p = None"
    using IH(6) H1(3-5) by auto
  ultimately show ?case
    using IH pop rs H1(6) by (auto simp del: fq_pop.simps)
qed

text \<open>A store with two queued tasks, for the witness below.\<close>

definition two_task_heap :: "(nat, unit, nat) fheap" where
  "two_task_heap = \<lparr>fh_objs = [1 \<mapsto> Impl_Normal (Some 10) 1, 2 \<mapsto> Impl_Normal (Some 20) 2], fh_next = 3\<rparr>"

section \<open>Properties\<close>

text \<open>
  \<^verbatim>\<open>bind(&CS::proc, pc, arg)\<close> yields a functor that, when called (directly, or through
  any copy made of it), runs \<^verbatim>\<open>proc\<close> on \<^verbatim>\<open>pc\<close> with the bound argument; called with an explicit
  argument it ignores the bound one.
\<close>

theorem bind_class_call:
  assumes "fh_ok H" and "bind_class H p pc arg = (f, H')"
  shows "function_call norm memb H' f = memb pc p arg \<and> function_call_with norm memb H' f a = memb pc p a \<and>
    (\<exists>c H''. function_copy H' f = Inr (c, H'') \<and> c \<noteq> f \<and> function_call norm memb H'' c = memb pc p arg)"
proof -
  from assms(2) have "fh_alloc H (Impl_Class pc p arg) = (f, H')"
    by (simp add: bind_class_def function_of_base_def split: prod.splits)
  from fh_alloc_facts [OF assms(1) this] have H': "fh_ok H'" "fh_objs H' f = Some (Impl_Class pc p arg)" by auto
  from function_copy_facts [OF this] obtain c H'' where
    c: "function_copy H' f = Inr (c, H'')" "fh_ok H''" "fh_objs H'' c = Some (Impl_Class pc p arg)"
      "fh_objs H' c = None" by auto
  from c(4) H'(2) have "c \<noteq> f" by auto
  with c fh_deref_Some [OF H'] fh_deref_Some [OF c(2,3)] show ?thesis
    by (simp add: function_call_def function_call_with_def)
qed

theorem bind_class_call_witness:
  "function_call (\<lambda>p a. Inl Null_Deref) (\<lambda>o' p a. Inr (o' + p * a)) (snd (bind_class fh_empty (2::nat) 3 5)) 1 = Inr (13::nat)"
  using bind_class_call [OF fh_ok_empty, of 2 "3::nat" 5 1 "snd (bind_class fh_empty (2::nat) 3 5)"
      "\<lambda>p a. Inl Null_Deref" "\<lambda>o' p a. Inr (o' + p * a)"]
  by (simp add: bind_class_def fh_alloc_def fh_empty_def function_of_base_def)

text \<open>
  The constructor \<^verbatim>\<open>function(proc, arg)\<close> loses its argument: calling the functor runs
  \<^verbatim>\<open>proc\<close> on the default value of the argument type, whatever \<^verbatim>\<open>arg\<close> was, whereas
  \<^verbatim>\<open>bind(proc, arg)\<close> runs it on \<^verbatim>\<open>arg\<close>.
\<close>

theorem function_of_proc_drops_arg:
  assumes "fh_ok H" and "function_of_proc H dflt (Some p) arg = (f, H1)" and "bind_normal H (Some p) arg = (g, H2)"
  shows "function_call norm memb H1 f = norm p dflt \<and> function_call norm memb H2 g = norm p arg"
proof -
  from assms(2) have "fh_alloc H (Impl_Normal (Some p) dflt) = (f, H1)" by (simp add: function_of_proc_def)
  from fh_alloc_facts [OF assms(1) this] have f: "fh_ok H1" "fh_objs H1 f = Some (Impl_Normal (Some p) dflt)" by auto
  from assms(3) have "fh_alloc H (Impl_Normal (Some p) arg) = (g, H2)"
    by (simp add: bind_normal_def function_of_base_def split: prod.splits)
  from fh_alloc_facts [OF assms(1) this] have g: "fh_ok H2" "fh_objs H2 g = Some (Impl_Normal (Some p) arg)" by auto
  from fh_deref_Some [OF f] fh_deref_Some [OF g] show ?thesis by (simp add: function_call_def)
qed

theorem function_of_proc_drops_arg_witness:
  "function_call (\<lambda>p a. Inr (p + a)) (\<lambda>_ _ _. Inl Null_Deref)
     (snd (function_of_proc (fh_empty :: (nat, unit, nat) fheap) 0 (Some 7) 5)) 1 = Inr (7::nat)"
  using function_of_proc_drops_arg [OF fh_ok_empty, of 0 7 5 1
      "snd (function_of_proc (fh_empty :: (nat, unit, nat) fheap) 0 (Some 7) 5)" 1 "snd (bind_normal fh_empty (Some 7) 5)"
      "\<lambda>p a. Inr (p + a)" "\<lambda>_ _ _. Inl Null_Deref"]
  by (simp add: function_of_proc_def bind_normal_def fh_alloc_def fh_empty_def function_of_base_def)

text \<open>
  Draining the functor queue of a loop runs every task exactly once, in the order they
  were queued, frees every cell of the queue, and yet leaves as many live cells as there were:
  each \<^verbatim>\<open>pop\<close> leaks one cell, because \<^verbatim>\<open>operator=\<close> drops the old \<^verbatim>\<open>fun_\<close> without deleting it.
\<close>

theorem fq_drain_runs_and_leaks:
  assumes "fh_ok H" "distinct q" "fq_ready norm memb H q rs"
  shows "\<exists>H'. fq_drain norm memb H dflt q = Inr (rs, H') \<and> (\<forall>f\<in>set q. fh_objs H' f = None) \<and>
    fh_live H' = fh_live H"
proof -
  obtain t H1 where a: "fh_alloc H (Impl_Normal None dflt) = (t, H1)" by fastforce
  note H1 = fh_alloc_facts [OF assms(1) a]
  have "t \<notin> set q" using fq_ready_live [OF assms(3)] H1(3) by blast
  then have "fq_ready norm memb H1 q rs"
    using assms(3) H1(4) by (intro fq_ready_cong [of norm memb H q rs H1]) auto
  with fq_drain_loop_facts [of H1 q t norm memb rs] H1(1,4) assms(2) obtain t' H2 where
    l: "fq_drain_loop norm memb H1 q t = Inr (rs, t', H2)" "fh_ok H2" "fh_live H2 = fh_live H1"
      "fh_objs H2 t' \<noteq> None" "\<forall>f\<in>set q. fh_objs H2 f = None" by auto
  then obtain b where "fh_objs H2 t' = Some b" by blast
  from fh_delete_facts [OF l(2) this] l a H1(5) show ?thesis
    by (auto simp: fq_drain_def function_of_proc_def function_destroy_def)
qed

theorem fq_drain_runs_and_leaks_witness:
  "\<exists>H'. fq_drain (\<lambda>p a. Inr (p + a)) (\<lambda>_ _ _. Inl Null_Deref) two_task_heap 0 [1, 2] = Inr ([11, 22], H') \<and>
    (\<forall>f\<in>set [1, 2]. fh_objs H' f = None) \<and> fh_live H' = fh_live two_task_heap"
  by (rule fq_drain_runs_and_leaks) (auto simp: two_task_heap_def fh_ok_def fq_ready_def split: if_splits)

end
