(* ===== verification/Bytes_Endian.thy ===== *)
theory Bytes_Endian
  imports Net_Prelude
begin

text \<open>
  \<^verbatim>\<open>src/net/bytes_endian.h\<close>. The byte order of the host is the parameter \<open>le\<close>. A word in memory is
  the list of its bytes from the lowest address; \<^verbatim>\<open>htobe16/32/64\<close> and \<^verbatim>\<open>be16/32/64toh\<close> of the C
  library swap the bytes on a little-endian host and do nothing on a big-endian one.
\<close>

definition bswap16 :: "16 word \<Rightarrow> 16 word" where
  "bswap16 x = push_bit 8 x OR drop_bit 8 x"

definition bswap32 :: "32 word \<Rightarrow> 32 word" where
  "bswap32 x = push_bit 16 (ucast (bswap16 (ucast x))) OR ucast (bswap16 (ucast (drop_bit 16 x)))"

definition bswap64 :: "64 word \<Rightarrow> 64 word" where
  "bswap64 x = push_bit 32 (ucast (bswap32 (ucast x))) OR ucast (bswap32 (ucast (drop_bit 32 x)))"

text \<open>Bytes from the most significant to the least.\<close>

definition be_bytes16 :: "16 word \<Rightarrow> bytes" where
  "be_bytes16 x = [ucast (drop_bit 8 x), ucast x]"

definition be_bytes32 :: "32 word \<Rightarrow> bytes" where
  "be_bytes32 x = be_bytes16 (ucast (drop_bit 16 x)) @ be_bytes16 (ucast x)"

definition be_bytes64 :: "64 word \<Rightarrow> bytes" where
  "be_bytes64 x = be_bytes32 (ucast (drop_bit 32 x)) @ be_bytes32 (ucast x)"

text \<open>How the host lays bytes out in memory.\<close>

definition in_memory :: "bool \<Rightarrow> bytes \<Rightarrow> bytes" where
  "in_memory le bs = (if le then rev bs else bs)"

definition is_little_endian :: "bool \<Rightarrow> bool" where
  "is_little_endian le =
     (let temp = (1 :: 32 word); byte_order = in_memory le (be_bytes32 temp) ! 0 in byte_order = 1)"

definition host_to_network64 :: "bool \<Rightarrow> 64 word \<Rightarrow> 64 word" where
  "host_to_network64 le x = (if le then bswap64 x else x)"

definition host_to_network32 :: "bool \<Rightarrow> 32 word \<Rightarrow> 32 word" where
  "host_to_network32 le x = (if le then bswap32 x else x)"

definition host_to_network16 :: "bool \<Rightarrow> 16 word \<Rightarrow> 16 word" where
  "host_to_network16 le x = (if le then bswap16 x else x)"

definition network_to_host64 :: "bool \<Rightarrow> 64 word \<Rightarrow> 64 word" where
  "network_to_host64 le x = (if le then bswap64 x else x)"

definition network_to_host32 :: "bool \<Rightarrow> 32 word \<Rightarrow> 32 word" where
  "network_to_host32 le x = (if le then bswap32 x else x)"

definition network_to_host16 :: "bool \<Rightarrow> 16 word \<Rightarrow> 16 word" where
  "network_to_host16 le x = (if le then bswap16 x else x)"

lemmas network_defs = host_to_network64_def host_to_network32_def host_to_network16_def
  network_to_host64_def network_to_host32_def network_to_host16_def

section \<open>Byte swapping\<close>

lemma ucast_halves32:
  "ucast (push_bit 16 (ucast (a :: 16 word)) OR ucast (b :: 16 word) :: 32 word) = b"
  "ucast (drop_bit 16 (push_bit 16 (ucast (a :: 16 word)) OR ucast (b :: 16 word) :: 32 word)) = a"
  by (rule bit_word_eqI; auto simp: bit_simps dest: bit_imp_le_length)+

lemma ucast_halves64:
  "ucast (push_bit 32 (ucast (a :: 32 word)) OR ucast (b :: 32 word) :: 64 word) = b"
  "ucast (drop_bit 32 (push_bit 32 (ucast (a :: 32 word)) OR ucast (b :: 32 word) :: 64 word)) = a"
  by (rule bit_word_eqI; auto simp: bit_simps dest: bit_imp_le_length)+

lemma join_halves32:
  "push_bit 16 (ucast (ucast (drop_bit 16 x) :: 16 word)) OR ucast (ucast x :: 16 word) = (x :: 32 word)"
  by (rule bit_word_eqI) (auto simp: bit_simps)

lemma join_halves64:
  "push_bit 32 (ucast (ucast (drop_bit 32 x) :: 32 word)) OR ucast (ucast x :: 32 word) = (x :: 64 word)"
  by (rule bit_word_eqI) (auto simp: bit_simps)

lemma bswap16_bswap16 [simp]: "bswap16 (bswap16 x) = x"
  unfolding bswap16_def by (rule bit_word_eqI) (auto simp: bit_simps)

lemma bswap32_bswap32 [simp]: "bswap32 (bswap32 x) = x"
  unfolding bswap32_def [of "bswap32 x"] by (simp add: bswap32_def ucast_halves32 join_halves32 del: drop_bit_or unsigned_or_eq)

lemma bswap64_bswap64 [simp]: "bswap64 (bswap64 x) = x"
  unfolding bswap64_def [of "bswap64 x"] by (simp add: bswap64_def ucast_halves64 join_halves64 del: drop_bit_or unsigned_or_eq)

lemma be_bytes16_bswap: "be_bytes16 (bswap16 x) = rev (be_bytes16 x)"
  unfolding be_bytes16_def bswap16_def by (auto intro!: bit_word_eqI simp: bit_simps)

lemma be_bytes32_bswap: "be_bytes32 (bswap32 x) = rev (be_bytes32 x)"
  by (simp add: be_bytes32_def bswap32_def ucast_halves32 be_bytes16_bswap del: drop_bit_or unsigned_or_eq)

lemma be_bytes64_bswap: "be_bytes64 (bswap64 x) = rev (be_bytes64 x)"
  by (simp add: be_bytes64_def bswap64_def ucast_halves64 be_bytes32_bswap del: drop_bit_or unsigned_or_eq)

lemma is_little_endian [simp]: "is_little_endian le = le"
  by (simp add: is_little_endian_def in_memory_def be_bytes32_def be_bytes16_def Let_def)

lemma port_roundtrip [simp]: "network_to_host16 le (host_to_network16 le p) = p"
  by (simp add: network_defs)

section \<open>Properties\<close>

text \<open>
  On a host of either byte order, what \<^verbatim>\<open>host_to_network16/32/64\<close> leaves in memory is the
  big-endian representation of its argument; the two directions are inverse to each other; and
  \<^verbatim>\<open>is_little_endian\<close> tells the host's byte order.
\<close>

theorem network_order:
  "in_memory le (be_bytes16 (host_to_network16 le a)) = be_bytes16 a \<and>
   in_memory le (be_bytes32 (host_to_network32 le b)) = be_bytes32 b \<and>
   in_memory le (be_bytes64 (host_to_network64 le c)) = be_bytes64 c \<and>
   network_to_host16 le (host_to_network16 le a) = a \<and> host_to_network16 le (network_to_host16 le a) = a \<and>
   network_to_host32 le (host_to_network32 le b) = b \<and> host_to_network32 le (network_to_host32 le b) = b \<and>
   network_to_host64 le (host_to_network64 le c) = c \<and> host_to_network64 le (network_to_host64 le c) = c \<and>
   is_little_endian le = le"
  by (simp add: network_defs in_memory_def be_bytes16_bswap be_bytes32_bswap be_bytes64_bswap)

end
