(* ===== verification/Socket_Addr.thy ===== *)
theory Socket_Addr
  imports Bytes_Endian
begin

text \<open>
  \<^verbatim>\<open>src/net/tcp_socket_addr.cc\<close> and \<^verbatim>\<open>.h\<close>. The conversions between text and binary addresses,
  \<^verbatim>\<open>inet_pton\<close> and \<^verbatim>\<open>inet_ntop\<close>, are parameters: \<open>pton s\<close> is the address (as stored in
  \<^verbatim>\<open>sin_addr\<close>) when the text is valid, \<open>ntop a\<close> its text.
\<close>

record sockaddr_in =
  sin_family :: "16 word"
  sin_port :: "16 word"
  sin_addr :: "32 word"

definition AF_INET :: "16 word" where
  "AF_INET = 2"

definition zero_sockaddr :: sockaddr_in where
  "zero_sockaddr = \<lparr>sin_family = 0, sin_port = 0, sin_addr = 0\<rparr>"

record socket_address =
  socket_fd :: int
  sa_addr :: sockaddr_in

definition socket_address_new :: socket_address where
  "socket_address_new = \<lparr>socket_fd = -1, sa_addr = zero_sockaddr\<rparr>"

definition socket_address_of_fd :: "int \<Rightarrow> sockaddr_in \<Rightarrow> socket_address" where
  "socket_address_of_fd fd addr = \<lparr>socket_fd = fd, sa_addr = addr\<rparr>"

text \<open>\<^verbatim>\<open>htons((short) port)\<close>: the cast to \<^verbatim>\<open>short\<close> and back keeps the 16 bits.\<close>

definition socket_address_make ::
  "(string \<Rightarrow> 32 word option) \<Rightarrow> bool \<Rightarrow> string \<Rightarrow> 16 word \<Rightarrow> socket_address" where
  "socket_address_make pton le ipaddr port =
     (let a0 = zero_sockaddr;
          a1 = a0\<lparr>sin_family := AF_INET\<rparr>;
          a2 = a1\<lparr>sin_port := host_to_network16 le port\<rparr>;
          a3 = (case pton ipaddr of Some ip \<Rightarrow> a2\<lparr>sin_addr := ip\<rparr> | None \<Rightarrow> a2)
      in \<lparr>socket_fd = -1, sa_addr = a3\<rparr>)"

definition socket_address_copy :: "socket_address \<Rightarrow> socket_address" where
  "socket_address_copy other = \<lparr>socket_fd = socket_fd other, sa_addr = sa_addr other\<rparr>"

text \<open>\<open>same\<close>: both sides of the assignment are the same object.\<close>

definition socket_address_assign :: "bool \<Rightarrow> socket_address \<Rightarrow> socket_address \<Rightarrow> socket_address" where
  "socket_address_assign same this other =
     (if \<not> same then this\<lparr>socket_fd := socket_fd other, sa_addr := sa_addr other\<rparr> else this)"

definition set_fd :: "socket_address \<Rightarrow> int \<Rightarrow> socket_address" where
  "set_fd a fd = a\<lparr>socket_fd := fd\<rparr>"

definition get_fd :: "socket_address \<Rightarrow> int" where
  "get_fd a = socket_fd a"

definition get_ipaddr :: "(32 word \<Rightarrow> string) \<Rightarrow> socket_address \<Rightarrow> string" where
  "get_ipaddr ntop a = ntop (sin_addr (sa_addr a))"

definition get_port :: "bool \<Rightarrow> socket_address \<Rightarrow> 16 word" where
  "get_port le a = network_to_host16 le (sin_port (sa_addr a))"

text \<open>\<^verbatim>\<open>%d\<close> of a non-negative number.\<close>

definition digit_char :: "nat \<Rightarrow> char" where
  "digit_char d = char_of (48 + d)"

fun decimal :: "nat \<Rightarrow> string" where
  "decimal n = (if n < 10 then [digit_char n] else decimal (n div 10) @ [digit_char (n mod 10)])"

declare decimal.simps [simp del]

text \<open>\<^verbatim>\<open>sprintf\<close> into \<^verbatim>\<open>char buf[32]\<close>: text and terminator must fit.\<close>

definition address_to_string :: "(32 word \<Rightarrow> string) \<Rightarrow> bool \<Rightarrow> socket_address \<Rightarrow> string exec" where
  "address_to_string ntop le a =
     (let s = get_ipaddr ntop a @ '':'' @ decimal (unat (get_port le a)) in
      if length s + 1 \<le> 32 then Inr s else Inl Out_Of_Range)"

lemma length_decimal: "n < 10 ^ k \<Longrightarrow> 0 < k \<Longrightarrow> length (decimal n) \<le> k"
proof (induction n arbitrary: k rule: decimal.induct)
  case (1 n)
  show ?case
  proof (cases "n < 10")
    case True
    with "1.prems" show ?thesis by (simp add: decimal.simps)
  next
    case False
    then obtain j where j: "k = Suc j" "0 < j" using "1.prems" by (cases k; cases "k = 1") auto
    then have "n div 10 < 10 ^ j" using "1.prems" by (simp add: div_less_iff_less_mult mult.commute)
    with "1.IH" [OF False, of j] j False show ?thesis by (simp add: decimal.simps [of n])
  qed
qed

section \<open>Properties\<close>

text \<open>
  An address built from text and port gives the port back on a host of either byte order,
  gives back the text whenever the system's conversions agree on it (the family is
  \<^verbatim>\<open>AF_INET\<close>, no descriptor yet), and copying or assigning it preserves both.
\<close>

theorem socket_address_roundtrip:
  assumes "pton ip = Some a" and "ntop a = ip"
  shows "get_port le (socket_address_make pton le ip port) = port \<and>
    get_ipaddr ntop (socket_address_make pton le ip port) = ip \<and>
    sin_family (sa_addr (socket_address_make pton le ip port)) = AF_INET \<and>
    get_fd (socket_address_make pton le ip port) = -1 \<and>
    socket_address_copy x = x \<and> socket_address_assign False y x = x"
  using assms
  by (simp add: socket_address_make_def get_port_def get_ipaddr_def get_fd_def socket_address_copy_def
      socket_address_assign_def zero_sockaddr_def Let_def)

theorem socket_address_roundtrip_witness:
  "get_port True (socket_address_make (\<lambda>s. Some 16777343) True ''127.0.0.1'' 6543) = 6543"
  using socket_address_roundtrip [of "\<lambda>s. Some 16777343" "''127.0.0.1''" 16777343 "\<lambda>a. ''127.0.0.1''" True 6543]
  by simp

text \<open>
  As long as the system's text of an IPv4 address has its documented length of at most 15
  characters, \<^verbatim>\<open>to_string\<close> stays inside its 32-byte buffer: it returns at most 21 characters.
\<close>

theorem address_to_string_fits:
  assumes "length (ntop (sin_addr (sa_addr a))) \<le> 15"
  shows "\<exists>s. address_to_string ntop le a = Inr s \<and> length s \<le> 21 \<and>
    s = get_ipaddr ntop a @ '':'' @ decimal (unat (get_port le a))"
proof -
  have "unat (get_port le a) < 2 ^ 16" using unsigned_less [of "get_port le a"] by simp
  then have "unat (get_port le a) < 10 ^ 5" by simp
  from length_decimal [OF this] have "length (decimal (unat (get_port le a))) \<le> 5" by simp
  with assms show ?thesis by (simp add: address_to_string_def get_ipaddr_def Let_def)
qed

theorem address_to_string_fits_witness:
  "\<exists>s. address_to_string (\<lambda>a. ''127.0.0.1'') True (socket_address_make (\<lambda>s. Some 16777343) True ''127.0.0.1'' 6543) = Inr s \<and>
    length s \<le> 21 \<and> s = get_ipaddr (\<lambda>a. ''127.0.0.1'') (socket_address_make (\<lambda>s. Some 16777343) True ''127.0.0.1'' 6543) @ '':'' @
      decimal (unat (get_port True (socket_address_make (\<lambda>s. Some 16777343) True ''127.0.0.1'' 6543)))"
  by (rule address_to_string_fits) simp

end
