(* ===== verification/Functor_Queue.thy ===== *)
theory Functor_Queue
  imports Functor Thread_Queue Socket_Addr
begin

text \<open>
  The task queue of a loop as the code has it, a deque of function objects on the heap, against the queue of
  bound calls that the theories of the loop and of the servers work with.
\<close>

section \<open>Queueing and running a bound call\<close>

text \<open>\<^verbatim>\<open>&service_handler::open\<close>, the only procedure the servers bind.\<close>

datatype handler_method = Service_Open

type_synonym open_heap = "(handler_method, ptr, socket_address) fheap"

text \<open>
  \<^verbatim>\<open>RunableFunctor f = owner::bind(&service_handler::open, ptr, addr); loop->add_run(f);\<close> and the destructor of
  \<^verbatim>\<open>f\<close> when \<^verbatim>\<open>on_accept\<close> returns.
\<close>

definition queue_open :: "open_heap \<Rightarrow> ptr list \<Rightarrow> ptr \<Rightarrow> socket_address \<Rightarrow> (ptr list \<times> open_heap) exec" where
  "queue_open H q p addr =
     (case bind_class H Service_Open p addr of (f, H1) \<Rightarrow>
        bind_exec (fq_push H1 q f) (\<lambda>(q', H2).
        bind_exec (function_destroy H2 f) (\<lambda>H3. Inr (q', H3))))"

text \<open>
  One test of \<^verbatim>\<open>while (functors_.pop(fun)) fun();\<close> with \<open>t\<close> the variable \<^verbatim>\<open>fun\<close>: the call made, if any. The call
  itself is only recorded; what it queues are further operations.
\<close>

definition take_open :: "open_heap \<Rightarrow> ptr list \<Rightarrow> ptr \<Rightarrow> ((ptr \<times> socket_address) option \<times> ptr \<times> ptr list \<times> open_heap) exec" where
  "take_open H q t =
     bind_exec (fq_pop H q t) (\<lambda>(popped, t', q', H').
       if popped
       then bind_exec (function_call (\<lambda>p a. Inl Null_Deref) (\<lambda>obj p a. Inr (obj, a)) H' t') (\<lambda>r. Inr (Some r, t', q', H'))
       else Inr (None, t', q', H'))"

text \<open>\<^verbatim>\<open>RunableFunctor fun;\<close> of the next round of \<^verbatim>\<open>run\<close>, after the destructor of the last one.\<close>

definition next_fun :: "socket_address \<Rightarrow> open_heap \<Rightarrow> ptr \<Rightarrow> (ptr \<times> open_heap) exec" where
  "next_fun arg_default H t =
     bind_exec (function_destroy H t) (\<lambda>H'. Inr (function_of_proc H' arg_default None arg_default))"

section \<open>Sequences of operations\<close>

datatype queue_op = Op_Queue ptr socket_address | Op_Take | Op_Round

fun functor_ops ::
  "socket_address \<Rightarrow> queue_op list \<Rightarrow> open_heap \<Rightarrow> ptr list \<Rightarrow> ptr \<Rightarrow>
     ((ptr \<times> socket_address) option list \<times> ptr \<times> ptr list \<times> open_heap) exec" where
  "functor_ops dflt [] H q t = Inr ([], t, q, H)"
| "functor_ops dflt (Op_Queue p addr # ops) H q t =
     bind_exec (queue_open H q p addr) (\<lambda>(q', H'). functor_ops dflt ops H' q' t)"
| "functor_ops dflt (Op_Take # ops) H q t =
     bind_exec (take_open H q t) (\<lambda>(r, t', q', H').
     bind_exec (functor_ops dflt ops H' q' t') (\<lambda>(rs, t'', q'', H''). Inr (r # rs, t'', q'', H'')))"
| "functor_ops dflt (Op_Round # ops) H q t =
     bind_exec (next_fun dflt H t) (\<lambda>(t', H'). functor_ops dflt ops H' q t')"

text \<open>The same operations on the queue of bound calls.\<close>

fun task_ops :: "queue_op list \<Rightarrow> (ptr \<times> socket_address) list \<Rightarrow> (ptr \<times> socket_address) option list \<times> (ptr \<times> socket_address) list" where
  "task_ops [] tasks = ([], tasks)"
| "task_ops (Op_Queue p addr # ops) tasks = task_ops ops (tq_push tasks (p, addr))"
| "task_ops (Op_Take # ops) tasks =
     (case tq_pop tasks of (r, tasks') \<Rightarrow> case task_ops ops tasks' of (rs, tasks'') \<Rightarrow> (r # rs, tasks''))"
| "task_ops (Op_Round # ops) tasks = task_ops ops tasks"

fun is_queue_op :: "queue_op \<Rightarrow> bool" where
  "is_queue_op (Op_Queue p addr) = True"
| "is_queue_op _ = False"

section \<open>The simulation\<close>

text \<open>
  Every address in the deque is a cell of its own that holds the bound call at the same place of the
  abstract queue, and the variable \<^verbatim>\<open>fun\<close> holds another live cell.
\<close>

definition represents :: "open_heap \<Rightarrow> ptr list \<Rightarrow> ptr \<Rightarrow> (ptr \<times> socket_address) list \<Rightarrow> bool" where
  "represents H q t tasks \<longleftrightarrow> fh_ok H \<and> distinct q \<and> t \<notin> set q \<and> fh_objs H t \<noteq> None \<and>
     list_all2 (\<lambda>f (p, addr). fh_objs H f = Some (Impl_Class p Service_Open addr)) q tasks"

lemma represents_live:
  assumes "represents H q t tasks" "f \<in> insert t (set q)"
  shows "\<exists>b. fh_objs H f = Some b"
proof (cases "f = t")
  case True
  with assms(1) show ?thesis by (auto simp: represents_def)
next
  case False
  with assms(2) obtain i where i: "i < length q" "q ! i = f" by (auto simp: in_set_conv_nth)
  have "list_all2 (\<lambda>f (p, addr). fh_objs H f = Some (Impl_Class p Service_Open addr)) q tasks"
    using assms(1) by (simp add: represents_def)
  from list_all2_nthD [OF this i(1)] i(2) show ?thesis by (auto split: prod.splits)
qed

lemma represents_frame:
  assumes "represents H q t tasks" "fh_ok H'" "\<And>f. f \<in> insert t (set q) \<Longrightarrow> fh_objs H' f = fh_objs H f"
  shows "represents H' q t tasks"
proof -
  have "list_all2 (\<lambda>f (p, addr). fh_objs H' f = Some (Impl_Class p Service_Open addr)) q tasks"
    using assms(1) unfolding represents_def
    by (elim conjE list.rel_mono_strong) (use assms(3) in \<open>auto split: prod.splits\<close>)
  with assms show ?thesis by (simp add: represents_def)
qed

lemma represents_push:
  assumes "represents H q t tasks" "c \<notin> insert t (set q)" "fh_objs H c = Some (Impl_Class p Service_Open addr)"
  shows "represents H (q @ [c]) t (tq_push tasks (p, addr))"
proof -
  let ?R = "\<lambda>f (p, addr). fh_objs H f = Some (Impl_Class p Service_Open addr)"
  have "list_all2 ?R q tasks" "list_all2 ?R [c] [(p, addr)]" using assms(1,3) by (simp_all add: represents_def)
  then have "list_all2 ?R (q @ [c]) (tasks @ [(p, addr)])" by (rule list_all2_appendI)
  with assms(1,2) show ?thesis by (auto simp: represents_def tq_push_def)
qed

lemma queue_open_represents:
  assumes r: "represents H q t tasks"
  obtains q' H' where "queue_open H q p addr = Inr (q', H')" "represents H' q' t (tq_push tasks (p, addr))"
    "fh_live H' = Suc (fh_live H)"
proof -
  have ok: "fh_ok H" using r by (simp add: represents_def)
  let ?b = "Impl_Class p Service_Open addr"
  obtain f H1 where f: "fh_alloc H ?b = (f, H1)" by fastforce
  note H1 = fh_alloc_facts [OF ok f]
  have "fh_objs H1 f = Some ?b" using H1(4) by simp
  from function_copy_facts [OF H1(1) this] obtain c H2 where
    c: "function_copy H1 f = Inr (c, H2)" "fh_ok H2" "fh_objs H1 c = None" "fh_objs H2 = (fh_objs H1)(c \<mapsto> ?b)"
      "fh_live H2 = Suc (fh_live H1)" by blast
  have "c \<noteq> f" using c(3) H1(4) by auto
  then have "fh_objs H2 f = Some ?b" using c(4) H1(4) by simp
  note del = fh_delete_facts [OF c(2) this]
  let ?H3 = "H2\<lparr>fh_objs := (fh_objs H2)(f := None)\<rparr>"
  have old: "g \<noteq> f \<and> g \<noteq> c" if "g \<in> insert t (set q)" for g
    using represents_live [OF r that] H1(3,4) c(3) \<open>c \<noteq> f\<close> by auto
  have "represents ?H3 q t tasks"
    by (rule represents_frame [OF r del(2)]) (use old H1(4) c(4) in auto)
  moreover have "c \<notin> insert t (set q)" using old by blast
  moreover have "fh_objs ?H3 c = Some ?b" using c(4) \<open>c \<noteq> f\<close> by simp
  ultimately have "represents ?H3 (q @ [c]) t (tq_push tasks (p, addr))" by (rule represents_push)
  moreover have "queue_open H q p addr = Inr (q @ [c], ?H3)"
    using f c(1) del(1) by (simp add: queue_open_def bind_class_def function_of_base_def fq_push_def function_destroy_def)
  moreover have "fh_live ?H3 = Suc (fh_live H)" using del(3) c(5) H1(5) by simp
  ultimately show thesis using that by blast
qed

lemma take_open_represents:
  assumes r: "represents H q t tasks"
  obtains t' q' H' where "take_open H q t = Inr (fst (tq_pop tasks), t', q', H')"
    "represents H' q' t' (snd (tq_pop tasks))" "fh_live H' = fh_live H"
proof (cases tasks)
  case Nil
  with r have "q = []" by (simp add: represents_def)
  with Nil r that show thesis by (simp add: take_open_def)
next
  case (Cons x rest)
  obtain p addr where x: "x = (p, addr)" by fastforce
  let ?b = "Impl_Class p Service_Open addr"
  from r Cons x obtain f q1 where q: "q = f # q1" and f: "fh_objs H f = Some ?b" and ok: "fh_ok H"
    and rest: "list_all2 (\<lambda>f (p, addr). fh_objs H f = Some (Impl_Class p Service_Open addr)) q1 rest" "distinct q" "t \<notin> set q"
    by (auto simp: represents_def list_all2_Cons2)
  from fq_pop_facts [OF ok f, of q1 t] obtain t' H' where
    pop: "fq_pop H q t = Inr (True, t', q1, H')" and H': "fh_ok H'" "fh_objs H t' = None"
      "fh_objs H' = (fh_objs H)(t' \<mapsto> ?b, f := None)" "fh_live H' = fh_live H" unfolding q by blast
  have "t' \<noteq> f" using H'(2) f by auto
  then have t': "fh_objs H' t' = Some ?b" using H'(3) by simp
  have "represents H q1 t rest" using r q rest ok by (simp add: represents_def)
  from represents_live [OF this] H'(2) have fresh: "t' \<notin> set q1" by force
  have "list_all2 (\<lambda>f (p, addr). fh_objs H' f = Some (Impl_Class p Service_Open addr)) q1 rest"
    using rest(1) by (rule list.rel_mono_strong) (use rest(2) q fresh H'(3) in \<open>auto split: prod.splits\<close>)
  then have "represents H' q1 t' rest" using H'(1) rest(2) q fresh t' by (simp add: represents_def)
  moreover have "take_open H q t = Inr (Some (p, addr), t', q1, H')"
    using pop fh_deref_Some [OF H'(1) t'] by (simp add: take_open_def function_call_def del: fq_pop.simps)
  ultimately show thesis using that H'(4) Cons x by simp
qed

lemma next_fun_represents:
  assumes r: "represents H q t tasks"
  obtains t' H' where "next_fun dflt H t = Inr (t', H')" "represents H' q t' tasks" "fh_live H' = fh_live H"
proof -
  obtain b where b: "fh_objs H t = Some b" and ok: "fh_ok H" using represents_live [OF r, of t] r by (auto simp: represents_def)
  note del = fh_delete_facts [OF ok b]
  let ?H1 = "H\<lparr>fh_objs := (fh_objs H)(t := None)\<rparr>"
  obtain t' H2 where a: "fh_alloc ?H1 (Impl_Normal None dflt) = (t', H2)" by fastforce
  note H2 = fh_alloc_facts [OF del(2) a]
  have nt: "t \<notin> set q" using r by (simp add: represents_def)
  have fresh: "t' \<notin> set q"
  proof
    assume "t' \<in> set q"
    with represents_live [OF r, of t'] nt H2(3) show False by (auto split: if_splits)
  qed
  have "list_all2 (\<lambda>f (p, addr). fh_objs H2 f = Some (Impl_Class p Service_Open addr)) q tasks"
    using r unfolding represents_def
    by (elim conjE list.rel_mono_strong) (use nt fresh H2(4) in \<open>auto split: prod.splits\<close>)
  then have "represents H2 q t' tasks" using r H2(1,4) fresh by (simp add: represents_def)
  moreover have "next_fun dflt H t = Inr (t', H2)"
    using del(1) a by (simp add: next_fun_def function_destroy_def function_of_proc_def)
  ultimately show thesis using that H2(5) del(3) by simp
qed

lemma functor_ops_represent:
  "represents H q t tasks \<Longrightarrow>
   \<exists>t' q' H'. functor_ops dflt ops H q t = Inr (fst (task_ops ops tasks), t', q', H') \<and>
     represents H' q' t' (snd (task_ops ops tasks)) \<and> fh_live H' = fh_live H + length (filter is_queue_op ops)"
proof (induction ops arbitrary: H q t tasks)
  case (Cons op ops)
  show ?case
  proof (cases op)
    case (Op_Queue p addr)
    obtain q' H' where "queue_open H q p addr = Inr (q', H')" "represents H' q' t (tq_push tasks (p, addr))"
      "fh_live H' = Suc (fh_live H)" by (rule queue_open_represents [OF Cons.prems])
    with Cons.IH [OF this(2)] Op_Queue show ?thesis by auto
  next
    case Op_Take
    obtain t' q' H' where "take_open H q t = Inr (fst (tq_pop tasks), t', q', H')"
      "represents H' q' t' (snd (tq_pop tasks))" "fh_live H' = fh_live H" by (rule take_open_represents [OF Cons.prems])
    with Cons.IH [OF this(2)] Op_Take show ?thesis by (auto simp: case_prod_beta)
  next
    case Op_Round
    obtain t' H' where "next_fun dflt H t = Inr (t', H')" "represents H' q t' tasks" "fh_live H' = fh_live H"
      by (rule next_fun_represents [OF Cons.prems])
    with Cons.IH [OF this(2)] Op_Round show ?thesis by auto
  qed
qed simp

section \<open>Property\<close>

text \<open>
  Claim C21. The deque of function objects implements the task queue of the loop: in any sequence of
  queueings, rounds and tests of the draining loop, on any heap, each test makes exactly the call that the queue of bound
  calls \<open>(p, addr)\<close> gives, nothing deleted or null is used, and no cell is shared between queued functors. Every task queued leaves
  one cell on the heap for ever, because \<^verbatim>\<open>operator=\<close> does not free the old one.
\<close>

theorem functor_queue_refines:
  assumes "fh_ok H" "function_of_proc H dflt None dflt = (t, H0)"
  shows "\<exists>t' q' H'. functor_ops dflt ops H0 [] t = Inr (fst (task_ops ops []), t', q', H') \<and>
    represents H' q' t' (snd (task_ops ops [])) \<and> fh_live H' = fh_live H0 + length (filter is_queue_op ops)"
proof (rule functor_ops_represent)
  have "fh_alloc H (Impl_Normal None dflt) = (t, H0)" using assms(2) by (simp add: function_of_proc_def)
  from fh_alloc_facts(1,4) [OF assms(1) this] show "represents H0 [] t []" by (simp add: represents_def)
qed

text \<open>Two connections are queued, one is taken, another comes in, and the next round takes the rest.\<close>

definition sample_addr :: socket_address where
  "sample_addr = socket_address_of_fd 7 zero_sockaddr"

definition sample_ops :: "queue_op list" where
  "sample_ops = [Op_Queue 10 sample_addr, Op_Queue 11 sample_addr, Op_Take, Op_Queue 12 sample_addr, Op_Round, Op_Take, Op_Take, Op_Take]"

theorem functor_queue_refines_witness:
  "\<exists>t' q' H'. functor_ops sample_addr sample_ops (snd (function_of_proc fh_empty sample_addr None sample_addr)) [] 1 =
     Inr ([Some (10, sample_addr), Some (11, sample_addr), Some (12, sample_addr), None], t', q', H') \<and> fh_live H' = 4"
proof -
  have f: "function_of_proc (fh_empty :: open_heap) sample_addr None sample_addr = (1, snd (function_of_proc fh_empty sample_addr None sample_addr))"
    by (simp add: function_of_proc_def fh_alloc_def fh_empty_def)
  have "fh_live (snd (function_of_proc (fh_empty :: open_heap) sample_addr None sample_addr)) = 1"
    by (simp add: function_of_proc_def fh_alloc_def fh_empty_def fh_live_def)
  with functor_queue_refines [OF fh_ok_empty f, of sample_ops] show ?thesis
    by (auto simp: sample_ops_def tq_push_def)
qed

end
