(* ===== verification/Event_Handler.thy ===== *)
theory Event_Handler
  imports Service_Loop
begin

text \<open>
  The abstract class of \<^verbatim>\<open>src/net/event_handler.h\<close>. What \<^verbatim>\<open>ServiceLoop\<close> needs of the objects it
  calls is the locale \<open>event_handler\<close>: none of the three virtual methods may leave the loop's handler map
  and its dispatcher disagreeing. \<open>ready\<close> is the condition under which the loop makes the call
  (the object is registered under its handle), \<open>io\<close> what the system answers during it.
\<close>

locale event_handler =
  fixes sync :: "'l \<Rightarrow> bool"
    and ready :: "'h \<Rightarrow> 'l \<Rightarrow> bool"
    and do_read do_write do_error :: "'io \<Rightarrow> 'h \<Rightarrow> 'l \<Rightarrow> ('h \<times> 'l) exec"
  assumes read_sync: "sync L \<Longrightarrow> ready h L \<Longrightarrow> do_read io h L = Inr (h', L') \<Longrightarrow> sync L'"
    and write_sync: "sync L \<Longrightarrow> ready h L \<Longrightarrow> do_write io h L = Inr (h', L') \<Longrightarrow> sync L'"
    and error_sync: "sync L \<Longrightarrow> ready h L \<Longrightarrow> do_error io h L = Inr (h', L') \<Longrightarrow> sync L'"

text \<open>The virtual call the loop makes for an event.\<close>

definition handler_call ::
  "('io \<Rightarrow> 'h \<Rightarrow> 'l \<Rightarrow> ('h \<times> 'l) exec) \<Rightarrow> ('io \<Rightarrow> 'h \<Rightarrow> 'l \<Rightarrow> ('h \<times> 'l) exec) \<Rightarrow>
   ('io \<Rightarrow> 'h \<Rightarrow> 'l \<Rightarrow> ('h \<times> 'l) exec) \<Rightarrow> int \<Rightarrow> 'io \<Rightarrow> 'h \<Rightarrow> 'l \<Rightarrow> ('h \<times> 'l) exec" where
  "handler_call do_read do_write do_error ev io h L =
     (if ev = EVENT_READ then do_read io h L
      else if ev = EVENT_WRITE then do_write io h L
      else if ev = EVENT_ERROR then do_error io h L
      else Inr (h, L))"

context event_handler begin

lemma event_sync:
  "sync L \<Longrightarrow> ready h L \<Longrightarrow> handler_call do_read do_write do_error ev io h L = Inr (h', L') \<Longrightarrow> sync L'"
  by (auto simp: handler_call_def split: if_splits dest: read_sync write_sync error_sync)

end

text \<open>
  The wakeup handler is one: its read takes the eventfd's value, its write and error methods
  have empty bodies; none touches the loop.
\<close>

definition wakeup_do_read ::
  "(nat list \<Rightarrow> int + nat) \<Rightarrow> wakeup_handler \<Rightarrow> ('d, 'f, 'z) service_loop_scheme \<Rightarrow>
     (wakeup_handler \<times> ('d, 'f, 'z) service_loop_scheme) exec" where
  "wakeup_do_read ev_read wk L = bind_exec (wakeup_handle_read ev_read wk) (\<lambda>wk'. Inr (wk', L))"

definition no_op_call :: "'io \<Rightarrow> 'h \<Rightarrow> 'l \<Rightarrow> ('h \<times> 'l) exec" where
  "no_op_call io h L = Inr (h, L)"

interpretation wakeup: event_handler in_sync "\<lambda>wk L. sl_handlers L (wk_fd wk) = Some (wk_self wk)"
  wakeup_do_read no_op_call no_op_call
  by unfold_locales (auto simp: wakeup_do_read_def no_op_call_def bind_exec_eq_Inr)

end
