(* ===== verification/Timer.thy ===== *)
theory Timer
  imports Event_Handler Complex_Main
begin

text \<open>
  \<^verbatim>\<open>src/net/timer_handler.cc\<close> and \<^verbatim>\<open>.h\<close>. A \<^verbatim>\<open>double\<close> is the rational number it stands for;
  \<open>fmul\<close> is the machine's rounding multiplication. \<open>tm_armed\<close> is a ghost: what the last
  successful \<^verbatim>\<open>timerfd_settime\<close> set.
\<close>

record timespec =
  tv_sec :: int
  tv_nsec :: int

record itimerspec =
  it_interval :: timespec
  it_value :: timespec

definition zero_itimerspec :: itimerspec where
  "zero_itimerspec = \<lparr>it_interval = \<lparr>tv_sec = 0, tv_nsec = 0\<rparr>, it_value = \<lparr>tv_sec = 0, tv_nsec = 0\<rparr>\<rparr>"

record 'u timer_handler =
  tm_self :: ptr
  tm_fd :: int
  tm_srv_loop :: ptr
  tm_interval :: rat
  tm_repeat :: bool
  tm_started :: bool
  tm_user :: 'u
  tm_armed :: itimerspec

text \<open>\<^verbatim>\<open>timerfd_create\<close> answers a descriptor or -1.\<close>

definition timer_new :: "ptr \<Rightarrow> ptr \<Rightarrow> int \<Rightarrow> rat \<Rightarrow> bool \<Rightarrow> 'u \<Rightarrow> 'u timer_handler exec" where
  "timer_new self loop create_answer interval repeat u =
     bind_exec (c_assert (create_answer \<ge> 0)) (\<lambda>_.
       Inr \<lparr>tm_self = self, tm_fd = create_answer, tm_srv_loop = loop, tm_interval = interval, tm_repeat = repeat,
         tm_started = False, tm_user = u, tm_armed = zero_itimerspec\<rparr>)"

text \<open>The destructor closes the descriptor and does not unregister it.\<close>

definition timer_delete :: "'u timer_handler \<Rightarrow> int set \<Rightarrow> 'u timer_handler \<times> int set" where
  "timer_delete t fds = (if tm_fd t \<ge> 0 then (t\<lparr>tm_fd := -1\<rparr>, fds - {tm_fd t}) else (t, fds))"

text \<open>Conversions of a \<^verbatim>\<open>double\<close> to \<^verbatim>\<open>int\<close> truncate; out of range they are undefined.\<close>

definition rat_trunc :: "rat \<Rightarrow> int" where
  "rat_trunc x = (if 0 \<le> x then \<lfloor>x\<rfloor> else \<lceil>x\<rceil>)"

definition double_to_int :: "rat \<Rightarrow> int exec" where
  "double_to_int x =
     bind_exec (check (- INT_MAX - 1 \<le> rat_trunc x \<and> rat_trunc x \<le> INT_MAX) Out_Of_Range) (\<lambda>_. Inr (rat_trunc x))"

definition timer_spec :: "(rat \<Rightarrow> rat \<Rightarrow> rat) \<Rightarrow> 'u timer_handler \<Rightarrow> itimerspec exec" where
  "timer_spec fmul t =
     bind_exec (double_to_int (tm_interval t)) (\<lambda>sec.
       let p0 = zero_itimerspec;
           p1 = p0\<lparr>it_value := \<lparr>tv_sec = sec, tv_nsec = rat_trunc (fmul (tm_interval t - of_int sec) 1000000000)\<rparr>\<rparr>;
           p2 = (if tm_repeat t
                 then p1\<lparr>it_interval := \<lparr>tv_sec = tv_sec (it_value p1), tv_nsec = tv_nsec (it_value p1)\<rparr>\<rparr> else p1)
       in Inr p2)"

text \<open>
  \<open>settime\<close> is the answer of \<^verbatim>\<open>timerfd_settime\<close> for a new value (\<open>None\<close> is a null pointer).
  The call of \<^verbatim>\<open>start\<close> stands inside \<^verbatim>\<open>assert\<close>.
\<close>

definition timer_start ::
  "'d vtable \<Rightarrow> (rat \<Rightarrow> rat \<Rightarrow> rat) \<Rightarrow> (itimerspec option \<Rightarrow> int) \<Rightarrow> 'u timer_handler \<Rightarrow> ('d, 'f, 'z) service_loop_scheme \<Rightarrow>
     (int \<times> 'u timer_handler \<times> ('d, 'f, 'z) service_loop_scheme) exec" where
  "timer_start V fmul settime t L =
     bind_exec (timer_spec fmul t) (\<lambda>ptime.
     bind_exec (c_assert (0 = settime (Some ptime))) (\<lambda>_.
       let t1 = t\<lparr>tm_armed := ptime\<rparr> in
       bind_exec (check (tm_srv_loop t1 \<noteq> NULL) Null_Deref) (\<lambda>_.
       bind_exec (register_event V L (tm_fd t1) True False (tm_self t1)) (\<lambda>(result, L1).
       bind_exec (c_assert (0 = result)) (\<lambda>_. Inr (0, t1\<lparr>tm_started := True\<rparr>, L1))))))"

text \<open>
  \<^verbatim>\<open>stop\<close> prepares a zero \<^verbatim>\<open>new_value\<close> and then passes \<^verbatim>\<open>NULL\<close> instead of it; the result is
  not looked at.
\<close>

definition timer_stop ::
  "'d vtable \<Rightarrow> (itimerspec option \<Rightarrow> int) \<Rightarrow> 'u timer_handler \<Rightarrow> ('d, 'f, 'z) service_loop_scheme \<Rightarrow>
     ('u timer_handler \<times> ('d, 'f, 'z) service_loop_scheme) exec" where
  "timer_stop V settime t L =
     (if \<not> tm_started t then Inr (t, L)
      else
        let new_value = zero_itimerspec;
            t1 = (if tm_repeat t
                  then (if settime None = 0 then t\<lparr>tm_armed := zero_itimerspec\<rparr> else t)\<lparr>tm_repeat := False\<rparr> else t)
        in bind_exec (check (tm_srv_loop t1 \<noteq> NULL) Null_Deref) (\<lambda>_.
           bind_exec (delete_event V L (tm_fd t1)) (\<lambda>(result, L1).
           bind_exec (c_assert (0 = result)) (\<lambda>_. Inr (t1, L1)))))"

text \<open>
  What \<^verbatim>\<open>on_timer\<close>, the subclass's method, may do with the timer.
\<close>

datatype tm_cmd = Tm_Start | Tm_Stop | Tm_Set_Interval rat | Tm_Set_Repeat bool

definition timer_set_interval :: "'u timer_handler \<Rightarrow> rat \<Rightarrow> 'u timer_handler" where
  "timer_set_interval t x = t\<lparr>tm_interval := x\<rparr>"

definition timer_set_repeat :: "'u timer_handler \<Rightarrow> bool \<Rightarrow> 'u timer_handler" where
  "timer_set_repeat t b = t\<lparr>tm_repeat := b\<rparr>"

definition timer_get_interval :: "'u timer_handler \<Rightarrow> rat" where
  "timer_get_interval t = tm_interval t"

definition timer_is_repeat :: "'u timer_handler \<Rightarrow> bool" where
  "timer_is_repeat t = tm_repeat t"

definition timer_handle :: "'u timer_handler \<Rightarrow> int" where
  "timer_handle t = tm_fd t"

fun run_tm_cmds ::
  "'d vtable \<Rightarrow> (rat \<Rightarrow> rat \<Rightarrow> rat) \<Rightarrow> (itimerspec option \<Rightarrow> int) \<Rightarrow> tm_cmd list \<Rightarrow> 'u timer_handler \<Rightarrow>
     ('d, 'f, 'z) service_loop_scheme \<Rightarrow> ('u timer_handler \<times> ('d, 'f, 'z) service_loop_scheme) exec" where
  "run_tm_cmds V fmul settime [] t L = Inr (t, L)"
| "run_tm_cmds V fmul settime (Tm_Start # cs) t L =
     bind_exec (timer_start V fmul settime t L) (\<lambda>(_, t', L'). run_tm_cmds V fmul settime cs t' L')"
| "run_tm_cmds V fmul settime (Tm_Stop # cs) t L =
     bind_exec (timer_stop V settime t L) (\<lambda>(t', L'). run_tm_cmds V fmul settime cs t' L')"
| "run_tm_cmds V fmul settime (Tm_Set_Interval x # cs) t L = run_tm_cmds V fmul settime cs (timer_set_interval t x) L"
| "run_tm_cmds V fmul settime (Tm_Set_Repeat b # cs) t L = run_tm_cmds V fmul settime cs (timer_set_repeat t b) L"

text \<open>\<open>answer\<close>: the errno of the failed \<^verbatim>\<open>read\<close> of the descriptor, or the number of expirations.\<close>

definition timer_handle_read ::
  "'d vtable \<Rightarrow> (rat \<Rightarrow> rat \<Rightarrow> rat) \<Rightarrow> (itimerspec option \<Rightarrow> int) \<Rightarrow> (nat \<Rightarrow> 'u \<Rightarrow> 'u \<times> tm_cmd list) \<Rightarrow> int + nat \<Rightarrow>
     'u timer_handler \<Rightarrow> ('d, 'f, 'z) service_loop_scheme \<Rightarrow>
     ('u timer_handler \<times> ('d, 'f, 'z) service_loop_scheme) exec" where
  "timer_handle_read V fmul settime on_timer answer t L =
     (case answer of
        Inl e \<Rightarrow> Inl Assertion_Failed
      | Inr howmany \<Rightarrow>
          let (u, cmds) = on_timer howmany (tm_user t) in
          bind_exec (run_tm_cmds V fmul settime cmds (t\<lparr>tm_user := u\<rparr>) L) (\<lambda>(t1, L1).
            if \<not> tm_repeat t1 then timer_stop V settime t1 L1 else Inr (t1, L1)))"

section \<open>Facts\<close>

lemma timer_stop_facts:
  assumes "timer_stop V settime t L = Inr (t', L')" "tm_started t"
  shows "delete_event V L (tm_fd t) = Inr (0, L')" "tm_repeat t' = False" "tm_fd t' = tm_fd t" "tm_self t' = tm_self t"
    "tm_interval t' = tm_interval t" "tm_started t' = True"
    "settime None \<noteq> 0 \<or> \<not> tm_repeat t \<Longrightarrow> tm_armed t' = tm_armed t"
proof -
  define t1 where "t1 = (if tm_repeat t
    then (if settime None = 0 then t\<lparr>tm_armed := zero_itimerspec\<rparr> else t)\<lparr>tm_repeat := False\<rparr> else t)"
  have f: "tm_fd t1 = tm_fd t" "tm_self t1 = tm_self t" "tm_interval t1 = tm_interval t" "tm_started t1 = tm_started t"
    "tm_repeat t1 = False" "settime None \<noteq> 0 \<or> \<not> tm_repeat t \<Longrightarrow> tm_armed t1 = tm_armed t"
    by (simp_all add: t1_def)
  have stop: "timer_stop V settime t L =
      bind_exec (check (tm_srv_loop t1 \<noteq> NULL) Null_Deref) (\<lambda>_.
      bind_exec (delete_event V L (tm_fd t1)) (\<lambda>(result, L1).
      bind_exec (c_assert (0 = result)) (\<lambda>_. Inr (t1, L1))))"
    using assms(2) by (simp add: timer_stop_def t1_def Let_def)
  from assms(1) [unfolded stop] have r: "delete_event V L (tm_fd t1) = Inr (0, L')" "t' = t1"
    by (auto simp: bind_exec_eq_Inr)
  show "delete_event V L (tm_fd t) = Inr (0, L')" "tm_repeat t' = False" "tm_fd t' = tm_fd t" "tm_self t' = tm_self t"
    "tm_interval t' = tm_interval t" "tm_started t' = True"
    "settime None \<noteq> 0 \<or> \<not> tm_repeat t \<Longrightarrow> tm_armed t' = tm_armed t"
    using r f assms(2) by simp_all
qed

lemma timer_start_facts:
  assumes "timer_start V fmul settime t L = Inr (r, t', L')"
  shows "\<exists>ptime. timer_spec fmul t = Inr ptime \<and> settime (Some ptime) = 0 \<and> r = 0 \<and>
    register_event V L (tm_fd t) True False (tm_self t) = Inr (0, L') \<and>
    t' = t\<lparr>tm_armed := ptime, tm_started := True\<rparr>"
  using assms by (auto simp: timer_start_def Let_def bind_exec_eq_Inr)

section \<open>The timer as an event handler\<close>

text \<open>With an \<^verbatim>\<open>on_timer\<close> that does not restart its own timer.\<close>

lemma timer_stop_sync: "in_sync L \<Longrightarrow> timer_stop virt settime t L = Inr (t', L') \<Longrightarrow> in_sync L'"
proof (cases "tm_started t")
  case True
  assume "in_sync L" "timer_stop virt settime t L = Inr (t', L')"
  from any.delete_event_sync [OF this(1) timer_stop_facts(1) [OF this(2) True]] show ?thesis by blast
qed (simp add: timer_stop_def)

lemma run_tm_cmds_sync:
  "in_sync L \<Longrightarrow> Tm_Start \<notin> set cs \<Longrightarrow> run_tm_cmds virt fmul settime cs t L = Inr (t', L') \<Longrightarrow> in_sync L'"
proof (induction cs arbitrary: t L)
  case (Cons c cs)
  then show ?case by (cases c) (auto simp: bind_exec_eq_Inr dest: timer_stop_sync)
qed simp

definition never_restarts :: "(nat \<Rightarrow> 'u \<Rightarrow> 'u \<times> tm_cmd list) \<Rightarrow> nat \<Rightarrow> 'u \<Rightarrow> 'u \<times> tm_cmd list" where
  "never_restarts on_timer n u = (let (u', cs) = on_timer n u in (u', filter (\<lambda>c. c \<noteq> Tm_Start) cs))"

interpretation timer: event_handler in_sync "\<lambda>t L. sl_handlers L (tm_fd t) = Some (tm_self t)"
  "timer_handle_read virt fmul settime (never_restarts on_timer)" no_op_call no_op_call
  for fmul settime on_timer
proof (unfold_locales, goal_cases)
  case (1 L t answer t' L')
  then obtain n u cs t1 L1 where n: "never_restarts on_timer n (tm_user t) = (u, cs)"
    and r: "run_tm_cmds virt fmul settime cs (t\<lparr>tm_user := u\<rparr>) L = Inr (t1, L1)"
      "(if \<not> tm_repeat t1 then timer_stop virt settime t1 L1 else Inr (t1, L1)) = Inr (t', L')"
    by (auto simp: timer_handle_read_def bind_exec_eq_Inr split: sum.splits prod.splits)
  have "Tm_Start \<notin> set cs" using n by (auto simp: never_restarts_def split: prod.splits)
  from run_tm_cmds_sync [OF 1(1) this r(1)] r(2) show ?case by (auto dest: timer_stop_sync split: if_splits)
qed (auto simp: no_op_call_def)

section \<open>Properties\<close>

lemma timer_spec_result:
  "0 \<le> tm_interval t \<Longrightarrow> \<lfloor>tm_interval t\<rfloor> \<le> INT_MAX \<Longrightarrow> timer_spec fmul t = Inr
     \<lparr>it_interval = (if tm_repeat t then \<lparr>tv_sec = \<lfloor>tm_interval t\<rfloor>, tv_nsec = rat_trunc (fmul (frac (tm_interval t)) 1000000000)\<rparr>
        else \<lparr>tv_sec = 0, tv_nsec = 0\<rparr>),
      it_value = \<lparr>tv_sec = \<lfloor>tm_interval t\<rfloor>, tv_nsec = rat_trunc (fmul (frac (tm_interval t)) 1000000000)\<rparr>\<rparr>"
  using zero_le_floor [of "tm_interval t"]
  by (simp add: timer_spec_def double_to_int_def rat_trunc_def INT_MAX_def zero_itimerspec_def frac_def)

text \<open>
  A started timer is armed for its interval: the seconds are the whole part, the
  nanoseconds are in range (when the machine's product of a fraction and \<open>10\<^sup>9\<close> stays below
  \<open>10\<^sup>9\<close>) and are exact to a nanosecond when the product is; a repeating timer gets the same
  period, a one-shot timer none; and the descriptor is registered with the timer as its handler.
\<close>

theorem timer_start_arms:
  assumes "\<And>y. 0 \<le> y \<Longrightarrow> y < 1 \<Longrightarrow> 0 \<le> fmul y 1000000000 \<and> fmul y 1000000000 < 1000000000"
    and "0 \<le> tm_interval t" "timer_start V fmul settime t L = Inr (r, t', L')"
  shows "r = 0 \<and> tm_started t' \<and> register_event V L (tm_fd t) True False (tm_self t) = Inr (0, L') \<and>
    tv_sec (it_value (tm_armed t')) = \<lfloor>tm_interval t\<rfloor> \<and>
    0 \<le> tv_nsec (it_value (tm_armed t')) \<and> tv_nsec (it_value (tm_armed t')) < 1000000000 \<and>
    it_interval (tm_armed t') = (if tm_repeat t then it_value (tm_armed t') else \<lparr>tv_sec = 0, tv_nsec = 0\<rparr>) \<and>
    (fmul (frac (tm_interval t)) 1000000000 = frac (tm_interval t) * 1000000000 \<longrightarrow>
      tv_nsec (it_value (tm_armed t')) = \<lfloor>frac (tm_interval t) * 1000000000\<rfloor>)"
proof -
  let ?x = "tm_interval t"
  from timer_start_facts [OF assms(3)] obtain ptime where p: "timer_spec fmul t = Inr ptime" "r = 0"
    "register_event V L (tm_fd t) True False (tm_self t) = Inr (0, L')" "t' = t\<lparr>tm_armed := ptime, tm_started := True\<rparr>" by blast
  from p(1) have "\<lfloor>?x\<rfloor> \<le> INT_MAX"
    using assms(2) by (auto simp: timer_spec_def double_to_int_def bind_exec_eq_Inr rat_trunc_def)
  note spec = timer_spec_result [OF assms(2) this, of fmul]
  from assms(1) [of "frac ?x"] have f: "0 \<le> fmul (frac ?x) 1000000000" "fmul (frac ?x) 1000000000 < 1000000000"
    by (simp_all add: frac_lt_1)
  then have "0 \<le> rat_trunc (fmul (frac ?x) 1000000000)" "rat_trunc (fmul (frac ?x) 1000000000) < 1000000000"
    by (simp_all add: rat_trunc_def floor_less_iff)
  moreover have "rat_trunc (frac ?x * 1000000000) = \<lfloor>frac ?x * 1000000000\<rfloor>"
    using frac_ge_0 [of ?x] by (simp add: rat_trunc_def)
  ultimately show ?thesis using p spec by auto
qed

definition sample_timer :: "nat timer_handler" where
  "sample_timer = \<lparr>tm_self = 400, tm_fd = 6, tm_srv_loop = 50, tm_interval = 3 / 2, tm_repeat = True, tm_started = False,
     tm_user = 0, tm_armed = zero_itimerspec\<rparr>"

definition timer_loop :: "(dispatcher, nat) service_loop" where
  "timer_loop = sample_loop\<lparr>sl_dispatcher := Some (D_Epoll (sample_epoll\<lparr>ep_fd := 3, ep_fd_count := 2,
     ep_interest := [4 \<mapsto> EPOLLIN, 6 \<mapsto> EPOLLIN]\<rparr>)), sl_handlers := [4 \<mapsto> 100, 6 \<mapsto> 400]\<rparr>"

lemma timer_loop_register: "register_event virt sample_loop 6 True False 400 = Inr (0, timer_loop)"
  by (simp add: register_event_def the_dispatcher_def sample_loop_def timer_loop_def epoll_add_event_def
      epoll_events_cases epoll_count_inc_def sample_ctl_def INT_MAX_def wrap_result_def sample_epoll_def)

definition started_timer :: "nat timer_handler" where
  "started_timer = sample_timer\<lparr>tm_armed := \<lparr>it_interval = \<lparr>tv_sec = 1, tv_nsec = 500000000\<rparr>,
     it_value = \<lparr>tv_sec = 1, tv_nsec = 500000000\<rparr>\<rparr>, tm_started := True\<rparr>"

lemma sample_timer_start:
  "timer_start virt (\<lambda>x y. x * y) (\<lambda>v. if v = None then -1 else 0) sample_timer sample_loop =
     Inr (0, started_timer, timer_loop)"
proof -
  have fl: "\<lfloor>3 / 2 :: rat\<rfloor> = 1" by (simp add: floor_eq_iff)
  have "timer_spec (\<lambda>x y. x * y) sample_timer = Inr (tm_armed started_timer)"
    using timer_spec_result [of sample_timer "\<lambda>x y. x * y"]
    by (simp add: sample_timer_def started_timer_def fl INT_MAX_def frac_def rat_trunc_def)
  then show ?thesis
    using timer_loop_register by (simp add: timer_start_def sample_timer_def started_timer_def)
qed

theorem timer_start_arms_witness:
  "tv_nsec (it_value (tm_armed started_timer)) < 1000000000 \<and>
   register_event virt sample_loop 6 True False 400 = Inr (0, timer_loop)"
proof -
  have "0 \<le> y \<Longrightarrow> y < 1 \<Longrightarrow> 0 \<le> y * 1000000000 \<and> y * 1000000000 < 1000000000" for y :: rat by simp
  from timer_start_arms [OF this _ sample_timer_start]
  have "0 \<le> tm_interval sample_timer \<Longrightarrow> tv_nsec (it_value (tm_armed started_timer)) < 1000000000" by blast
  moreover have "0 \<le> tm_interval sample_timer" by (simp add: sample_timer_def)
  ultimately show ?thesis using timer_loop_register by blast
qed

text \<open>
  When a timer fires and \<^verbatim>\<open>on_timer\<close> makes no call on it, a repeating timer stays registered
  and a one-shot timer is unregistered; a read that fails stops the process at its assertion.
\<close>

theorem timer_fires:
  assumes "in_sync L" "tm_started t" "tm_srv_loop t \<noteq> NULL" "sl_handlers L (tm_fd t) = Some (tm_self t)"
    and "on_timer n (tm_user t) = (u, [])" "delete_event virt L (tm_fd t) = Inr (0, L0)"
  shows "\<exists>t' L'. timer_handle_read virt fmul settime on_timer (Inr n) t L = Inr (t', L') \<and> tm_user t' = u \<and> in_sync L' \<and>
      (if tm_repeat t then L' = L \<and> tm_repeat t' else sl_handlers L' = (sl_handlers L)(tm_fd t := None)) \<and>
    timer_handle_read virt fmul settime on_timer (Inl e) t L = Inl Assertion_Failed"
proof (cases "tm_repeat t")
  case True
  with assms(1,5) show ?thesis by (simp add: timer_handle_read_def)
next
  case False
  have "in_sync L0" "sl_handlers L0 = (sl_handlers L)(tm_fd t := None)"
    using any.delete_event_sync [OF assms(1,6)] by auto
  with False assms(2,3,5,6) show ?thesis by (simp add: timer_handle_read_def timer_stop_def)
qed

lemma timer_loop_sync [simp]: "in_sync timer_loop"
  by (auto simp: timer_loop_def loop_sync_def epoll_invar_def epoll_watched_def live_keys_def)

lemma timer_loop_delete: "delete_event virt timer_loop 6 =
   Inr (0, timer_loop\<lparr>sl_dispatcher := Some (D_Epoll (sample_epoll\<lparr>ep_fd := 3, ep_fd_count := 3,
     ep_interest := [4 \<mapsto> EPOLLIN, 6 \<mapsto> EPOLLIN](6 := None)\<rparr>)), sl_handlers := [4 \<mapsto> 100, 6 \<mapsto> 400](6 := None)\<rparr>)"
  by (simp add: delete_event_def the_dispatcher_def timer_loop_def epoll_del_event_def epoll_count_inc_def
      sample_ctl_def INT_MAX_def wrap_result_def sample_epoll_def Let_def)

theorem timer_fires_witness:
  "\<exists>t' L'. timer_handle_read virt (\<lambda>x y. x * y) (\<lambda>v. 0) (\<lambda>n u. (u + n, [])) (Inr 2) (started_timer\<lparr>tm_repeat := False\<rparr>) timer_loop
      = Inr (t', L') \<and> tm_user t' = 2 \<and> sl_handlers L' 6 = None"
proof -
  let ?t = "started_timer\<lparr>tm_repeat := False\<rparr>"
  have t: "tm_started ?t" "tm_srv_loop ?t \<noteq> NULL" "tm_fd ?t = 6" "tm_self ?t = 400" "tm_user ?t = 0" "\<not> tm_repeat ?t"
    by (simp_all add: started_timer_def sample_timer_def)
  have h: "sl_handlers timer_loop (tm_fd ?t) = Some (tm_self ?t)" unfolding t(3,4) by (simp add: timer_loop_def)
  have u: "(\<lambda>n u. (u + n, [])) 2 (tm_user ?t) = (2, [])" unfolding t(5) by simp
  from timer_fires [where on_timer = "\<lambda>n u. (u + n, [])", OF timer_loop_sync t(1,2) h u timer_loop_delete [folded t(3)],
      of "\<lambda>x y. x * y" "\<lambda>v. 0" 5] t(3,6)
  show ?thesis by fastforce
qed

text \<open>
  \<^verbatim>\<open>stop\<close> of a repeating timer unregisters it but does not disarm it: the kernel refuses
  the null pointer it is given and keeps the old setting. It also turns the timer into a
  one-shot timer for good: the next \<^verbatim>\<open>start\<close> arms no period.
\<close>

theorem timer_stop_does_not_disarm:
  assumes "settime None \<noteq> 0" "tm_started t" "tm_repeat t" "in_sync L" "timer_stop virt settime t L = Inr (t', L')"
  shows "in_sync L' \<and> sl_handlers L' (tm_fd t) = None \<and> tm_armed t' = tm_armed t \<and> \<not> tm_repeat t' \<and>
    (\<forall>r t2 L2. timer_start virt fmul settime t' L' = Inr (r, t2, L2) \<longrightarrow>
      it_interval (tm_armed t2) = \<lparr>tv_sec = 0, tv_nsec = 0\<rparr>)"
proof (intro conjI allI impI)
  note f = timer_stop_facts [OF assms(5,2)]
  from any.delete_event_sync [OF assms(4) f(1)] show "in_sync L'" "sl_handlers L' (tm_fd t) = None" by auto
  show "tm_armed t' = tm_armed t" "\<not> tm_repeat t'" using f(2,7) assms(1) by simp_all
  fix r t2 L2
  assume "timer_start virt fmul settime t' L' = Inr (r, t2, L2)"
  from timer_start_facts [OF this] f(2) show "it_interval (tm_armed t2) = \<lparr>tv_sec = 0, tv_nsec = 0\<rparr>"
    by (auto simp: timer_spec_def bind_exec_eq_Inr zero_itimerspec_def)
qed

theorem timer_stop_does_not_disarm_witness:
  "\<exists>t' L'. timer_stop virt (\<lambda>v. if v = None then -1 else 0) started_timer timer_loop = Inr (t', L') \<and>
     it_interval (tm_armed t') = \<lparr>tv_sec = 1, tv_nsec = 500000000\<rparr> \<and> sl_handlers L' 6 = None"
proof -
  obtain t' L' where s: "timer_stop virt (\<lambda>v. if v = None then -1 else 0) started_timer timer_loop = Inr (t', L')"
    using timer_loop_delete by (simp add: timer_stop_def started_timer_def sample_timer_def)
  from timer_stop_does_not_disarm [OF _ _ _ timer_loop_sync s] s show ?thesis
    by (auto simp: started_timer_def sample_timer_def)
qed

text \<open>
  A timer cannot be started again while it is registered: on the epoll dispatcher the
  second \<^verbatim>\<open>start\<close> (to change the interval, for instance) fails its assertion.
\<close>

theorem timer_restart_aborts:
  assumes "in_sync L" "sl_dispatcher L = Some (D_Epoll d)" "tm_fd t \<in> live_keys (sl_handlers L)"
    and "0 \<le> tm_interval t" "\<lfloor>tm_interval t\<rfloor> \<le> INT_MAX" "\<And>v. settime (Some v) = 0"
    and "tm_srv_loop t \<noteq> NULL" "tm_self t \<noteq> NULL" "tm_fd t > 0"
  shows "timer_start virt fmul settime t L = Inl Assertion_Failed"
proof -
  from assms(1-3) have "epoll_invar d" "ep_interest d (tm_fd t) \<noteq> None"
    by (auto simp: loop_sync_def epoll_watched_def)
  then have "ep_ctl d (ep_interest d) EPOLL_CTL_ADD (tm_fd t) \<noteq> 0"
    by (simp add: epoll_invar_def epoll_ctl_documented_def)
  with assms(2,8,9) have "\<exists>e L'. register_event virt L (tm_fd t) True False (tm_self t) = Inr (e, L') \<and> e \<noteq> 0"
    by (simp add: register_event_def the_dispatcher_def epoll_add_event_def epoll_events_cases wrap_result_def)
  with assms(4-7) show ?thesis
    by (auto simp: timer_start_def timer_spec_result)
qed

theorem timer_restart_aborts_witness:
  "timer_start virt (\<lambda>x y. x * y) (\<lambda>v. 0) started_timer timer_loop = Inl Assertion_Failed"
proof (rule timer_restart_aborts [OF timer_loop_sync])
  show "sl_dispatcher timer_loop = Some (D_Epoll (sample_epoll\<lparr>ep_fd := 3, ep_fd_count := 2,
     ep_interest := [4 \<mapsto> EPOLLIN, 6 \<mapsto> EPOLLIN]\<rparr>))" by (simp add: timer_loop_def)
qed (simp_all add: timer_loop_def started_timer_def sample_timer_def live_keys_def floor_le_iff INT_MAX_def)

end
