(* ===== verification/Timer_Program.thy ===== *)
theory Timer_Program
  imports Timer
begin

text \<open>
  The program of \<^verbatim>\<open>src/example/example-4.cc\<close>: a repeating timer of two seconds on an epoll loop, which prints
  a line each time it fires. The lines are pairs of the time and the number of expirations.
\<close>

section \<open>The program\<close>

type_synonym timer_line = "int \<times> nat"

text \<open>\<^verbatim>\<open>my_timer::on_timer\<close>; \<open>now\<close> is the answer of \<^verbatim>\<open>time(NULL)\<close>.\<close>

definition my_on_timer :: "int \<Rightarrow> nat \<Rightarrow> timer_line list \<Rightarrow> timer_line list \<times> tm_cmd list" where
  "my_on_timer now expire lines = (lines @ [(now, expire)], [])"

text \<open>The loop, the timer object, and the number of virtual calls so far.\<close>

record 'f timer_server = "(dispatcher, 'f) service_loop" +
  tv_timer :: "timer_line list timer_handler"
  tv_clock :: nat

text \<open>What the system answers during one virtual call.\<close>

record timer_io =
  ti_read :: "int + nat"
  ti_now :: int
  ti_eventfd :: "nat list \<Rightarrow> int + nat"

definition timer_invoke ::
  "(rat \<Rightarrow> rat \<Rightarrow> rat) \<Rightarrow> (itimerspec option \<Rightarrow> int) \<Rightarrow> (nat \<Rightarrow> timer_io) \<Rightarrow> ptr \<Rightarrow> int \<Rightarrow> 'f timer_server \<Rightarrow> 'f timer_server exec" where
  "timer_invoke fmul settime env p ev W =
     (let io = env (tv_clock W); W0 = W\<lparr>tv_clock := tv_clock W + 1\<rparr> in
      case sl_wakeup W0 of
        None \<Rightarrow> Inl Null_Deref
      | Some wk \<Rightarrow>
          if p = wk_self wk then
            (if ev = EVENT_READ
             then bind_exec (wakeup_handle_read (ti_eventfd io) wk) (\<lambda>wk'. Inr (W0\<lparr>sl_wakeup := Some wk'\<rparr>))
             else Inr W0)
          else if p = tm_self (tv_timer W0) then
            (if ev = EVENT_READ
             then bind_exec (timer_handle_read virt fmul settime (my_on_timer (ti_now io)) (ti_read io) (tv_timer W0) W0)
                    (\<lambda>(t, W1). Inr (W1\<lparr>tv_timer := t\<rparr>))
             else Inr W0)
          else Inl Use_After_Free)"

text \<open>The constructor of \<^verbatim>\<open>my_timer\<close> takes the interval as an \<^verbatim>\<open>int\<close>; nothing is printed yet.\<close>

definition my_timer_new :: "ptr \<Rightarrow> ptr \<Rightarrow> int \<Rightarrow> int \<Rightarrow> bool \<Rightarrow> timer_line list timer_handler exec" where
  "my_timer_new self loop create_answer interval repeat = timer_new self loop create_answer (of_int interval) repeat []"

text \<open>
  \<^verbatim>\<open>main\<close> up to \<^verbatim>\<open>loop.run()\<close>: the answers of the system for the loop and for \<^verbatim>\<open>timerfd_create\<close>, and the
  addresses of the objects.
\<close>

definition example4_open ::
  "epoll_ctl \<Rightarrow> int \<Rightarrow> int \<Rightarrow> ptr \<Rightarrow> int \<Rightarrow> (rat \<Rightarrow> rat \<Rightarrow> rat) \<Rightarrow> (itimerspec option \<Rightarrow> int) \<Rightarrow> ptr \<Rightarrow> ptr \<Rightarrow>
     (int \<times> 'f timer_server) exec" where
  "example4_open ctl ea ef wk_ptr tfd fmul settime loop_ptr timer_ptr =
     bind_exec (service_loop_new 2 ctl ea ef wk_ptr) (\<lambda>L.
     bind_exec (my_timer_new timer_ptr loop_ptr tfd 2 True) (\<lambda>t.
     bind_exec (timer_start virt fmul settime t L) (\<lambda>(r, t1, L1).
       Inr (r, \<lparr>sl_quit = sl_quit L1, sl_dispatcher = sl_dispatcher L1, sl_handlers = sl_handlers L1,
         sl_functors = sl_functors L1, sl_wakeup = sl_wakeup L1, tv_timer = t1, tv_clock = 0\<rparr>))))"

definition example4_main ::
  "epoll_ctl \<Rightarrow> int \<Rightarrow> int \<Rightarrow> ptr \<Rightarrow> int \<Rightarrow> (rat \<Rightarrow> rat \<Rightarrow> rat) \<Rightarrow> (itimerspec option \<Rightarrow> int) \<Rightarrow> ptr \<Rightarrow> ptr \<Rightarrow>
     (nat \<Rightarrow> timer_io) \<Rightarrow> ('f \<Rightarrow> 'f timer_server \<Rightarrow> 'f timer_server exec) \<Rightarrow> os_wait list \<Rightarrow> int exec" where
  "example4_main ctl ea ef wk_ptr tfd fmul settime loop_ptr timer_ptr env call oss =
     bind_exec (example4_open ctl ea ef wk_ptr tfd fmul settime loop_ptr timer_ptr) (\<lambda>(r, W).
       if 0 = r then bind_exec (run_loop virt (timer_invoke fmul settime env) call oss W) (\<lambda>_. Inr 0) else Inr 0)"

text \<open>The state before the next wait, when the list of waits has been used up.\<close>

fun run_rounds ::
  "'d vtable \<Rightarrow> ('d, 'f, 'z) invoke \<Rightarrow>
     ('f \<Rightarrow> ('d, 'f, 'z) service_loop_scheme \<Rightarrow> ('d, 'f, 'z) service_loop_scheme exec) \<Rightarrow> os_wait list \<Rightarrow> int \<Rightarrow>
     ('d, 'f, 'z) service_loop_scheme \<Rightarrow> (int \<times> ('d, 'f, 'z) service_loop_scheme) exec" where
  "run_rounds V invoke call [] t L = Inr (t, L)"
| "run_rounds V invoke call (os # oss) t L =
     bind_exec (loop_iteration V invoke call os t L) (\<lambda>(t', L'). run_rounds V invoke call oss t' L')"

section \<open>The timer goes on ticking\<close>

text \<open>
  The documented behaviour of \<^verbatim>\<open>epoll_wait\<close> for the program's two descriptors: nothing is ever written to the
  eventfd, and a timer is only ever readable.
\<close>

definition timer_wait :: "int \<Rightarrow> os_wait \<Rightarrow> bool" where
  "timer_wait tfd os \<longleftrightarrow> (\<forall>n t evs. os_epoll_wait os n t = Inr evs \<longrightarrow> evs = [] \<or> n > 0 \<and> evs = [(tfd, EPOLLIN)])"

text \<open>The lines for the first \<open>k\<close> expirations.\<close>

definition ticked :: "(nat \<Rightarrow> timer_io) \<Rightarrow> nat \<Rightarrow> timer_line list" where
  "ticked env k = map (\<lambda>i. (ti_now (env i), case ti_read (env i) of Inl e \<Rightarrow> 0 | Inr n \<Rightarrow> n)) [0..<k]"

lemma ticked_Suc: "ti_read (env k) = Inr n \<Longrightarrow> ticked env (Suc k) = ticked env k @ [(ti_now (env k), n)]"
  by (simp add: ticked_def)

definition ticking :: "(nat \<Rightarrow> timer_io) \<Rightarrow> timer_line list timer_handler \<Rightarrow> 'f timer_server \<Rightarrow> bool" where
  "ticking env t W \<longleftrightarrow> \<not> sl_quit W \<and> sl_functors W = [] \<and> tm_self t \<noteq> NULL \<and> tm_repeat t \<and>
     sl_handlers W (tm_fd t) = Some (tm_self t) \<and> (\<exists>wk. sl_wakeup W = Some wk \<and> wk_self wk \<noteq> tm_self t) \<and>
     (\<exists>d. sl_dispatcher W = Some (D_Epoll d) \<and> ep_fd_count d > 0) \<and>
     tv_timer W = t\<lparr>tm_user := ticked env (tv_clock W)\<rparr>"

lemma ticking_wait:
  "ticking env t W \<Longrightarrow> ep_fd_count d > 0 \<Longrightarrow> ticking env t (W\<lparr>sl_dispatcher := Some (D_Epoll d)\<rparr>)"
  by (simp add: ticking_def)

lemma ticking_event:
  assumes "ticking env t W" "ti_read (env (tv_clock W)) = Inr n"
  shows "\<exists>W'. dispatch_event (timer_invoke fmul settime env) (tm_fd t) EVENT_READ W = Inr W' \<and> ticking env t W'"
proof -
  from assms(1) obtain wk where wk: "sl_wakeup W = Some wk" "wk_self wk \<noteq> tm_self t" by (auto simp: ticking_def)
  let ?W = "W\<lparr>tv_clock := tv_clock W + 1, tv_timer := t\<lparr>tm_user := ticked env (tv_clock W) @ [(ti_now (env (tv_clock W)), n)]\<rparr>\<rparr>"
  have "map_index (sl_handlers W) (tm_fd t) = (tm_self t, sl_handlers W)" using assms(1) by (simp add: map_index_def ticking_def)
  moreover have "timer_invoke fmul settime env (tm_self t) EVENT_READ W = Inr ?W"
    using assms wk by (simp add: timer_invoke_def ticking_def timer_handle_read_def my_on_timer_def)
  moreover have "W\<lparr>sl_handlers := sl_handlers W\<rparr> = W" by simp
  ultimately have "dispatch_event (timer_invoke fmul settime env) (tm_fd t) EVENT_READ W = Inr ?W"
    using assms(1) by (simp add: dispatch_event_def event_defs ticking_def)
  moreover have "ticking env t ?W" using assms ticked_Suc [of env "tv_clock W" n] by (simp add: ticking_def)
  ultimately show ?thesis by blast
qed

lemma ticking_iteration:
  assumes "ticking env t W" "timer_wait (tm_fd t) os" "\<And>k. \<exists>n. ti_read (env k) = Inr n"
  shows "\<exists>m W'. loop_iteration virt (timer_invoke fmul settime env) call os tmo W = Inr (m, W') \<and> ticking env t W'"
proof -
  from assms(1) obtain d where d: "sl_dispatcher W = Some (D_Epoll d)" "ep_fd_count d > 0" by (auto simp: ticking_def)
  have body: "\<exists>m W'. loop_iteration virt (timer_invoke fmul settime env) call os tmo W = Inr (m, W') \<and> ticking env t W'"
    if "epoll_handle_events d os [] tmo = Inr (ret, ready, d')" "ep_fd_count d' > 0"
      "dispatch_ready (timer_invoke fmul settime env) ready (W\<lparr>sl_dispatcher := Some (D_Epoll d')\<rparr>) = Inr W'" "ticking env t W'"
    for ret ready d' W'
  proof -
    have "drain_functors call W' = Some (Inr W')" using that(4) by (simp add: ticking_def drain_functors_Nil)
    with that d show ?thesis by (simp add: loop_iteration_def the_dispatcher_def wrap_ready_def)
  qed
  consider (fail) e where "os_epoll_wait os (ep_fd_count d) tmo = Inl e"
    | (none) "os_epoll_wait os (ep_fd_count d) tmo = Inr []"
    | (tick) "os_epoll_wait os (ep_fd_count d) tmo = Inr [(tm_fd t, EPOLLIN)]"
    using assms(2) by (cases "os_epoll_wait os (ep_fd_count d) tmo") (auto simp: timer_wait_def)
  then show ?thesis
  proof cases
    case fail
    with d have "epoll_handle_events d os [] tmo = Inr (-1, [], d\<lparr>ep_last_errno := e\<rparr>)" by (simp add: epoll_handle_events_def)
    from body [OF this] ticking_wait [OF assms(1), of "d\<lparr>ep_last_errno := e\<rparr>"] d(2) show ?thesis by simp
  next
    case none
    with d have "epoll_handle_events d os [] tmo = Inr (0, [], d)" by (simp add: epoll_handle_events_def)
    from body [OF this] ticking_wait [OF assms(1) d(2)] d(2) show ?thesis by simp
  next
    case tick
    have "epoll_events_of (tm_fd t, EPOLLIN) = [(tm_fd t, EVENT_READ)]" by (simp add: epoll_events_of_def epoll_flag_defs)
    with tick d have r: "epoll_handle_events d os [] tmo = Inr (1, [(tm_fd t, EVENT_READ)], d)"
      by (simp add: epoll_handle_events_def)
    let ?W = "W\<lparr>sl_dispatcher := Some (D_Epoll d)\<rparr>"
    obtain n where n: "ti_read (env (tv_clock ?W)) = Inr n" using assms(3) by blast
    from ticking_event [OF ticking_wait [OF assms(1) d(2)] n] obtain W' where
      "dispatch_event (timer_invoke fmul settime env) (tm_fd t) EVENT_READ ?W = Inr W'" "ticking env t W'" by blast
    with body [OF r d(2)] show ?thesis by simp
  qed
qed

lemma ticking_rounds:
  assumes "\<And>k. \<exists>n. ti_read (env k) = Inr n"
  shows "ticking env t W \<Longrightarrow> list_all (timer_wait (tm_fd t)) oss \<Longrightarrow>
    \<exists>m W'. run_rounds virt (timer_invoke fmul settime env) call oss tmo W = Inr (m, W') \<and> ticking env t W' \<and>
      loop_run virt (timer_invoke fmul settime env) call oss tmo W = Inl Pending"
proof (induction oss arbitrary: tmo W)
  case Nil
  then show ?case by (simp add: ticking_def)
next
  case (Cons os oss)
  then have "timer_wait (tm_fd t) os" "\<not> sl_quit W" by (simp_all add: ticking_def)
  with ticking_iteration [OF Cons.prems(1) _ assms, of os fmul settime call tmo] obtain m W' where
    "loop_iteration virt (timer_invoke fmul settime env) call os tmo W = Inr (m, W')" "ticking env t W'" by blast
  with Cons.IH [of W' m] Cons.prems(2) \<open>\<not> sl_quit W\<close> show ?case by simp
qed

section \<open>Properties\<close>

definition two_seconds :: itimerspec where
  "two_seconds = \<lparr>it_interval = \<lparr>tv_sec = 2, tv_nsec = 0\<rparr>, it_value = \<lparr>tv_sec = 2, tv_nsec = 0\<rparr>\<rparr>"

lemma example4_open_ticking:
  assumes "epoll_ctl_documented ctl" "wk_ptr \<noteq> timer_ptr" "tfd \<noteq> ef" "fmul 0 1000000000 = 0"
    and "example4_open ctl ea ef wk_ptr tfd fmul settime loop_ptr timer_ptr = Inr (r, W)"
  obtains t where "r = 0" "ticking env t W" "tm_fd t = tfd" "tm_self t = timer_ptr" "tm_armed t = two_seconds"
proof -
  from assms(5) obtain L t0 t1 L1 where L: "service_loop_new 2 ctl ea ef wk_ptr = Inr L"
    and t0: "timer_new timer_ptr loop_ptr tfd 2 True [] = Inr t0" and st: "timer_start virt fmul settime t0 L = Inr (r, t1, L1)"
    and W: "W = \<lparr>sl_quit = sl_quit L1, sl_dispatcher = sl_dispatcher L1, sl_handlers = sl_handlers L1,
         sl_functors = sl_functors L1, sl_wakeup = sl_wakeup L1, tv_timer = t1, tv_clock = 0\<rparr>"
    by (auto simp: example4_open_def my_timer_new_def bind_exec_eq_Inr)
  from t0 have t0': "tm_self t0 = timer_ptr" "tm_fd t0 = tfd" "tm_repeat t0" "tm_user t0 = []" "tm_interval t0 = 2"
    by (auto simp: timer_new_def bind_exec_eq_Inr)
  from timer_start_facts [OF st] obtain ptime where p: "timer_spec fmul t0 = Inr ptime" "r = 0"
    "register_event virt L tfd True False timer_ptr = Inr (0, L1)" "t1 = t0\<lparr>tm_armed := ptime, tm_started := True\<rparr>"
    using t0' by auto
  have fl: "\<lfloor>2 :: rat\<rfloor> = 2" "frac (2 :: rat) = 0" by (simp_all add: frac_def)
  have "ptime = two_seconds"
    using p(1) timer_spec_result [of t0 fmul] t0'(3,5) assms(4) fl by (simp add: INT_MAX_def rat_trunc_def two_seconds_def)
  note f = service_loop_new_facts [OF L assms(1)]
  from L obtain d where d: "sl_dispatcher L = Some (D_Epoll d)"
    by (auto simp: service_loop_new_def wakeup_new_def wakeup_open_def create_dispatcher_def bind_exec_eq_Inr
        dest!: register_event_handlers)
  from register_event_handlers [OF p(3)] d obtain d1 hs where
    L1: "L1 = L\<lparr>sl_dispatcher := Some (D_Epoll d1), sl_handlers := hs\<rparr>" "timer_ptr \<noteq> NULL" by auto
  have "tfd \<notin> live_keys (sl_handlers L)" using f(2) assms(3) by (simp add: live_keys_def)
  from any.register_event_sync [OF f(1) this p(3)] have s: "in_sync L1" "sl_handlers L1 = (sl_handlers L)(tfd \<mapsto> timer_ptr)" by auto
  with L1 have inv: "epoll_invar d1" "epoll_watched d1 \<noteq> {}" by (auto simp: loop_sync_def live_keys_def)
  then have "0 < card (epoll_watched d1)" by (simp add: epoll_invar_def card_gt_0_iff)
  with inv(1) have "ep_fd_count d1 > 0" unfolding epoll_invar_def by linarith
  with L1(1,2) s(2) f(3-5) t0' p(4) assms(2) have "ticking env t1 W" by (simp add: ticking_def W ticked_def)
  with that p(2,4) t0' \<open>ptime = two_seconds\<close> show ?thesis by simp
qed


definition tick_io :: timer_io where
  "tick_io = \<lparr>ti_read = Inr 1, ti_now = 1000, ti_eventfd = (\<lambda>_. Inl EWOULDBLOCK)\<rparr>"

definition tick_os :: os_wait where
  "tick_os = \<lparr>os_select = (\<lambda>_ _ _ _ _. Inl EBADF), os_poll = (\<lambda>_ _. Inl EBADF),
     os_epoll_wait = (\<lambda>n t. if n \<le> 0 then Inl EINVAL else Inr [(6, EPOLLIN)])\<rparr>"


end
