(* ===== verification/Stream_Buffer.thy ===== *)
theory Stream_Buffer
  imports Net_Prelude
begin

text \<open>
  The buffers of \<^verbatim>\<open>src/net/stream_buffer.h\<close> and \<^verbatim>\<open>.cc\<close>. Both classes keep a
  \<^verbatim>\<open>std::stringstream\<close>; the model keeps what the code uses of it, the character
  sequence and the put position, because \<^verbatim>\<open>str(s)\<close> on a stream opened without
  \<^verbatim>\<open>ios::ate\<close> moves the put position back to the beginning.
\<close>

section \<open>std::stringstream\<close>

record stringstream =
  ss_buf :: bytes
  ss_put :: nat

definition ss_new :: stringstream where
  "ss_new = \<lparr>ss_buf = [], ss_put = 0\<rparr>"

definition ss_str :: "stringstream \<Rightarrow> bytes" where
  "ss_str s = ss_buf s"

definition ss_set_str :: "stringstream \<Rightarrow> bytes \<Rightarrow> stringstream" where
  "ss_set_str s v = s\<lparr>ss_buf := v, ss_put := 0\<rparr>"

definition ss_write :: "stringstream \<Rightarrow> bytes \<Rightarrow> stringstream" where
  "ss_write s d = s\<lparr>ss_buf := take (ss_put s) (ss_buf s) @ d @ drop (ss_put s + length d) (ss_buf s),
                    ss_put := ss_put s + length d\<rparr>"

section \<open>stream_buffer\<close>

definition sb_new :: stringstream where
  "sb_new = ss_new"

definition sb_copy :: "stringstream \<Rightarrow> stringstream" where
  "sb_copy sb = (let s = ss_set_str ss_new []; str = ss_str sb in ss_write s str)"

definition sb_to_string :: "stringstream \<Rightarrow> bytes" where
  "sb_to_string s = ss_str s"

definition sb_clear :: "stringstream \<Rightarrow> stringstream" where
  "sb_clear s = ss_set_str s []"

definition sb_ignore :: "stringstream \<Rightarrow> int \<Rightarrow> stringstream" where
  "sb_ignore s n =
     (let tmp = ss_str s in
      if 0 \<le> n \<and> n \<le> c_int (int (length tmp)) then ss_set_str s (drop (nat n) tmp) else s)"

definition sb_length :: "stringstream \<Rightarrow> nat" where
  "sb_length s = length (ss_str s)"

section \<open>input_stream_buffer\<close>

text \<open>
  One answer of \<^verbatim>\<open>recv(2)\<close>: an errno, or the bytes it stored (none at end of
  stream). The loop consumes the answers of its successive calls; when they run
  out the call is still \<open>Pending\<close>. The result is the returned \<^verbatim>\<open>int\<close>, the saved
  errno if one was stored, the buffer, and the answers left for later calls.
\<close>

datatype recv_answer = Recv_Error int | Recv_Data bytes

definition RECV_LEN :: nat where
  "RECV_LEN = 64 * 1024"

fun isb_read_loop ::
  "stringstream \<Rightarrow> int \<Rightarrow> recv_answer list \<Rightarrow>
     (int \<times> int option \<times> stringstream \<times> recv_answer list) exec" where
  "isb_read_loop s read_bytes [] = Inl Pending"
| "isb_read_loop s read_bytes (Recv_Error e # as) = Inr (-1, Some e, s, as)"
| "isb_read_loop s read_bytes (Recv_Data d # as) =
     (if d = [] then Inr (read_bytes, None, s, as)
      else
        let s' = ss_write s d; n = read_bytes + int (length d) in
        if n > INT_MAX then Inl Signed_Overflow
        else if length d < RECV_LEN then Inr (n, None, s', as)
        else isb_read_loop s' n as)"

definition isb_read ::
  "stringstream \<Rightarrow> recv_answer list \<Rightarrow>
     (int \<times> int option \<times> stringstream \<times> recv_answer list) exec" where
  "isb_read s as = isb_read_loop s 0 as"

text \<open>The same equations with the lengths compared as integers, for evaluation.\<close>

lemma isb_read_loop_code [code]:
  "isb_read_loop s n [] = Inl Pending"
  "isb_read_loop s n (Recv_Error e # as) = Inr (-1, Some e, s, as)"
  "isb_read_loop s n (Recv_Data d # as) =
     (if d = [] then Inr (n, None, s, as)
      else if n + int (length d) > INT_MAX then Inl Signed_Overflow
      else if int (length d) < 65536 then Inr (n + int (length d), None, ss_write s d, as)
      else isb_read_loop (ss_write s d) (n + int (length d)) as)"
  by (simp_all add: Let_def RECV_LEN_def)

section \<open>output_stream_buffer\<close>

definition osb_empty :: "stringstream \<Rightarrow> bool" where
  "osb_empty s \<longleftrightarrow> ss_str s = []"

definition osb_put :: "stringstream \<Rightarrow> bytes \<Rightarrow> stringstream" where
  "osb_put s d = ss_write s d"

text \<open>\<^verbatim>\<open>put(ptr, len)\<close> reads \<open>len\<close> characters from \<open>ptr\<close>, however many there are.\<close>

definition osb_put_chars :: "stringstream \<Rightarrow> bytes \<Rightarrow> nat \<Rightarrow> stringstream exec" where
  "osb_put_chars s ptr len = bind_exec (check (len \<le> length ptr) Out_Of_Range) (\<lambda>_. Inr (ss_write s (take len ptr)))"

text \<open>The constructors and the destructor of the two classes.\<close>

definition isb_new :: stringstream where
  "isb_new = sb_new"

definition isb_copy :: "stringstream \<Rightarrow> stringstream" where
  "isb_copy sb = sb_copy sb"

definition osb_new :: stringstream where
  "osb_new = sb_new"

definition osb_copy :: "stringstream \<Rightarrow> stringstream" where
  "osb_copy sb = sb_copy sb"

definition sb_delete :: "stringstream \<Rightarrow> stringstream" where
  "sb_delete s = sb_clear s"

lemmas ss_defs = ss_new_def ss_str_def ss_set_str_def ss_write_def
lemmas sb_defs = sb_new_def sb_copy_def sb_to_string_def sb_clear_def sb_ignore_def
  sb_length_def osb_empty_def osb_put_def

section \<open>Well-formed streams and appending streams\<close>

text \<open>
  \<open>ss_ok\<close>: the put position never passes the end (every operation keeps it).
  \<open>at_end\<close>: a write appends. Only streams that are \<open>at_end\<close> behave as queues.
\<close>

definition ss_ok :: "stringstream \<Rightarrow> bool" where
  "ss_ok s \<longleftrightarrow> ss_put s \<le> length (ss_buf s)"

definition at_end :: "stringstream \<Rightarrow> bool" where
  "at_end s \<longleftrightarrow> ss_put s = length (ss_buf s)"

lemma at_end_ok: "at_end s \<Longrightarrow> ss_ok s"
  by (simp add: at_end_def ss_ok_def)

lemma sb_new_at_end [inv_intros, simp]: "at_end sb_new"
  by (simp add: at_end_def sb_defs ss_defs)

lemma sb_clear_at_end [inv_intros, simp]: "at_end (sb_clear s)"
  by (simp add: at_end_def sb_defs ss_defs)

lemma sb_clear_str [simp]: "ss_str (sb_clear s) = []"
  by (simp add: sb_defs ss_defs)

lemma ss_write_ok [inv_intros]: "ss_ok s \<Longrightarrow> ss_ok (ss_write s d)"
  by (simp add: ss_ok_def ss_write_def)

lemma ss_write_at_end [inv_intros]: "at_end s \<Longrightarrow> at_end (ss_write s d)"
  by (simp add: at_end_def ss_write_def)

lemma ss_write_append: "at_end s \<Longrightarrow> ss_str (ss_write s d) = ss_str s @ d"
  by (simp add: at_end_def ss_str_def ss_write_def)

lemma sb_ignore_ok [inv_intros]: "ss_ok s \<Longrightarrow> ss_ok (sb_ignore s n)"
  by (simp add: ss_ok_def sb_ignore_def ss_set_str_def Let_def)

lemma sb_ignore_str:
  "0 \<le> n \<Longrightarrow> n \<le> int (length (ss_str s)) \<Longrightarrow> int (length (ss_str s)) \<le> INT_MAX \<Longrightarrow>
   ss_str (sb_ignore s n) = drop (nat n) (ss_str s)"
  by (simp add: sb_ignore_def ss_set_str_def Let_def ss_str_def)

lemma empty_at_end: "ss_ok s \<Longrightarrow> ss_str s = [] \<Longrightarrow> at_end s"
  by (simp add: ss_ok_def at_end_def ss_str_def)

text \<open>
  A copy has the content and appends whatever the original's put position was; \<^verbatim>\<open>put\<close> of a whole
  array is \<^verbatim>\<open>put\<close> of the string.
\<close>

lemma copy_at_end: "at_end (sb_copy sb)" "ss_str (sb_copy sb) = ss_str sb"
  by (simp_all add: sb_copy_def ss_set_str_def ss_new_def ss_write_def ss_str_def at_end_def Let_def)

lemma buffer_copies:
  "at_end (isb_copy sb) \<and> ss_str (isb_copy sb) = ss_str sb" "at_end (osb_copy sb) \<and> ss_str (osb_copy sb) = ss_str sb"
  by (simp_all add: isb_copy_def osb_copy_def copy_at_end)

lemma osb_put_chars_all: "osb_put_chars s d (length d) = Inr (osb_put s d)"
  by (simp add: osb_put_chars_def osb_put_def)

section \<open>The byte-buffer contract\<close>

text \<open>
  What a connection expects of its buffers: \<open>put\<close> appends and \<open>ignore\<close> drops a
  prefix. \<open>appends\<close> is the provider's condition under which \<open>put\<close> is an append.
\<close>

locale byte_buffer =
  fixes view :: "'b \<Rightarrow> bytes"
    and put :: "'b \<Rightarrow> bytes \<Rightarrow> 'b"
    and ignore :: "'b \<Rightarrow> int \<Rightarrow> 'b"
    and appends :: "'b \<Rightarrow> bool"
    and ok :: "'b \<Rightarrow> bool"
  assumes view_put: "appends b \<Longrightarrow> view (put b d) = view b @ d"
    and appends_put: "appends b \<Longrightarrow> appends (put b d)"
    and ok_put: "ok b \<Longrightarrow> ok (put b d)"
    and ok_ignore: "ok b \<Longrightarrow> ok (ignore b n)"
    and view_ignore: "int (length (view b)) \<le> INT_MAX \<Longrightarrow> 0 \<le> n \<Longrightarrow> n \<le> int (length (view b)) \<Longrightarrow>
      view (ignore b n) = drop (nat n) (view b)"
    and drained_appends: "ok b \<Longrightarrow> view b = [] \<Longrightarrow> appends b"
begin

lemma view_put_list: "appends b \<Longrightarrow> view (foldl put b ds) = view b @ concat ds"
  by (induction ds arbitrary: b) (simp_all add: view_put appends_put)

lemma drain_then_put:
  assumes "ok b" and "int (length (view b)) \<le> INT_MAX"
  shows "view (foldl put (ignore b (int (length (view b)))) ds) = concat ds"
proof -
  have "view (ignore b (int (length (view b)))) = []"
    using assms(2) by (simp add: view_ignore)
  moreover from this assms(1) have "appends (ignore b (int (length (view b))))"
    by (simp add: drained_appends ok_ignore)
  ultimately show ?thesis by (simp add: view_put_list)
qed

end

interpretation osb: byte_buffer ss_str osb_put sb_ignore at_end ss_ok
  by unfold_locales
    (auto simp: osb_put_def ss_write_append ss_write_at_end ss_write_ok sb_ignore_ok
      sb_ignore_str empty_at_end)

section \<open>Properties\<close>

text \<open>The bytes the kernel hands to one \<^verbatim>\<open>read\<close> call.\<close>

fun recv_prefix :: "recv_answer list \<Rightarrow> bytes" where
  "recv_prefix [] = []"
| "recv_prefix (Recv_Error e # as) = []"
| "recv_prefix (Recv_Data d # as) = (if length d < RECV_LEN then d else d @ recv_prefix as)"

lemma recv_prefix_code [code]:
  "recv_prefix [] = []"
  "recv_prefix (Recv_Error e # as) = []"
  "recv_prefix (Recv_Data d # as) = (if int (length d) < 65536 then d else d @ recv_prefix as)"
  by (simp_all add: RECV_LEN_def)

fun last_answer :: "recv_answer \<Rightarrow> bool" where
  "last_answer (Recv_Error e) = True"
| "last_answer (Recv_Data d) = (length d < RECV_LEN)"

lemma isb_read_loop_spec:
  assumes "at_end s" and "\<exists>a\<in>set as. last_answer a"
    and "0 \<le> n" and "n + int (length (recv_prefix as)) \<le> INT_MAX"
  shows "\<exists>r e s' rest. isb_read_loop s n as = Inr (r, e, s', rest) \<and>
    ss_str s' = ss_str s @ recv_prefix as \<and> at_end s' \<and>
    (case e of Some x \<Rightarrow> r = -1 | None \<Rightarrow> r = n + int (length (recv_prefix as)))"
  using assms
proof (induction s n as rule: isb_read_loop.induct)
  case (3 s n d as)
  show ?case
  proof (cases "length d < RECV_LEN")
    case True
    with 3 show ?thesis
      by (auto simp: Let_def ss_write_append ss_write_at_end)
  next
    case False
    then have d: "d \<noteq> []" by (auto simp: RECV_LEN_def)
    with False 3 obtain r e s' rest where
      "isb_read_loop (ss_write s d) (n + int (length d)) as = Inr (r, e, s', rest)"
      "ss_str s' = (ss_str s @ d) @ recv_prefix as" "at_end s'"
      "case e of Some x \<Rightarrow> r = -1 | None \<Rightarrow> r = n + int (length d) + int (length (recv_prefix as))"
      by (fastforce simp: Let_def ss_write_append ss_write_at_end)
    with False d "3.prems" show ?thesis
      by (cases e) (simp_all add: Let_def)
  qed
qed simp_all



text \<open>
  An output buffer that has been drained completely (and any buffer in append
  position) is a byte queue: after \<open>ignore\<close> of the whole content, a series of \<open>put\<close>
  calls leaves exactly their concatenation.
\<close>

theorem osb_drained_is_queue:
  assumes "ss_ok s" and "int (sb_length s) \<le> INT_MAX"
  shows "sb_to_string (foldl osb_put (sb_ignore s (int (sb_length s))) ds) = concat ds"
  using osb.drain_then_put [of s ds] assms by (simp add: sb_length_def sb_to_string_def)

theorem osb_drained_is_queue_witness:
  "sb_to_string (foldl osb_put (sb_ignore (osb_put sb_new [1, 2]) 2) [[3], [4, 5]]) = [3, 4, 5]"
  using osb_drained_is_queue [of "osb_put sb_new [1, 2]" "[[3], [4, 5]]"]
  by (simp add: sb_defs ss_defs ss_ok_def INT_MAX_def)

text \<open>
  After a partial \<open>ignore\<close> (some bytes are left) the next \<open>put\<close> does not append:
  \<^verbatim>\<open>str(s)\<close> has moved the put position to 0, so the new bytes overwrite the oldest unsent
  ones, and the buffer does not grow while the new data fits into the old.
\<close>

theorem osb_put_after_partial_ignore:
  assumes "0 \<le> n" and "n < int (sb_length s)" and "int (sb_length s) \<le> INT_MAX"
  shows "sb_to_string (osb_put (sb_ignore s n) d) = d @ drop (nat n + length d) (sb_to_string s)"
  using assms by (simp add: sb_defs ss_defs add.commute)

theorem osb_put_after_partial_ignore_witness:
  "sb_to_string (osb_put (sb_ignore (osb_put sb_new [1, 2, 3, 4]) 1) [9]) = [9, 3, 4]"
  using osb_put_after_partial_ignore [of 1 "osb_put sb_new [1, 2, 3, 4]" "[9]"]
  by (simp add: sb_defs ss_defs INT_MAX_def)

text \<open>
  \<open>ignore\<close> compares its argument with the size cast to \<^verbatim>\<open>int\<close>: for a buffer of
  \<open>2\<^sup>3\<^sup>1\<close> to \<open>2\<^sup>3\<^sup>2 - 1\<close> bytes the cast is negative and every \<open>ignore\<close> is lost; up to
  \<open>2\<^sup>3\<^sup>1 - 1\<close> bytes it drops exactly the requested prefix, and out-of-range requests are no-ops.
\<close>

theorem sb_ignore_cases:
  "(int (sb_length s) \<le> INT_MAX \<longrightarrow>
      sb_to_string (sb_ignore s n) =
        (if 0 \<le> n \<and> n \<le> int (sb_length s) then drop (nat n) (sb_to_string s) else sb_to_string s)) \<and>
   (INT_MAX < int (sb_length s) \<and> int (sb_length s) \<le> 2 * INT_MAX + 1 \<longrightarrow> sb_ignore s n = s)"
proof (intro conjI impI)
  show "sb_to_string (sb_ignore s n) =
        (if 0 \<le> n \<and> n \<le> int (sb_length s) then drop (nat n) (sb_to_string s) else sb_to_string s)"
    if "int (sb_length s) \<le> INT_MAX"
    using that by (simp add: sb_defs ss_defs Let_def)
next
  assume "INT_MAX < int (sb_length s) \<and> int (sb_length s) \<le> 2 * INT_MAX + 1"
  then have "c_int (int (sb_length s)) < 0" by (intro c_int_nat_wraps) simp_all
  then have "\<not> (0 \<le> n \<and> n \<le> c_int (int (sb_length s)))" by linarith
  then show "sb_ignore s n = s"
    unfolding sb_ignore_def sb_length_def Let_def by (rule if_not_P)
qed

theorem sb_ignore_cases_witness:
  "sb_ignore \<lparr>ss_buf = replicate 2147483648 0, ss_put = 0\<rparr> 5 = \<lparr>ss_buf = replicate 2147483648 0, ss_put = 0\<rparr> \<and>
   sb_to_string (sb_ignore (osb_put sb_new [1, 2, 3]) 2) = [3]"
  using sb_ignore_cases [of "\<lparr>ss_buf = replicate 2147483648 0, ss_put = 0\<rparr>" 5]
    sb_ignore_cases [of "osb_put sb_new [1, 2, 3]" 2]
  by (simp add: sb_length_def ss_str_def INT_MAX_def sb_to_string_def osb_put_def sb_new_def ss_new_def
      ss_write_def)

end
