(* ===== verification/Connection.thy ===== *)
theory Connection
  imports Event_Handler Socket_Addr Stream_Buffer
begin

text \<open>
  \<^verbatim>\<open>src/net/connection_handler.cc\<close> and \<^verbatim>\<open>.h\<close>. The class is abstract: the three pure virtual
  methods of the subclass are a record of functions, the subclass's own data is the type \<open>'u\<close>.
  Those methods can act on the connection only through its public \<^verbatim>\<open>send\<close> and \<^verbatim>\<open>close\<close> (the
  buffers are private), so a method returns the list of these calls it makes, in order.
\<close>

section \<open>State\<close>

datatype conn_cmd = Cmd_Send bytes | Cmd_Close

record 'u callbacks =
  on_connect :: "socket_address \<Rightarrow> 'u \<Rightarrow> 'u \<times> conn_cmd list"
  on_read :: "bytes \<Rightarrow> 'u \<Rightarrow> 'u \<times> conn_cmd list \<times> int"
  on_close :: "'u \<Rightarrow> 'u"

text \<open>
  Ghost fields: \<open>cn_live\<close> is cleared by \<^verbatim>\<open>delete this\<close>; \<open>cn_sent\<close> are the bytes the kernel
  has accepted. \<open>cn_srv_loop\<close> is the pointer; the loop it points to is passed beside it.
\<close>

record 'u connection =
  cn_self :: ptr
  cn_remote :: socket_address
  cn_srv_loop :: ptr
  cn_in :: stringstream
  cn_out :: stringstream
  cn_user :: 'u
  cn_live :: bool
  cn_sent :: bytes

definition connection_new :: "ptr \<Rightarrow> 'u \<Rightarrow> 'u connection" where
  "connection_new self u = \<lparr>cn_self = self, cn_remote = socket_address_new, cn_srv_loop = NULL,
     cn_in = sb_new, cn_out = sb_new, cn_user = u, cn_live = True, cn_sent = []\<rparr>"

definition conn_handle :: "'u connection \<Rightarrow> int" where
  "conn_handle c = get_fd (cn_remote c)"

definition conn_set_service_loop :: "'u connection \<Rightarrow> ptr \<Rightarrow> 'u connection" where
  "conn_set_service_loop c loop = c\<lparr>cn_srv_loop := loop\<rparr>"

definition conn_set_remote_addr :: "'u connection \<Rightarrow> socket_address \<Rightarrow> 'u connection" where
  "conn_set_remote_addr c remote = c\<lparr>cn_remote := socket_address_assign False (cn_remote c) remote\<rparr>"

section \<open>Operations\<close>

text \<open>The code's \<^verbatim>\<open>srv_loop_->modify_event(handle(), r, w, this); assert(0 == ret);\<close>\<close>

definition conn_modify ::
  "'d vtable \<Rightarrow> bool \<Rightarrow> bool \<Rightarrow> 'u connection \<Rightarrow> ('d, 'f, 'z) service_loop_scheme \<Rightarrow>
     ('d, 'f, 'z) service_loop_scheme exec" where
  "conn_modify V r w c L =
     bind_exec (check (cn_srv_loop c \<noteq> NULL) Null_Deref) (\<lambda>_.
     bind_exec (modify_event V L (conn_handle c) r w (cn_self c)) (\<lambda>(ret, L').
     bind_exec (c_assert (0 = ret)) (\<lambda>_. Inr L')))"

text \<open>Both overloads of \<^verbatim>\<open>send\<close>.\<close>

definition conn_send ::
  "'d vtable \<Rightarrow> bytes \<Rightarrow> 'u connection \<Rightarrow> ('d, 'f, 'z) service_loop_scheme \<Rightarrow>
     ('u connection \<times> ('d, 'f, 'z) service_loop_scheme) exec" where
  "conn_send V data c L =
     bind_exec (check (cn_live c) Use_After_Free) (\<lambda>_.
       let status = osb_empty (cn_out c);
           c1 = c\<lparr>cn_out := osb_put (cn_out c) data\<rparr>
       in if status then bind_exec (conn_modify V True True c1 L) (\<lambda>L'. Inr (c1, L'))
          else Inr (c1, L))"

definition conn_close ::
  "'d vtable \<Rightarrow> 'u callbacks \<Rightarrow> 'u connection \<Rightarrow> ('d, 'f, 'z) service_loop_scheme \<Rightarrow>
     ('u connection \<times> ('d, 'f, 'z) service_loop_scheme) exec" where
  "conn_close V cb c L =
     bind_exec (check (cn_live c) Use_After_Free) (\<lambda>_.
     bind_exec
       (if conn_handle c > 0 then
          bind_exec (check (cn_srv_loop c \<noteq> NULL) Null_Deref) (\<lambda>_.
          bind_exec (delete_event V L (conn_handle c)) (\<lambda>(ret, L').
          bind_exec (c_assert (0 = ret)) (\<lambda>_. Inr L')))
        else Inr L)
       (\<lambda>L'. Inr (c\<lparr>cn_user := on_close cb (cn_user c), cn_live := False\<rparr>, L')))"

text \<open>The calls a method of the subclass makes.\<close>

fun run_cmds ::
  "'d vtable \<Rightarrow> 'u callbacks \<Rightarrow> conn_cmd list \<Rightarrow> 'u connection \<Rightarrow> ('d, 'f, 'z) service_loop_scheme \<Rightarrow>
     ('u connection \<times> ('d, 'f, 'z) service_loop_scheme) exec" where
  "run_cmds V cb [] c L = Inr (c, L)"
| "run_cmds V cb (Cmd_Send data # cmds) c L =
     bind_exec (conn_send V data c L) (\<lambda>(c', L'). run_cmds V cb cmds c' L')"
| "run_cmds V cb (Cmd_Close # cmds) c L =
     bind_exec (conn_close V cb c L) (\<lambda>(c', L'). run_cmds V cb cmds c' L')"

text \<open>\<^verbatim>\<open>open\<close>; the two socket options it sets have no effect on what is modelled.\<close>

definition conn_open ::
  "'d vtable \<Rightarrow> 'u callbacks \<Rightarrow> socket_address \<Rightarrow> 'u connection \<Rightarrow> ('d, 'f, 'z) service_loop_scheme \<Rightarrow>
     ('u connection \<times> ('d, 'f, 'z) service_loop_scheme) exec" where
  "conn_open V cb remote c L =
     (let c1 = conn_set_remote_addr c remote;
          c2 = c1\<lparr>cn_in := sb_clear (cn_in c1)\<rparr>;
          c3 = c2\<lparr>cn_out := sb_clear (cn_out c2)\<rparr>;
          (u, cmds) = on_connect cb remote (cn_user c3)
      in bind_exec (run_cmds V cb cmds (c3\<lparr>cn_user := u\<rparr>) L) (\<lambda>(c4, L4).
         bind_exec (check (cn_live c4) Use_After_Free) (\<lambda>_.
         bind_exec (check (cn_srv_loop c4 \<noteq> NULL) Null_Deref) (\<lambda>_.
         bind_exec (register_event V L4 (conn_handle c4) True False (cn_self c4)) (\<lambda>(ret, L5).
         bind_exec (c_assert (0 = ret)) (\<lambda>_. Inr (c4, L5)))))))"

definition conn_handle_read ::
  "'d vtable \<Rightarrow> 'u callbacks \<Rightarrow> recv_answer list \<Rightarrow> 'u connection \<Rightarrow> ('d, 'f, 'z) service_loop_scheme \<Rightarrow>
     ('u connection \<times> ('d, 'f, 'z) service_loop_scheme) exec" where
  "conn_handle_read V cb answers c L =
     bind_exec (isb_read (cn_in c) answers) (\<lambda>(ret, save_errno, s, _).
       let c1 = c\<lparr>cn_in := s\<rparr> in
       if ret \<le> 0 then conn_close V cb c1 L
       else
         let (u, cmds, len) = on_read cb (sb_to_string (cn_in c1)) (cn_user c1) in
         bind_exec (run_cmds V cb cmds (c1\<lparr>cn_user := u\<rparr>) L) (\<lambda>(c2, L2).
         bind_exec (check (cn_live c2) Use_After_Free) (\<lambda>_.
           Inr (c2\<lparr>cn_in := sb_ignore (cn_in c2) len\<rparr>, L2))))"

text \<open>
  An answer of \<^verbatim>\<open>send(2)\<close>: an errno or the number of bytes taken. The loop consumes the answers of
  its successive calls; when they run out the call is still \<open>Pending\<close>.
\<close>

datatype send_answer = Send_Error int | Send_Count nat

fun conn_write_loop ::
  "'d vtable \<Rightarrow> bytes \<Rightarrow> send_answer list \<Rightarrow> 'u connection \<Rightarrow> ('d, 'f, 'z) service_loop_scheme \<Rightarrow>
     ('u connection \<times> ('d, 'f, 'z) service_loop_scheme) exec" where
  "conn_write_loop V msg [] c L = (if msg = [] then Inr (c, L) else Inl Pending)"
| "conn_write_loop V msg (Send_Error e # as) c L =
     (if msg = [] then Inr (c, L)
      else if e = EINTR then conn_write_loop V msg as c L
      else if e = EWOULDBLOCK then Inr (c, L)
      else Inr (c, L))"
| "conn_write_loop V msg (Send_Count n # as) c L =
     (if msg = [] then Inr (c, L)
      else if n = 0 then Inr (c, L)
      else
        let c1 = c\<lparr>cn_out := sb_ignore (cn_out c) (c_int (int n)), cn_sent := cn_sent c @ take n msg\<rparr> in
        bind_exec (if osb_empty (cn_out c1) then conn_modify V True False c1 L else Inr L) (\<lambda>L'.
          conn_write_loop V (sb_to_string (cn_out c1)) as c1 L'))"

definition conn_handle_write ::
  "'d vtable \<Rightarrow> send_answer list \<Rightarrow> 'u connection \<Rightarrow> ('d, 'f, 'z) service_loop_scheme \<Rightarrow>
     ('u connection \<times> ('d, 'f, 'z) service_loop_scheme) exec" where
  "conn_handle_write V answers c L = conn_write_loop V (sb_to_string (cn_out c)) answers c L"

definition conn_handle_error ::
  "'d vtable \<Rightarrow> 'u callbacks \<Rightarrow> 'u connection \<Rightarrow> ('d, 'f, 'z) service_loop_scheme \<Rightarrow>
     ('u connection \<times> ('d, 'f, 'z) service_loop_scheme) exec" where
  "conn_handle_error V cb c L = conn_close V cb c L"

section \<open>Connections keep the loop in step\<close>

text \<open>The loop calls a connection that is alive and registered under its handle.\<close>

definition conn_ready :: "'u connection \<Rightarrow> ('d, 'f, 'z) service_loop_scheme \<Rightarrow> bool" where
  "conn_ready c L \<longleftrightarrow> cn_live c \<and> cn_self c \<noteq> NULL \<and> sl_handlers L (conn_handle c) = Some (cn_self c)"

lemma conn_ready_live: "conn_ready c L \<Longrightarrow> conn_handle c \<in> live_keys (sl_handlers L)"
  by (auto simp: conn_ready_def live_keys_def)

definition conn_sync ::
  "('d \<Rightarrow> int set) \<Rightarrow> ('d \<Rightarrow> bool) \<Rightarrow> 'u connection \<Rightarrow> ('d, 'f, 'z) service_loop_scheme \<Rightarrow> bool" where
  "conn_sync watched invar c L \<longleftrightarrow> loop_sync watched invar L \<and> (cn_live c \<longrightarrow> conn_ready c L)"

lemma conn_handle_simps [simp]:
  "conn_handle (c\<lparr>cn_out := s\<rparr>) = conn_handle c" "conn_handle (c\<lparr>cn_in := s\<rparr>) = conn_handle c"
  "conn_handle (c\<lparr>cn_user := u\<rparr>) = conn_handle c" "conn_handle (c\<lparr>cn_sent := m\<rparr>) = conn_handle c"
  "conn_handle (c\<lparr>cn_live := b\<rparr>) = conn_handle c"
  by (simp_all add: conn_handle_def)

lemma conn_sync_upd [simp]:
  "conn_sync W I (c\<lparr>cn_out := s\<rparr>) L = conn_sync W I c L" "conn_sync W I (c\<lparr>cn_in := s\<rparr>) L = conn_sync W I c L"
  "conn_sync W I (c\<lparr>cn_user := u\<rparr>) L = conn_sync W I c L" "conn_sync W I (c\<lparr>cn_sent := m\<rparr>) L = conn_sync W I c L"
  by (simp_all add: conn_sync_def conn_ready_def)

lemma conn_modify_result:
  "conn_modify V r w c L = Inr L' \<longleftrightarrow>
     cn_srv_loop c \<noteq> NULL \<and> modify_event V L (conn_handle c) r w (cn_self c) = Inr (0, L')"
  by (auto simp: conn_modify_def bind_exec_eq_Inr)

context event_dispatcher begin

lemma conn_modify_sync:
  assumes "conn_sync watched invar c L" "cn_live c" "conn_modify V r w c L = Inr L'"
  shows "conn_sync watched invar c L'"
proof -
  from assms have "loop_sync watched invar L" "conn_ready c L" by (auto simp: conn_sync_def)
  with modify_event_sync [of L "conn_handle c" r w "cn_self c" 0 L'] conn_ready_live [of c L] assms(3)
  show ?thesis by (auto simp: conn_sync_def conn_modify_result conn_ready_def)
qed

lemma conn_send_sync:
  assumes "conn_sync watched invar c L" "conn_send V d c L = Inr (c', L')"
  shows "conn_sync watched invar c' L'"
proof -
  let ?c = "c\<lparr>cn_out := osb_put (cn_out c) d\<rparr>"
  from assms(2) have l: "cn_live ?c" and r: "c' = ?c" "conn_modify V True True ?c L = Inr L' \<or> L' = L"
    by (auto simp: conn_send_def Let_def bind_exec_eq_Inr split: if_splits)
  from assms(1) have "conn_sync watched invar ?c L" by simp
  from conn_modify_sync [OF this l, of True True L'] r assms(1) show ?thesis by auto
qed

lemma conn_close_sync:
  assumes "conn_sync watched invar c L" "conn_close V cb c L = Inr (c', L')"
  shows "conn_sync watched invar c' L' \<and> \<not> cn_live c'"
proof -
  from assms(2) have "\<not> cn_live c'" and r: "delete_event V L (conn_handle c) = Inr (0, L') \<or> L' = L"
    by (auto simp: conn_close_def bind_exec_eq_Inr split: if_splits)
  moreover from assms(1) r delete_event_sync [of L "conn_handle c" 0 L'] have "loop_sync watched invar L'"
    by (auto simp: conn_sync_def)
  ultimately show ?thesis by (simp add: conn_sync_def)
qed

lemma run_cmds_sync:
  "conn_sync watched invar c L \<Longrightarrow> run_cmds V cb cmds c L = Inr (c', L') \<Longrightarrow> conn_sync watched invar c' L'"
proof (induction cmds arbitrary: c L)
  case (Cons cmd cmds)
  show ?case
  proof (cases cmd)
    case (Cmd_Send d)
    with Cons.prems obtain c1 L1 where "conn_send V d c L = Inr (c1, L1)" "run_cmds V cb cmds c1 L1 = Inr (c', L')"
      by (auto simp: bind_exec_eq_Inr)
    with Cons conn_send_sync show ?thesis by blast
  next
    case Cmd_Close
    with Cons.prems obtain c1 L1 where "conn_close V cb c L = Inr (c1, L1)" "run_cmds V cb cmds c1 L1 = Inr (c', L')"
      by (auto simp: bind_exec_eq_Inr)
    with Cons conn_close_sync show ?thesis by blast
  qed
qed simp

lemma conn_read_sync:
  assumes "conn_sync watched invar c L" "conn_handle_read V cb as c L = Inr (c', L')"
  shows "conn_sync watched invar c' L'"
proof -
  from assms(2) obtain ret e s rest where r: "isb_read (cn_in c) as = Inr (ret, e, s, rest)"
    by (cases "isb_read (cn_in c) as") (auto simp: conn_handle_read_def)
  let ?c = "c\<lparr>cn_in := s\<rparr>"
  from assms(1) have c: "conn_sync watched invar ?c L" by simp
  show ?thesis
  proof (cases "ret \<le> 0")
    case True
    with r assms(2) have "conn_close V cb ?c L = Inr (c', L')" by (simp add: conn_handle_read_def)
    with c conn_close_sync show ?thesis by blast
  next
    case False
    obtain u cmds len where o: "on_read cb (sb_to_string s) (cn_user c) = (u, cmds, len)" by (metis prod_cases3)
    from r o assms(2) False obtain c2 where
      "run_cmds V cb cmds (?c\<lparr>cn_user := u\<rparr>) L = Inr (c2, L')" "c' = c2\<lparr>cn_in := sb_ignore (cn_in c2) len\<rparr>"
      by (auto simp: conn_handle_read_def bind_exec_eq_Inr)
    with run_cmds_sync [of "?c\<lparr>cn_user := u\<rparr>" L cb cmds c2 L'] c show ?thesis by simp
  qed
qed

lemma conn_write_loop_sync:
  "conn_sync watched invar c L \<Longrightarrow> cn_live c \<Longrightarrow> conn_write_loop V msg as c L = Inr (c', L') \<Longrightarrow>
   conn_sync watched invar c' L'"
proof (induction as arbitrary: msg c L)
  case Nil
  then show ?case by (simp split: if_splits)
next
  case (Cons a as)
  show ?case
  proof (cases a)
    case (Send_Error e)
    with Cons show ?thesis by (auto split: if_splits)
  next
    case (Send_Count n)
    let ?c = "c\<lparr>cn_out := sb_ignore (cn_out c) (c_int (int n)), cn_sent := cn_sent c @ take n msg\<rparr>"
    have c: "conn_sync watched invar ?c L" "cn_live ?c" using Cons.prems by simp_all
    show ?thesis
    proof (cases "msg = [] \<or> n = 0")
      case True
      with Cons.prems Send_Count show ?thesis by (cases "msg = []") simp_all
    next
      case False
      with Cons.prems Send_Count obtain L1 where
        L1: "(if osb_empty (cn_out ?c) then conn_modify V True False ?c L else Inr L) = Inr L1"
          "conn_write_loop V (sb_to_string (cn_out ?c)) as ?c L1 = Inr (c', L')"
        by (auto simp: Let_def bind_exec_eq_Inr)
      from c L1(1) conn_modify_sync [OF c] have "conn_sync watched invar ?c L1" by (auto split: if_splits)
      from Cons.IH [OF this c(2) L1(2)] show ?thesis .
    qed
  qed
qed

lemma conn_write_sync:
  "conn_sync watched invar c L \<Longrightarrow> cn_live c \<Longrightarrow> conn_handle_write V as c L = Inr (c', L') \<Longrightarrow>
   conn_sync watched invar c' L'"
  unfolding conn_handle_write_def by (rule conn_write_loop_sync)

end

text \<open>
  A connection is an event handler in the sense of the loop; \<open>io\<close> holds the answers of the
  successive \<^verbatim>\<open>recv\<close> or \<^verbatim>\<open>send\<close> calls.
\<close>

interpretation conn: event_handler in_sync conn_ready
  "\<lambda>io. conn_handle_read virt cb (fst io)" "\<lambda>io. conn_handle_write virt (snd io)"
  "\<lambda>io. conn_handle_error virt cb"
  for cb :: "'u callbacks"
proof (unfold_locales, goal_cases)
  case (1 L c io c' L')
  then show ?case using any.conn_read_sync [of c L cb "fst io" c' L'] by (auto simp: conn_sync_def conn_ready_def)
next
  case (2 L c io c' L')
  then show ?case using any.conn_write_sync [of c L "snd io" c' L'] by (auto simp: conn_sync_def conn_ready_def)
next
  case (3 L c io c' L')
  then show ?case using any.conn_close_sync [of c L cb c' L']
    by (auto simp: conn_sync_def conn_ready_def conn_handle_error_def)
qed

section \<open>What the write loop does\<close>

text \<open>
  The documented behaviour of \<^verbatim>\<open>send(2)\<close> over a sequence of calls that starts with \<open>k\<close> bytes to
  send: it never takes more than it is offered, and it answers until the loop stops.
\<close>

fun send_script :: "nat \<Rightarrow> send_answer list \<Rightarrow> bool" where
  "send_script k [] \<longleftrightarrow> k = 0"
| "send_script k (Send_Error e # as) \<longleftrightarrow> k = 0 \<or> e \<noteq> EINTR \<or> send_script k as"
| "send_script k (Send_Count n # as) \<longleftrightarrow> k = 0 \<or> n = 0 \<or> n \<le> k \<and> send_script (k - n) as"

lemma modify_event_ok:
  "sl_dispatcher L = Some d \<Longrightarrow> h > 0 \<Longrightarrow> p \<noteq> NULL \<Longrightarrow> mod_event V d h r w = Inr (True, d') \<Longrightarrow>
   modify_event V L h r w p = Inr (0, L\<lparr>sl_dispatcher := Some d', sl_handlers := (sl_handlers L)(h \<mapsto> p)\<rparr>)"
  by (simp add: modify_event_def the_dispatcher_def map_index_def Let_def fun_upd_idem split: option.splits)

lemma conn_write_loop_idle [simp]: "conn_write_loop V [] as c L = Inr (c, L)"
proof (cases as)
  case (Cons a as')
  then show ?thesis by (cases a) simp_all
qed simp

text \<open>A connection that can call its loop.\<close>

definition conn_wired :: "'u connection \<Rightarrow> bool" where
  "conn_wired c \<longleftrightarrow> cn_live c \<and> cn_srv_loop c \<noteq> NULL \<and> cn_self c \<noteq> NULL \<and> conn_handle c > 0"

lemma conn_modify_ok:
  "sl_dispatcher L = Some d \<Longrightarrow> conn_wired c \<Longrightarrow> mod_event V d (conn_handle c) r w = Inr (True, d') \<Longrightarrow>
   conn_modify V r w c L =
     Inr (L\<lparr>sl_dispatcher := Some d', sl_handlers := (sl_handlers L)(conn_handle c \<mapsto> cn_self c)\<rparr>)"
  using modify_event_ok [of L d "conn_handle c" "cn_self c" V r w d']
  by (simp add: conn_wired_def conn_modify_def)

lemma conn_write_loop_delivers:
  assumes "sl_dispatcher L = Some d" "mod_event V d (conn_handle c) True False = Inr (True, d')"
    and "conn_wired c" "int (length (ss_str (cn_out c))) \<le> INT_MAX" "send_script (length (ss_str (cn_out c))) as"
  shows "\<exists>out sent L'. conn_write_loop V (ss_str (cn_out c)) as c L = Inr (c\<lparr>cn_out := out, cn_sent := sent\<rparr>, L') \<and>
    sent @ ss_str out = cn_sent c @ ss_str (cn_out c) \<and>
    L' = (if ss_str out = [] \<and> ss_str (cn_out c) \<noteq> []
          then L\<lparr>sl_dispatcher := Some d', sl_handlers := (sl_handlers L)(conn_handle c \<mapsto> cn_self c)\<rparr> else L)"
  using assms(2-)
proof (induction as arbitrary: c)
  case Nil
  then show ?case by (intro exI [of _ "cn_out c"] exI [of _ "cn_sent c"] exI [of _ L]) auto
next
  case (Cons a as)
  have stop: ?case if "conn_write_loop V (ss_str (cn_out c)) (a # as) c L = Inr (c, L)"
    using that by (intro exI [of _ "cn_out c"] exI [of _ "cn_sent c"] exI [of _ L]) auto
  show ?case
  proof (cases "ss_str (cn_out c) = []")
    case True
    then have "conn_write_loop V (ss_str (cn_out c)) (a # as) c L = Inr (c, L)" by simp
    with True stop show ?thesis by blast
  next
    case ne: False
    show ?thesis
    proof (cases a)
      case (Send_Error e)
      show ?thesis
      proof (cases "e = EINTR")
        case True
        with Send_Error ne Cons.prems Cons.IH [of c] show ?thesis by simp
      qed (use stop Send_Error ne in simp)
    next
      case (Send_Count n)
      show ?thesis
      proof (cases "n = 0")
        case False
        let ?msg = "ss_str (cn_out c)"
        let ?c = "c\<lparr>cn_out := sb_ignore (cn_out c) (c_int (int n)), cn_sent := cn_sent c @ take n ?msg\<rparr>"
        from Cons.prems Send_Count ne False have n: "n \<le> length ?msg" and rest: "send_script (length ?msg - n) as"
          by auto
        with Cons.prems(3) have out: "ss_str (cn_out ?c) = drop n ?msg" by (simp add: sb_ignore_str)
        have wired: "conn_wired ?c" "conn_handle ?c = conn_handle c" "cn_self ?c = cn_self c"
          using Cons.prems(2) by (simp_all add: conn_wired_def)
        show ?thesis
        proof (cases "drop n ?msg = []")
          case True
          with wired Cons.prems(1) conn_modify_ok [OF assms(1) wired(1), of V True False d'] out Send_Count ne False
          have "conn_write_loop V ?msg (a # as) c L =
            Inr (?c, L\<lparr>sl_dispatcher := Some d', sl_handlers := (sl_handlers L)(conn_handle c \<mapsto> cn_self c)\<rparr>)"
            by (simp add: Let_def osb_empty_def sb_to_string_def)
          with out True ne show ?thesis
            by (intro exI [of _ "cn_out ?c"] exI [of _ "cn_sent ?c"] exI) (auto simp: append_eq_conv_conj)
        next
          case left: False
          have "conn_write_loop V ?msg (a # as) c L = conn_write_loop V (ss_str (cn_out ?c)) as ?c L"
            using left out Send_Count ne False by (simp add: Let_def osb_empty_def sb_to_string_def)
          moreover have "int (length (ss_str (cn_out ?c))) \<le> INT_MAX"
            "send_script (length (ss_str (cn_out ?c))) as" using out rest Cons.prems(3) by simp_all
          note Cons.IH [of ?c, unfolded wired(2,3), OF Cons.prems(1) wired(1) this]
          ultimately show ?thesis using out left ne by auto
        qed
      qed (use stop Send_Count ne in simp)
    qed
  qed
qed

section \<open>What a connection asks its dispatcher to watch\<close>

text \<open>
  \<open>conn_interest\<close>: the write direction is watched exactly while bytes are waiting to be sent, and
  the read direction always, except on epoll while bytes are waiting (see \<open>dispatcher_directions\<close> of
  the theory \<open>Dispatchers\<close>).
\<close>

definition conn_interest :: "'u connection \<Rightarrow> (dispatcher, 'f, 'z) service_loop_scheme \<Rightarrow> bool" where
  "conn_interest c L \<longleftrightarrow> (\<exists>d. sl_dispatcher L = Some d \<and>
     disp_writes d (conn_handle c) = (sb_to_string (cn_out c) \<noteq> []) \<and>
     disp_reads d (conn_handle c) = (sb_to_string (cn_out c) = [] \<or> \<not> is_epoll d))"

lemma virt_mod_is_epoll: "virt_mod d h r w = Inr (b, d') \<Longrightarrow> is_epoll d' = is_epoll d"
  by (cases d) auto

lemma virt_add_is_epoll: "virt_add d h r w = Inr (b, d') \<Longrightarrow> is_epoll d' = is_epoll d"
  by (cases d) auto

lemma modify_event_directions:
  assumes "in_sync L" "h \<in> live_keys (sl_handlers L)" "modify_event virt L h r w p = Inr (0, L')"
  shows "\<exists>d'. sl_dispatcher L' = Some d' \<and> disp_writes d' h = w \<and> disp_reads d' h = (r \<and> \<not> (is_epoll d' \<and> w))"
proof -
  from modify_event_handlers [OF assms(3)] obtain d d' ok where
    r: "sl_dispatcher L = Some d" "virt_mod d h r w = Inr (ok, d')" "sl_dispatcher L' = Some d'"
      "\<not> ok \<longrightarrow> get_last_errno virt d' = 0" by (auto split: if_splits)
  from assms(1) r(1) have d: "disp_invar d" "disp_watched d = live_keys (sl_handlers L)" by (auto simp: loop_sync_def)
  with any.mod_law [of d h r w ok d'] r assms(2) have ok by auto
  with virt_mod_directions [of d h r w d'] virt_mod_is_epoll r d assms(2) show ?thesis by simp
qed

lemma register_event_directions:
  assumes "in_sync L" "h \<notin> live_keys (sl_handlers L)" "register_event virt L h r w p = Inr (0, L')"
  shows "\<exists>d'. sl_dispatcher L' = Some d' \<and> disp_writes d' h = w \<and> disp_reads d' h = (r \<and> \<not> (is_epoll d' \<and> w))"
proof -
  from register_event_handlers [OF assms(3)] obtain d d' ok where
    r: "sl_dispatcher L = Some d" "virt_add d h r w = Inr (ok, d')" "sl_dispatcher L' = Some d'"
      "\<not> ok \<longrightarrow> get_last_errno virt d' = 0" by (auto split: if_splits)
  from assms(1) r(1) have d: "disp_invar d" "disp_watched d = live_keys (sl_handlers L)" by (auto simp: loop_sync_def)
  with any.add_law [of d h r w ok d'] r assms(2) have ok by auto
  with virt_add_directions [of d h r w d'] virt_add_is_epoll r d assms(2) show ?thesis by simp
qed

lemma conn_modify_interest:
  assumes "conn_sync disp_watched disp_invar c L" "cn_live c" "conn_modify virt True w c L = Inr L'"
    and "w = (sb_to_string (cn_out c) \<noteq> [])"
  shows "conn_interest c L'"
proof -
  from assms(1,2) have "in_sync L" "conn_ready c L" by (auto simp: conn_sync_def)
  from modify_event_directions [OF this(1) conn_ready_live [OF this(2)]] assms(3,4)
  show ?thesis by (fastforce simp: conn_modify_result conn_interest_def)
qed

lemma osb_put_nonempty: "d \<noteq> [] \<or> ss_str s \<noteq> [] \<Longrightarrow> ss_str (osb_put s d) \<noteq> []"
  by (cases d) (auto simp: osb_put_def ss_write_def ss_str_def)

lemma conn_send_interest:
  assumes "conn_sync disp_watched disp_invar c L" "conn_interest c L" "d \<noteq> []"
    and "conn_send virt d c L = Inr (c', L')"
  shows "conn_interest c' L'"
proof -
  let ?c = "c\<lparr>cn_out := osb_put (cn_out c) d\<rparr>"
  from assms(4) have l: "cn_live ?c" and c': "c' = ?c"
    and r: "if osb_empty (cn_out c) then conn_modify virt True True ?c L = Inr L' else L' = L"
    by (auto simp: conn_send_def Let_def bind_exec_eq_Inr split: if_splits)
  have "sb_to_string (cn_out ?c) \<noteq> []" using osb_put_nonempty assms(3) by (simp add: sb_to_string_def)
  moreover from assms(1) have "conn_sync disp_watched disp_invar ?c L" by simp
  ultimately show ?thesis
    using conn_modify_interest [of ?c L True L'] l r c' assms(2)
    by (cases "osb_empty (cn_out c)") (auto simp: conn_interest_def osb_empty_def sb_to_string_def)
qed

lemma conn_write_loop_interest:
  "conn_sync disp_watched disp_invar c L \<Longrightarrow> cn_live c \<Longrightarrow> conn_interest c L \<Longrightarrow> msg = sb_to_string (cn_out c) \<Longrightarrow>
   conn_write_loop virt msg as c L = Inr (c', L') \<Longrightarrow> conn_interest c' L'"
proof (induction as arbitrary: msg c L)
  case Nil
  then show ?case by (simp split: if_splits)
next
  case (Cons a as)
  show ?case
  proof (cases a)
    case (Send_Error e)
    with Cons show ?thesis by (auto split: if_splits)
  next
    case (Send_Count n)
    let ?c = "c\<lparr>cn_out := sb_ignore (cn_out c) (c_int (int n)), cn_sent := cn_sent c @ take n msg\<rparr>"
    have c: "conn_sync disp_watched disp_invar ?c L" "cn_live ?c" using Cons.prems by simp_all
    show ?thesis
    proof (cases "msg = [] \<or> n = 0")
      case True
      with Cons.prems Send_Count show ?thesis by (cases "msg = []") simp_all
    next
      case False
      with Cons.prems Send_Count obtain L1 where
        L1: "(if osb_empty (cn_out ?c) then conn_modify virt True False ?c L else Inr L) = Inr L1"
          "conn_write_loop virt (sb_to_string (cn_out ?c)) as ?c L1 = Inr (c', L')"
        by (auto simp: Let_def bind_exec_eq_Inr)
      from c L1(1) any.conn_modify_sync [OF c] have s: "conn_sync disp_watched disp_invar ?c L1" by (auto split: if_splits)
      have "conn_interest ?c L1"
      proof (cases "osb_empty (cn_out ?c)")
        case True
        with L1(1) conn_modify_interest [OF c, of False L1] show ?thesis by (simp add: osb_empty_def sb_to_string_def)
      next
        case ne: False
        with L1(1) Cons.prems(3,4) False show ?thesis by (simp add: osb_empty_def sb_to_string_def conn_interest_def)
      qed
      from Cons.IH [OF s c(2) this refl L1(2)] show ?thesis .
    qed
  qed
qed

section \<open>Reading\<close>

text \<open>Whether the last answer one \<^verbatim>\<open>read\<close> consumes is an error.\<close>

fun recv_fails :: "recv_answer list \<Rightarrow> bool" where
  "recv_fails [] = False"
| "recv_fails (Recv_Error e # as) = True"
| "recv_fails (Recv_Data d # as) = (RECV_LEN \<le> length d \<and> recv_fails as)"

lemma isb_read_loop_fails:
  "isb_read_loop s n as = Inr (r, e, s', rest) \<Longrightarrow> (e \<noteq> None) = recv_fails as \<and> (e \<noteq> None \<longrightarrow> r = -1)"
proof (induction s n as rule: isb_read_loop.induct)
  case (3 s n d as)
  then show ?case
    by (cases "d = []"; cases "length d < RECV_LEN") (auto simp: Let_def RECV_LEN_def split: if_splits)
qed auto

text \<open>\<^verbatim>\<open>read\<close> on an appending buffer, with the result as the caller sees it.\<close>

lemma isb_read_result:
  assumes "at_end s" "\<exists>a\<in>set as. last_answer a" "int (length (recv_prefix as)) \<le> INT_MAX"
  shows "\<exists>e s' rest. isb_read s as = Inr (if recv_fails as then -1 else int (length (recv_prefix as)), e, s', rest) \<and>
    ss_str s' = ss_str s @ recv_prefix as \<and> at_end s'"
proof -
  from isb_read_loop_spec [OF assms(1,2), of 0, unfolded add_0, OF order_refl assms(3)] obtain r e s' rest where
    o: "isb_read_loop s 0 as = Inr (r, e, s', rest)" "ss_str s' = ss_str s @ recv_prefix as" "at_end s'"
      "case e of Some x \<Rightarrow> r = -1 | None \<Rightarrow> r = int (length (recv_prefix as))" by blast
  with isb_read_loop_fails [OF o(1)] show ?thesis by (cases e) (auto simp: isb_read_def)
qed

lemma run_cmds_close:
  "Cmd_Close \<in> set cmds \<Longrightarrow> run_cmds V cb cmds c L = Inr (c', L') \<Longrightarrow> \<not> cn_live c'"
proof (induction cmds arbitrary: c L)
  case (Cons cmd cmds)
  have stays: "\<not> cn_live c'" if "\<not> cn_live c1" "run_cmds V cb cmds c1 L1 = Inr (c', L')" for c1 L1
    using that
  proof (cases cmds)
    case (Cons a as)
    with that show ?thesis by (cases a) (simp_all add: conn_send_def conn_close_def)
  qed simp
  show ?case
  proof (cases cmd)
    case (Cmd_Send d)
    with Cons show ?thesis by (auto simp: bind_exec_eq_Inr)
  next
    case Cmd_Close
    with Cons.prems obtain c1 L1 where c1: "conn_close V cb c L = Inr (c1, L1)" "run_cmds V cb cmds c1 L1 = Inr (c', L')"
      by (auto simp: bind_exec_eq_Inr)
    from c1(1) have "\<not> cn_live c1" by (auto simp: conn_close_def bind_exec_eq_Inr split: if_splits)
    with stays c1(2) show ?thesis by blast
  qed
qed simp

lemma conn_write_loop_live:
  "cn_live c \<Longrightarrow> conn_write_loop V msg as c L = Inr (c', L') \<Longrightarrow> cn_live c'"
proof (induction as arbitrary: msg c L)
  case Nil
  then show ?case by (simp split: if_splits)
next
  case (Cons a as)
  show ?case
  proof (cases a)
    case (Send_Error e)
    with Cons show ?thesis by (auto split: if_splits)
  next
    case (Send_Count n)
    show ?thesis
    proof (cases "msg = [] \<or> n = 0")
      case True
      with Cons.prems Send_Count show ?thesis by (cases "msg = []") simp_all
    next
      case False
      let ?c = "c\<lparr>cn_out := sb_ignore (cn_out c) (c_int (int n)), cn_sent := cn_sent c @ take n msg\<rparr>"
      from False Cons.prems Send_Count obtain L1 where
        "conn_write_loop V (sb_to_string (cn_out ?c)) as ?c L1 = Inr (c', L')"
        by (auto simp: Let_def bind_exec_eq_Inr)
      from Cons.IH [OF _ this] Cons.prems(1) show ?thesis by simp
    qed
  qed
qed

section \<open>Properties\<close>

text \<open>
  Claim C7. Writing loses and duplicates nothing: as long as \<^verbatim>\<open>send(2)\<close> answers as documented and
  the dispatcher accepts the one modification, \<^verbatim>\<open>do_handle_write\<close> returns; the bytes the kernel took
  followed by those still queued are the stream as before, and write interest is dropped exactly
  when the last byte went out.
\<close>

theorem conn_write_delivers:
  assumes "conn_wired c" "int (sb_length (cn_out c)) \<le> INT_MAX" "send_script (sb_length (cn_out c)) as"
    and "sl_dispatcher L = Some d" "mod_event V d (conn_handle c) True False = Inr (True, d')"
  shows "\<exists>c' L'. conn_handle_write V as c L = Inr (c', L') \<and>
    cn_sent c' @ sb_to_string (cn_out c') = cn_sent c @ sb_to_string (cn_out c) \<and>
    L' = (if sb_to_string (cn_out c') = [] \<and> sb_to_string (cn_out c) \<noteq> []
          then L\<lparr>sl_dispatcher := Some d', sl_handlers := (sl_handlers L)(conn_handle c \<mapsto> cn_self c)\<rparr> else L)"
proof -
  from conn_write_loop_delivers [OF assms(4,5,1) assms(2,3) [unfolded sb_length_def]] obtain out sent L' where
    "conn_write_loop V (ss_str (cn_out c)) as c L = Inr (c\<lparr>cn_out := out, cn_sent := sent\<rparr>, L')"
    "sent @ ss_str out = cn_sent c @ ss_str (cn_out c)"
    "L' = (if ss_str out = [] \<and> ss_str (cn_out c) \<noteq> []
      then L\<lparr>sl_dispatcher := Some d', sl_handlers := (sl_handlers L)(conn_handle c \<mapsto> cn_self c)\<rparr> else L)"
    by blast
  then show ?thesis
    by (intro exI [of _ "c\<lparr>cn_out := out, cn_sent := sent\<rparr>"] exI [of _ L'])
      (simp add: conn_handle_write_def sb_to_string_def)
qed

text \<open>A connection on descriptor 4 with three bytes queued, registered with an epoll loop.\<close>

definition sample_conn :: "nat connection" where
  "sample_conn = \<lparr>cn_self = 200, cn_remote = socket_address_of_fd 4 zero_sockaddr, cn_srv_loop = 50,
     cn_in = sb_new, cn_out = \<lparr>ss_buf = [1, 2, 3], ss_put = 3\<rparr>, cn_user = 0, cn_live = True, cn_sent = []\<rparr>"

lemma sample_conn_simps [simp]:
  "cn_self sample_conn = 200" "cn_srv_loop sample_conn = 50" "cn_in sample_conn = sb_new"
  "cn_out sample_conn = \<lparr>ss_buf = [1, 2, 3], ss_put = 3\<rparr>" "cn_live sample_conn" "cn_sent sample_conn = []"
  "conn_handle sample_conn = 4" "conn_wired sample_conn" "cn_user sample_conn = 0"
  by (simp_all add: sample_conn_def conn_wired_def conn_handle_def get_fd_def socket_address_of_fd_def)

definition conn_loop :: "(dispatcher, nat) service_loop" where
  "conn_loop = sample_loop\<lparr>sl_dispatcher := Some (D_Epoll (sample_epoll\<lparr>ep_interest := [4 \<mapsto> EPOLLOUT]\<rparr>)),
     sl_handlers := [4 \<mapsto> 200]\<rparr>"

lemma conn_loop_simps [simp]:
  "sl_dispatcher conn_loop = Some (D_Epoll (sample_epoll\<lparr>ep_interest := [4 \<mapsto> EPOLLOUT]\<rparr>))"
  "sl_handlers conn_loop = [4 \<mapsto> 200]"
  by (simp_all add: conn_loop_def)

lemma conn_loop_mod:
  "virt_mod (D_Epoll (sample_epoll\<lparr>ep_interest := [4 \<mapsto> EPOLLOUT]\<rparr>)) 4 True False = Inr (True, D_Epoll sample_epoll)"
  by (simp add: epoll_mod_event_def epoll_events_cases sample_ctl_def wrap_result_def sample_epoll_def fun_eq_iff)

theorem conn_write_delivers_witness:
  "\<exists>c' L'. conn_handle_write virt [Send_Count 1, Send_Error EINTR, Send_Error EWOULDBLOCK] sample_conn conn_loop = Inr (c', L') \<and>
    cn_sent c' @ sb_to_string (cn_out c') = [1, 2, 3]"
proof -
  have "mod_event virt (D_Epoll (sample_epoll\<lparr>ep_interest := [4 \<mapsto> EPOLLOUT]\<rparr>)) (conn_handle sample_conn) True False =
    Inr (True, D_Epoll sample_epoll)" using conn_loop_mod by simp
  from conn_write_delivers [OF sample_conn_simps(8) _ _ conn_loop_simps(1) this,
      of "[Send_Count 1, Send_Error EINTR, Send_Error EWOULDBLOCK]"]
  show ?thesis by (fastforce simp: sb_length_def ss_str_def sb_to_string_def INT_MAX_def errno_defs)
qed


lemma conn_loop_sync [simp]: "in_sync conn_loop"
  by (simp add: loop_sync_def epoll_invar_def epoll_watched_def live_keys_def)

lemma conn_loop_ready [simp]: "conn_ready sample_conn conn_loop"
  by (simp add: conn_ready_def)

lemma conn_loop_interest [simp]: "conn_interest sample_conn conn_loop"
  by (simp add: conn_interest_def sb_to_string_def ss_str_def epoll_flag_defs)


text \<open>
  \<^verbatim>\<open>send\<close> of an empty text on an idle connection turns write interest on although
  nothing waits: on epoll the connection is then no longer watched for reading, and no number of
  \<^verbatim>\<open>do_handle_write\<close> calls, whatever the kernel answers, changes anything.
\<close>

theorem send_empty_wedges:
  assumes "in_sync L" "conn_ready c L" "osb_empty (cn_out c)" "ss_ok (cn_out c)"
    and "conn_send virt [] c L = Inr (c', L')"
  shows "(\<exists>d. sl_dispatcher L' = Some d \<and> disp_writes d (conn_handle c') \<and>
      disp_reads d (conn_handle c') = (\<not> is_epoll d)) \<and> conn_handle_write virt as c' L' = Inr (c', L')"
proof -
  have put: "osb_put (cn_out c) [] = cn_out c" by (simp add: osb_put_def ss_write_def)
  with assms(3,5) have r: "c' = c" "conn_modify virt True True c L = Inr L'"
    by (auto simp: conn_send_def bind_exec_eq_Inr)
  from modify_event_directions [OF assms(1) conn_ready_live [OF assms(2)] conn_modify_result [THEN iffD1, OF r(2), THEN conjunct2]]
    assms(3) r(1) show ?thesis by (auto simp: conn_handle_write_def sb_to_string_def osb_empty_def)
qed

theorem send_empty_wedges_witness:
  "\<exists>c' L' d. conn_send virt [] (sample_conn\<lparr>cn_out := sb_new\<rparr>) conn_loop = Inr (c', L') \<and>
     sl_dispatcher L' = Some d \<and> \<not> disp_reads d 4 \<and> conn_handle_write virt [Send_Count 5] c' L' = Inr (c', L')"
proof -
  let ?d = "D_Epoll (sample_epoll\<lparr>ep_interest := [4 \<mapsto> EPOLLOUT]\<rparr>)"
  have "conn_modify virt True True (sample_conn\<lparr>cn_out := sb_new\<rparr>) conn_loop =
      Inr (conn_loop\<lparr>sl_dispatcher := Some ?d, sl_handlers := (sl_handlers conn_loop)(4 \<mapsto> 200)\<rparr>)"
    using conn_modify_ok [OF conn_loop_simps(1), of "sample_conn\<lparr>cn_out := sb_new\<rparr>" virt True True ?d]
    by (simp add: conn_wired_def epoll_mod_event_def epoll_events_cases sample_ctl_def)
  then have s: "conn_send virt [] (sample_conn\<lparr>cn_out := sb_new\<rparr>) conn_loop =
      Inr (sample_conn\<lparr>cn_out := sb_new\<rparr>,
        conn_loop\<lparr>sl_dispatcher := Some ?d, sl_handlers := (sl_handlers conn_loop)(4 \<mapsto> 200)\<rparr>)"
    by (simp add: conn_send_def sb_new_def osb_empty_def osb_put_def ss_defs)
  from send_empty_wedges [OF conn_loop_sync _ _ _ s, of "[Send_Count 5]"] s show ?thesis
    by (simp add: conn_ready_def osb_empty_def sb_new_def ss_defs ss_ok_def)
qed

text \<open>
  When the kernel takes only part of the queued bytes and a \<^verbatim>\<open>send\<close> comes before the rest
  is out, the new data overwrites the unsent bytes: the peer's stream is not the concatenation of
  what was passed to \<^verbatim>\<open>send\<close>.
\<close>

theorem partial_write_then_send_corrupts:
  assumes "cn_live c" "0 < k" "k < sb_length (cn_out c)" "int (sb_length (cn_out c)) \<le> INT_MAX" "data \<noteq> []"
  shows "\<exists>c1 c2. conn_handle_write V [Send_Count k, Send_Error EWOULDBLOCK] c L = Inr (c1, L) \<and>
    conn_send V data c1 L = Inr (c2, L) \<and>
    cn_sent c2 @ sb_to_string (cn_out c2) =
      cn_sent c @ take k (sb_to_string (cn_out c)) @ data @ drop (k + length data) (sb_to_string (cn_out c)) \<and>
    cn_sent c2 @ sb_to_string (cn_out c2) \<noteq> cn_sent c @ sb_to_string (cn_out c) @ data"
proof -
  let ?m = "ss_str (cn_out c)"
  let ?c1 = "c\<lparr>cn_out := ss_set_str (cn_out c) (drop k ?m), cn_sent := cn_sent c @ take k ?m\<rparr>"
  let ?c2 = "?c1\<lparr>cn_out := osb_put (cn_out ?c1) data\<rparr>"
  have k: "?m \<noteq> []" "drop k ?m \<noteq> []" "c_int (int k) = int k" "sb_ignore (cn_out c) (int k) = ss_set_str (cn_out c) (drop k ?m)"
    using assms(2-4) by (auto simp: sb_length_def sb_ignore_def)
  have "conn_handle_write V [Send_Count k, Send_Error EWOULDBLOCK] c L = Inr (?c1, L)"
    using k assms(2) by (simp add: conn_handle_write_def sb_to_string_def osb_empty_def ss_set_str_def ss_str_def EINTR_def EWOULDBLOCK_def)
  moreover have "conn_send V data ?c1 L = Inr (?c2, L)"
    using k(2) assms(1) by (simp add: conn_send_def osb_empty_def ss_set_str_def ss_str_def)
  moreover have "cn_sent ?c2 @ sb_to_string (cn_out ?c2) = cn_sent c @ take k ?m @ data @ drop (k + length data) ?m"
    by (simp add: osb_put_def ss_write_def ss_set_str_def sb_to_string_def ss_str_def add.commute)
  moreover have "take k ?m @ data @ drop (k + length data) ?m \<noteq> ?m @ data"
  proof
    assume "take k ?m @ data @ drop (k + length data) ?m = ?m @ data"
    from arg_cong [OF this, of length] assms(3,5) show False by (cases data) (auto simp: sb_length_def)
  qed
  ultimately show ?thesis by (intro exI [of _ ?c1] exI [of _ ?c2]) (simp add: sb_to_string_def)
qed

theorem partial_write_then_send_corrupts_witness:
  "\<exists>c1 c2. conn_handle_write virt [Send_Count 1, Send_Error EWOULDBLOCK] sample_conn conn_loop = Inr (c1, conn_loop) \<and>
    conn_send virt [9] c1 conn_loop = Inr (c2, conn_loop) \<and> cn_sent c2 @ sb_to_string (cn_out c2) = [1, 9, 3]"
  using partial_write_then_send_corrupts [of sample_conn 1 "[9]" virt conn_loop]
  by (auto simp: sb_length_def ss_str_def sb_to_string_def INT_MAX_def)


text \<open>An application that uses all it is given and counts its calls and closes.\<close>

definition counting_app :: "nat callbacks" where
  "counting_app = \<lparr>on_connect = (\<lambda>r u. (u, [])), on_read = (\<lambda>bs u. (u + 1, [], int (length bs))),
     on_close = (\<lambda>u. u + 100)\<rparr>"


text \<open>
  When a whole number of 64-KiB pieces arrives and the next \<^verbatim>\<open>recv\<close> fails, as it does with
  \<^verbatim>\<open>EWOULDBLOCK\<close> on a non-blocking socket that has nothing more, the data just received never
  reaches \<^verbatim>\<open>on_read\<close>: the connection is closed instead.
\<close>

theorem exact_chunk_closes:
  assumes "at_end (cn_in c)" "\<And>d. d \<in> set ds \<Longrightarrow> length d = RECV_LEN" "int (length (concat ds)) \<le> INT_MAX"
  shows "\<exists>s. sb_to_string s = sb_to_string (cn_in c) @ concat ds \<and>
    conn_handle_read V cb (map Recv_Data ds @ [Recv_Error EWOULDBLOCK]) c L = conn_close V cb (c\<lparr>cn_in := s\<rparr>) L"
proof -
  let ?as = "map Recv_Data ds @ [Recv_Error EWOULDBLOCK]"
  have "recv_prefix ?as = concat ds \<and> recv_fails ?as" using assms(2) by (induction ds) auto
  with isb_read_result [OF assms(1), of ?as] assms(3) obtain e s rest where
    "isb_read (cn_in c) ?as = Inr (-1, e, s, rest)" "ss_str s = ss_str (cn_in c) @ concat ds" by auto
  then show ?thesis by (intro exI [of _ s]) (simp add: conn_handle_read_def sb_to_string_def)
qed

theorem exact_chunk_closes_witness:
  "\<exists>s. sb_to_string s = replicate RECV_LEN 5 \<and>
    conn_handle_read virt counting_app [Recv_Data (replicate RECV_LEN 5), Recv_Error EWOULDBLOCK] sample_conn conn_loop =
      conn_close virt counting_app (sample_conn\<lparr>cn_in := s\<rparr>) conn_loop"
  using exact_chunk_closes [of sample_conn "[replicate RECV_LEN 5]" virt counting_app conn_loop]
  by (simp add: RECV_LEN_def INT_MAX_def sb_to_string_def sb_new_def ss_new_def ss_str_def at_end_def)

text \<open>
  An application that leaves part of its input in the buffer (an incomplete message, for
  instance) loses it: the next bytes received are written over what was left, not after it.
\<close>

theorem conn_read_partial_overwrites:
  assumes "at_end (cn_in c)" "cn_live c" "bs \<noteq> []" "length bs < RECV_LEN" "length next < RECV_LEN" "next \<noteq> []"
    and "on_read cb (sb_to_string (cn_in c) @ bs) (cn_user c) = (u, [], int len)"
    and "len < length (sb_to_string (cn_in c) @ bs)" "int (length (sb_to_string (cn_in c) @ bs)) \<le> INT_MAX"
  shows "\<exists>c1 s. conn_handle_read V cb [Recv_Data bs] c L = Inr (c1, L) \<and>
    sb_to_string (cn_in c1) = drop len (sb_to_string (cn_in c) @ bs) \<and>
    isb_read (cn_in c1) [Recv_Data next] = Inr (int (length next), None, s, []) \<and>
    sb_to_string s = next @ drop (len + length next) (sb_to_string (cn_in c) @ bs)"
proof -
  let ?all = "ss_str (cn_in c) @ bs"
  let ?s = "ss_write (cn_in c) bs"
  let ?c1 = "c\<lparr>cn_in := ss_set_str ?s (drop len ?all), cn_user := u\<rparr>"
  have all: "ss_str ?s = ?all" using ss_write_append [OF assms(1)] .
  have n: "int (length bs) \<le> INT_MAX" "int (length next) \<le> INT_MAX"
    using assms(4,5) by (simp_all add: RECV_LEN_def INT_MAX_def)
  have ign: "sb_ignore ?s (int len) = ss_set_str ?s (drop len ?all)"
    using all assms(8,9) c_int_nat_id [of "length ?all"] by (simp add: sb_ignore_def sb_to_string_def del: c_int_nat_id)
  have "conn_handle_read V cb [Recv_Data bs] c L = Inr (?c1, L)"
    using assms(2-4,7) n all ign by (simp add: conn_handle_read_def isb_read_def sb_to_string_def)
  moreover have "isb_read (cn_in ?c1) [Recv_Data next] = Inr (int (length next), None, ss_write (cn_in ?c1) next, [])"
    using assms(5,6) n by (simp add: isb_read_def)
  ultimately show ?thesis
    by (intro exI [of _ ?c1] exI [of _ "ss_write (cn_in ?c1) next"])
      (simp add: sb_to_string_def ss_str_def ss_set_str_def ss_write_def add.commute del: drop_append)
qed

theorem conn_read_partial_overwrites_witness:
  "\<exists>c1 s. conn_handle_read virt (counting_app\<lparr>on_read := \<lambda>bs u. (u, [], 0)\<rparr>) [Recv_Data [1, 2, 3]] sample_conn conn_loop
      = Inr (c1, conn_loop) \<and> sb_to_string (cn_in c1) = [1, 2, 3] \<and>
    isb_read (cn_in c1) [Recv_Data [4, 5]] = Inr (2, None, s, []) \<and> sb_to_string s = [4, 5, 3]"
  using conn_read_partial_overwrites [of sample_conn "[1, 2, 3]" "[4, 5]" "counting_app\<lparr>on_read := \<lambda>bs u. (u, [], 0)\<rparr>" 0 0 virt conn_loop]
  by (simp add: RECV_LEN_def INT_MAX_def sb_to_string_def sb_new_def ss_new_def ss_str_def at_end_def)

text \<open>
  Claim C40. \<^verbatim>\<open>open\<close> registers the descriptor only after \<^verbatim>\<open>on_connect\<close>: on the poll and epoll dispatchers
  an \<^verbatim>\<open>on_connect\<close> that sends first thing (a greeting) makes \<^verbatim>\<open>send\<close> modify a registration that does
  not exist yet, and the process stops at its assertion.
\<close>

theorem on_connect_send_aborts:
  assumes "in_sync L" "sl_dispatcher L = Some d" "\<forall>e. d \<noteq> D_Select e"
    and "get_fd remote > 0" "get_fd remote \<notin> live_keys (sl_handlers L)"
    and "cn_live c" "cn_srv_loop c \<noteq> NULL" "cn_self c \<noteq> NULL"
    and "on_connect cb remote (cn_user c) = (u, Cmd_Send data # cmds)"
  shows "conn_open virt cb remote c L = Inl Assertion_Failed"
proof -
  let ?h = "get_fd remote"
  from assms(1,2,5) have d: "disp_invar d" "?h \<notin> disp_watched d" by (auto simp: loop_sync_def)
  have "virt_mod d ?h True True = Inl Assertion_Failed \<or>
      (\<exists>d'. virt_mod d ?h True True = Inr (False, d') \<and> virt_errno d' \<noteq> 0)"
  proof (cases d)
    case (D_Poll e)
    with d(2) have "pfds_replace ?h (poll_make_pfd ?h True True) (poll_fds e) = None"
      unfolding pfds_replace_None by (simp add: poll_watched_def)
    with D_Poll show ?thesis by (simp add: poll_mod_event_def wrap_result_def)
  next
    case (D_Epoll e)
    with d have "ep_ctl e (ep_interest e) EPOLL_CTL_MOD ?h \<noteq> 0"
      by (auto simp: epoll_invar_def epoll_watched_def epoll_ctl_documented_def)
    with D_Epoll show ?thesis by (simp add: epoll_mod_event_def epoll_events_cases wrap_result_def)
  qed (use assms(3) in blast)
  then have "conn_modify virt True True c' L = Inl Assertion_Failed"
    if "conn_handle c' = ?h" "cn_srv_loop c' \<noteq> NULL" "cn_self c' \<noteq> NULL" for c' :: "'u connection"
    using that assms(2,4) by (auto simp: conn_modify_def modify_event_def the_dispatcher_def)
  note abort = this
  let ?c = "conn_set_remote_addr c remote\<lparr>cn_in := sb_clear (cn_in c), cn_user := u,
    cn_out := osb_put (sb_clear (cn_out c)) data\<rparr>"
  have "conn_handle ?c = ?h" "cn_srv_loop ?c \<noteq> NULL" "cn_self ?c \<noteq> NULL"
    using assms(7,8) by (simp_all add: conn_handle_def conn_set_remote_addr_def socket_address_assign_def get_fd_def)
  from abort [OF this] have m: "conn_modify virt True True
    (conn_set_remote_addr c remote\<lparr>cn_in := sb_clear (cn_in c), cn_user := u, cn_out := osb_put (sb_clear (cn_out c)) data\<rparr>) L
      = Inl Assertion_Failed" .
  show ?thesis
    using m assms(6,9) by (simp add: conn_open_def conn_send_def osb_empty_def conn_set_remote_addr_def Let_def)
qed

theorem on_connect_send_aborts_witness:
  "conn_open virt (counting_app\<lparr>on_connect := \<lambda>r u. (u, [Cmd_Send [72, 105]])\<rparr>) (socket_address_of_fd 9 zero_sockaddr)
     sample_conn conn_loop = Inl Assertion_Failed"
  by (rule on_connect_send_aborts [OF conn_loop_sync conn_loop_simps(1)])
    (auto simp: socket_address_of_fd_def get_fd_def live_keys_def)

text \<open>
  An \<^verbatim>\<open>on_read\<close> that closes its connection never gets back to the loop: the object is
  deleted inside \<^verbatim>\<open>close\<close> and \<^verbatim>\<open>do_handle_read\<close> then uses its input buffer.
\<close>

theorem on_read_close_use_after_free:
  assumes "isb_read (cn_in c) as = Inr (ret, e, s, rest)" "ret > 0"
    and "on_read cb (sb_to_string s) (cn_user c) = (u, cmds, len)" "Cmd_Close \<in> set cmds"
  shows "(\<forall>c' L'. conn_handle_read V cb as c L \<noteq> Inr (c', L')) \<and>
    (cmds = [Cmd_Close] \<and> conn_wired c \<and> delete_event V L (conn_handle c) = Inr (0, L') \<longrightarrow>
      conn_handle_read V cb as c L = Inl Use_After_Free)"
proof (intro conjI impI allI notI)
  fix c' L'
  assume "conn_handle_read V cb as c L = Inr (c', L')"
  with assms obtain c2 L2 where "run_cmds V cb cmds (c\<lparr>cn_in := s, cn_user := u\<rparr>) L = Inr (c2, L2)" "cn_live c2"
    by (auto simp: conn_handle_read_def bind_exec_eq_Inr)
  with run_cmds_close [OF assms(4)] show False by blast
next
  assume "cmds = [Cmd_Close] \<and> conn_wired c \<and> delete_event V L (conn_handle c) = Inr (0, L')"
  with assms(1-3) show "conn_handle_read V cb as c L = Inl Use_After_Free"
    by (simp add: conn_handle_read_def conn_close_def conn_wired_def)
qed

theorem on_read_close_use_after_free_witness:
  "\<forall>c' L'. conn_handle_read virt (counting_app\<lparr>on_read := \<lambda>bs u. (u, [Cmd_Close], 1)\<rparr>) [Recv_Data [1]] sample_conn conn_loop
     \<noteq> Inr (c', L')"
proof -
  have "isb_read (cn_in sample_conn) [Recv_Data [1]] = Inr (1, None, ss_write sb_new [1], [])"
    by (simp add: isb_read_def RECV_LEN_def INT_MAX_def)
  from on_read_close_use_after_free [OF this, of "counting_app\<lparr>on_read := \<lambda>bs u. (u, [Cmd_Close], 1)\<rparr>" 0 "[Cmd_Close]" 1
      virt conn_loop conn_loop]
  show ?thesis by simp
qed

end
