(* ===== verification/Connection_Effects.thy ===== *)
theory Connection_Effects
  imports Connection
begin

text \<open>
  What the operations of a registered connection can do to the loop and to the connection object,
  for a subclass whose \<^verbatim>\<open>on_read\<close> makes one \<^verbatim>\<open>send\<close> (the example servers' handlers): the
  object stays alive and only the dispatcher changes, or the object deletes itself and takes its
  handler out of the loop. And that none of them uses a deleted object.
\<close>

section \<open>An event on a connection\<close>

text \<open>\<open>rcv\<close> and \<open>sent\<close> are the system's answers to the successive \<^verbatim>\<open>recv\<close> and \<^verbatim>\<open>send\<close> calls.\<close>

definition conn_event ::
  "'u callbacks \<Rightarrow> recv_answer list \<Rightarrow> send_answer list \<Rightarrow> int \<Rightarrow> 'u connection \<Rightarrow> (dispatcher, 'f, 'z) service_loop_scheme \<Rightarrow>
     ('u connection \<times> (dispatcher, 'f, 'z) service_loop_scheme) exec" where
  "conn_event cb rcv sent ev c L =
     handler_call (\<lambda>io. conn_handle_read virt cb (fst io)) (\<lambda>io. conn_handle_write virt (snd io))
       (\<lambda>io. conn_handle_error virt cb) ev (rcv, sent) c L"

definition answers_once :: "'u callbacks \<Rightarrow> bool" where
  "answers_once cb \<longleftrightarrow> (\<forall>input u. \<exists>u' d n. on_read cb input u = (u', [Cmd_Send d], n))"

lemma answers_onceE:
  assumes "answers_once cb"
  obtains u' d n where "on_read cb input u = (u', [Cmd_Send d], n)"
  using assms by (fastforce simp: answers_once_def)

section \<open>The frame of each operation\<close>

text \<open>How an operation of a registered connection can change the rest: only the dispatcher.\<close>

definition only_dispatcher :: "('d, 'f, 'z) service_loop_scheme \<Rightarrow> ('d, 'f, 'z) service_loop_scheme \<Rightarrow> bool" where
  "only_dispatcher L L' \<longleftrightarrow> (\<exists>d. L' = L\<lparr>sl_dispatcher := d\<rparr>)"

lemma only_dispatcher_refl [simp]: "only_dispatcher L L"
  unfolding only_dispatcher_def by (rule exI [of _ "sl_dispatcher L"]) simp

lemma only_dispatcher_trans: "only_dispatcher L M \<Longrightarrow> only_dispatcher M N \<Longrightarrow> only_dispatcher L N"
  by (auto simp: only_dispatcher_def)

lemma conn_modify_only:
  assumes "conn_modify V r w c L = Inr L'" "conn_ready c L"
  shows "only_dispatcher L L'"
proof -
  from assms(1) have "modify_event V L (conn_handle c) r w (cn_self c) = Inr (0, L')" by (simp add: conn_modify_result)
  from modify_event_handlers [OF this] obtain d' ok where
    "L' = L\<lparr>sl_dispatcher := Some d', sl_handlers := (if ok then (sl_handlers L)(conn_handle c \<mapsto> cn_self c) else sl_handlers L)\<rparr>"
    by blast
  moreover have "(sl_handlers L)(conn_handle c \<mapsto> cn_self c) = sl_handlers L"
    using assms(2) by (simp add: conn_ready_def fun_upd_idem)
  ultimately have "L' = L\<lparr>sl_dispatcher := Some d'\<rparr>" by simp
  then show ?thesis unfolding only_dispatcher_def by blast
qed

text \<open>What stays of a connection object.\<close>

definition same_conn :: "'u connection \<Rightarrow> 'u connection \<Rightarrow> bool" where
  "same_conn c c' \<longleftrightarrow> cn_self c' = cn_self c \<and> cn_remote c' = cn_remote c \<and> cn_srv_loop c' = cn_srv_loop c"

lemma same_conn_handle: "same_conn c c' \<Longrightarrow> conn_handle c' = conn_handle c"
  by (simp add: same_conn_def conn_handle_def)

lemma conn_send_frame:
  assumes "conn_send V d c L = Inr (c', L')" "conn_ready c L"
  shows "same_conn c c' \<and> cn_live c' \<and> only_dispatcher L L'"
proof -
  let ?c = "c\<lparr>cn_out := osb_put (cn_out c) d\<rparr>"
  from assms(1) have r: "c' = ?c" "cn_live c" "conn_modify V True True ?c L = Inr L' \<or> L' = L"
    by (auto simp: conn_send_def Let_def bind_exec_eq_Inr split: if_splits)
  have "conn_ready ?c L" using assms(2) by (simp add: conn_ready_def)
  with r conn_modify_only [of V True True ?c L L'] show ?thesis by (auto simp: same_conn_def)
qed

lemma conn_write_loop_frame:
  "conn_write_loop V msg as c L = Inr (c', L') \<Longrightarrow> conn_ready c L \<Longrightarrow>
   same_conn c c' \<and> cn_live c' \<and> only_dispatcher L L'"
proof (induction as arbitrary: msg c L)
  case Nil
  then show ?case by (simp add: same_conn_def conn_ready_def split: if_splits)
next
  case (Cons a as)
  have idle: ?case if "c' = c" "L' = L" using that Cons.prems(2) by (simp add: same_conn_def conn_ready_def)
  show ?case
  proof (cases a)
    case (Send_Error e)
    with Cons idle show ?thesis by (simp split: if_splits)
  next
    case (Send_Count n)
    let ?c = "c\<lparr>cn_out := sb_ignore (cn_out c) (c_int (int n)), cn_sent := cn_sent c @ take n msg\<rparr>"
    show ?thesis
    proof (cases "msg = [] \<or> n = 0")
      case True
      with Cons.prems(1) Send_Count idle show ?thesis by (cases "msg = []") simp_all
    next
      case False
      with Cons.prems Send_Count obtain L1 where
        L1: "(if osb_empty (cn_out ?c) then conn_modify V True False ?c L else Inr L) = Inr L1"
          "conn_write_loop V (sb_to_string (cn_out ?c)) as ?c L1 = Inr (c', L')"
        by (auto simp: Let_def bind_exec_eq_Inr)
      have c: "conn_ready ?c L" using Cons.prems(2) by (simp add: conn_ready_def)
      from L1(1) conn_modify_only [of V True False ?c L L1, OF _ c] have o: "only_dispatcher L L1"
        by (auto split: if_splits)
      then have "conn_ready ?c L1" using c by (auto simp: only_dispatcher_def conn_ready_def)
      from Cons.IH [OF L1(2) this] o show ?thesis by (auto simp: same_conn_def intro: only_dispatcher_trans)
    qed
  qed
qed

lemma conn_close_frame:
  assumes "conn_close virt cb c L = Inr (c', L')" "conn_ready c L" "conn_handle c > 0" "in_sync L"
  shows "same_conn c c' \<and> \<not> cn_live c' \<and> (\<exists>d. L' = L\<lparr>sl_dispatcher := d, sl_handlers := (sl_handlers L)(conn_handle c := None)\<rparr>)"
proof -
  from assms(1,3) have c': "c' = c\<lparr>cn_user := on_close cb (cn_user c), cn_live := False\<rparr>"
    and d: "delete_event virt L (conn_handle c) = Inr (0, L')"
    by (auto simp: conn_close_def bind_exec_eq_Inr)
  from assms(2) have "sl_handlers L (conn_handle c) \<noteq> None" by (simp add: conn_ready_def)
  with delete_event_handlers [OF d] obtain d' hs where "L' = L\<lparr>sl_dispatcher := Some d', sl_handlers := hs\<rparr>" by blast
  moreover from any.delete_event_sync [OF assms(4) d] have "sl_handlers L' = (sl_handlers L)(conn_handle c := None)" by simp
  ultimately have "L' = L\<lparr>sl_dispatcher := Some d', sl_handlers := (sl_handlers L)(conn_handle c := None)\<rparr>" by simp
  with c' show ?thesis by (auto simp: same_conn_def)
qed

text \<open>The outcome of any event on a connection of the server.\<close>

definition conn_outcome :: "'u connection \<Rightarrow> ('d, 'f, 'z) service_loop_scheme \<Rightarrow> 'u connection \<Rightarrow> ('d, 'f, 'z) service_loop_scheme \<Rightarrow> bool" where
  "conn_outcome c L c' L' \<longleftrightarrow> same_conn c c' \<and>
     (cn_live c' \<and> only_dispatcher L L' \<or>
      \<not> cn_live c' \<and> (\<exists>d. L' = L\<lparr>sl_dispatcher := d, sl_handlers := (sl_handlers L)(conn_handle c := None)\<rparr>))"

lemma conn_read_outcome_once:
  assumes "conn_handle_read virt cb as c L = Inr (c', L')" "answers_once cb"
    and "conn_ready c L" "conn_handle c > 0" "in_sync L"
  shows "conn_outcome c L c' L'"
proof -
  from assms(1) obtain ret e s rest where r: "isb_read (cn_in c) as = Inr (ret, e, s, rest)"
    by (cases "isb_read (cn_in c) as") (auto simp: conn_handle_read_def)
  let ?c = "c\<lparr>cn_in := s\<rparr>"
  have c: "conn_ready ?c L" "conn_handle ?c > 0" using assms(3,4) by (simp_all add: conn_ready_def)
  show ?thesis
  proof (cases "ret \<le> 0")
    case True
    with r assms(1) have "conn_close virt cb ?c L = Inr (c', L')" by (simp add: conn_handle_read_def)
    from conn_close_frame [OF this c assms(5)] show ?thesis by (auto simp: conn_outcome_def same_conn_def)
  next
    case False
    obtain u d n where cmd: "on_read cb (sb_to_string s) (cn_user ?c) = (u, [Cmd_Send d], n)"
      by (rule answers_onceE [OF assms(2)])
    with False r assms(1) obtain c2 where c2: "conn_send virt d (?c\<lparr>cn_user := u\<rparr>) L = Inr (c2, L')"
      "c' = c2\<lparr>cn_in := sb_ignore (cn_in c2) n\<rparr>"
      by (auto simp: conn_handle_read_def bind_exec_eq_Inr)
    have "conn_ready (?c\<lparr>cn_user := u\<rparr>) L" using c(1) by (simp add: conn_ready_def)
    from conn_send_frame [OF c2(1) this] c2(2) show ?thesis by (auto simp: conn_outcome_def same_conn_def)
  qed
qed

lemma conn_event_outcome:
  assumes "conn_event cb rcv sent ev c W = Inr (c', W')" "answers_once cb"
    and "conn_ready c W" "conn_handle c > 0" "in_sync W"
  shows "conn_outcome c W c' W' \<and> in_sync W'"
proof -
  have "conn_handle_read virt cb rcv c W = Inr (c', W') \<or>
      conn_write_loop virt (sb_to_string (cn_out c)) sent c W = Inr (c', W') \<or>
      conn_close virt cb c W = Inr (c', W') \<or> c' = c \<and> W' = W"
    using assms(1) unfolding conn_event_def handler_call_def conn_handle_write_def conn_handle_error_def
    by (cases "ev = EVENT_READ"; cases "ev = EVENT_WRITE"; cases "ev = EVENT_ERROR") simp_all
  then consider (rd) "conn_handle_read virt cb rcv c W = Inr (c', W')"
    | (wr) "conn_write_loop virt (sb_to_string (cn_out c)) sent c W = Inr (c', W')"
    | (er) "conn_close virt cb c W = Inr (c', W')"
    | (no) "c' = c" "W' = W" by blast
  then have o: "conn_outcome c W c' W'"
  proof cases
    case rd
    from conn_read_outcome_once [OF rd assms(2-5)] show ?thesis .
  next
    case wr
    from conn_write_loop_frame [OF wr assms(3)] show ?thesis by (simp add: conn_outcome_def)
  next
    case er
    from conn_close_frame [OF er assms(3-5)] show ?thesis by (simp add: conn_outcome_def)
  next
    case no
    with assms(3) show ?thesis by (simp add: conn_outcome_def same_conn_def conn_ready_def)
  qed
  have "in_sync W'"
    using conn.event_sync [of W c cb ev "(rcv, sent)" c' W'] assms(1,3,5)
    by (simp add: conn_event_def handler_call_def split: if_splits)
  with o show ?thesis by blast
qed

text \<open>\<^verbatim>\<open>open\<close>, for a subclass whose \<^verbatim>\<open>on_connect\<close> makes no call.\<close>

definition quiet_connect :: "'u callbacks \<Rightarrow> bool" where
  "quiet_connect cb \<longleftrightarrow> (\<forall>remote u. snd (on_connect cb remote u) = [])"

lemma conn_open_effect:
  assumes "conn_open virt cb addr c L = Inr (c', L')" "quiet_connect cb"
    and "in_sync L" "get_fd addr \<notin> live_keys (sl_handlers L)"
  shows "in_sync L' \<and> (\<exists>d. L' = L\<lparr>sl_dispatcher := d, sl_handlers := (sl_handlers L)(get_fd addr \<mapsto> cn_self c)\<rparr>) \<and>
    cn_self c' = cn_self c \<and> conn_handle c' = get_fd addr \<and> cn_live c' \<and> cn_srv_loop c' = cn_srv_loop c"
proof -
  obtain u where u: "on_connect cb addr (cn_user c) = (u, [])"
    using assms(2) by (metis prod.collapse quiet_connect_def)
  let ?c = "(conn_set_remote_addr c addr)\<lparr>cn_in := sb_clear (cn_in c), cn_out := sb_clear (cn_out c), cn_user := u\<rparr>"
  have h: "conn_handle ?c = get_fd addr" "cn_self ?c = cn_self c" "cn_srv_loop ?c = cn_srv_loop c" "cn_live ?c = cn_live c"
    by (simp_all add: conn_handle_def conn_set_remote_addr_def socket_address_assign_def get_fd_def)
  from assms(1) u have r: "c' = ?c" "cn_live c" "register_event virt L (get_fd addr) True False (cn_self c) = Inr (0, L')"
    by (auto simp: conn_open_def Let_def bind_exec_eq_Inr conn_handle_def conn_set_remote_addr_def
        socket_address_assign_def get_fd_def)
  from any.register_event_sync [OF assms(3,4) r(3)]
  have s: "in_sync L'" "sl_handlers L' = (sl_handlers L)(get_fd addr \<mapsto> cn_self c)" by auto
  from register_event_handlers [OF r(3)] obtain d hs where "L' = L\<lparr>sl_dispatcher := d, sl_handlers := hs\<rparr>" by blast
  with s(2) have "L' = L\<lparr>sl_dispatcher := d, sl_handlers := (sl_handlers L)(get_fd addr \<mapsto> cn_self c)\<rparr>" by simp
  with s(1) r(1,2) h show ?thesis by auto
qed

section \<open>Where a deleted object could be used\<close>

text \<open>
  None of the operations below the connections can; the connections' own operations cannot as
  long as the object is alive.
\<close>

lemma no_uaf_case_prod [uaf_intros]: "(\<And>a b. x = (a, b) \<Longrightarrow> no_uaf (f a b)) \<Longrightarrow> no_uaf (case x of (a, b) \<Rightarrow> f a b)"
  by (cases x) simp

lemma virt_no_uaf [uaf_intros]:
  "no_uaf (virt_add d h r w)" "no_uaf (virt_mod d h r w)" "no_uaf (virt_del d h)" "no_uaf (virt_handle_events d os rd t)"
proof -
  show "no_uaf (virt_add d h r w)"
    by (cases d) (auto simp: wrap_result_def fdset_op_defs poll_add_event_def epoll_add_event_def epoll_events_cases
        epoll_count_inc_def Let_def intro!: uaf_intros)
  show "no_uaf (virt_mod d h r w)"
    by (cases d) (auto simp: wrap_result_def fdset_op_defs poll_mod_event_def epoll_mod_event_def epoll_events_cases
        Let_def intro!: uaf_intros split: option.splits)
  show "no_uaf (virt_del d h)"
    by (cases d) (auto simp: wrap_result_def fdset_op_defs poll_del_event_def epoll_del_event_def
        epoll_count_inc_def Let_def intro!: uaf_intros)
  show "no_uaf (virt_handle_events d os rd t)"
    by (cases d) (auto simp: wrap_ready_def select_handle_events_def poll_handle_events_def epoll_handle_events_def
        Let_def intro!: uaf_intros split: sum.splits)
qed

lemma the_dispatcher_no_uaf [uaf_intros]: "no_uaf (the_dispatcher L)"
  by (simp add: the_dispatcher_def split: option.splits)

lemma loop_ops_no_uaf [uaf_intros]:
  "no_uaf (register_event virt L h r w p)" "no_uaf (modify_event virt L h r w p)" "no_uaf (delete_event virt L h)"
proof -
  show "no_uaf (register_event virt L h r w p)"
    unfolding register_event_def vtable_virt_simps by (intro uaf_intros) simp_all
  show "no_uaf (modify_event virt L h r w p)"
    unfolding modify_event_def vtable_virt_simps Let_def by (intro uaf_intros) (simp_all add: case_prod_beta)
  show "no_uaf (delete_event virt L h)"
    unfolding delete_event_def vtable_virt_simps
    by (cases "sl_handlers L h") (auto intro!: uaf_intros)
qed

lemma service_loop_delete_no_uaf [uaf_intros]: "no_uaf (service_loop_delete virt L st)"
  unfolding service_loop_delete_def wakeup_close_def Let_def
  by (cases "sl_wakeup L") (auto intro!: uaf_intros)

lemma conn_modify_no_uaf [uaf_intros]: "no_uaf (conn_modify virt r w c L)"
  unfolding conn_modify_def by (intro uaf_intros) simp_all

lemma conn_send_no_uaf: "cn_live c \<Longrightarrow> no_uaf (conn_send virt d c L)"
  unfolding conn_send_def Let_def by (intro uaf_intros) simp_all

lemma conn_close_no_uaf: "cn_live c \<Longrightarrow> no_uaf (conn_close virt cb c L)"
  unfolding conn_close_def by (intro uaf_intros) simp_all

lemma isb_read_loop_no_uaf: "no_uaf (isb_read_loop s n as)"
  by (induction s n as rule: isb_read_loop.induct) (simp_all add: Let_def)

lemma conn_write_loop_no_uaf: "no_uaf (conn_write_loop virt msg as c L)"
proof (induction as arbitrary: msg c L)
  case (Cons a as)
  then show ?case
    by (cases a) (auto simp: Let_def intro!: uaf_intros)
qed simp

lemma conn_read_no_uaf_once:
  assumes "conn_ready c L" "answers_once cb"
  shows "no_uaf (conn_handle_read virt cb as c L)"
proof -
  have live: "cn_live c" using assms(1) by (simp add: conn_ready_def)
  have ready: "conn_ready (c\<lparr>cn_in := s, cn_user := u\<rparr>) L" for s u using assms(1) by (simp add: conn_ready_def)
  have send: "no_uaf (bind_exec (run_cmds virt cb [Cmd_Send d] (c\<lparr>cn_in := s, cn_user := u\<rparr>) L)
      (\<lambda>(c2, L2). bind_exec (check (cn_live c2) Use_After_Free) (\<lambda>_. Inr (c2\<lparr>cn_in := sb_ignore (cn_in c2) n\<rparr>, L2))))" for s u d n
    using conn_send_frame [OF _ ready] conn_send_no_uaf [of "c\<lparr>cn_in := s, cn_user := u\<rparr>"] live
    by (fastforce intro!: uaf_intros simp: bind_exec_eq_Inr)
  have body: "no_uaf (let (u, cmds, len) = on_read cb (sb_to_string (cn_in (c\<lparr>cn_in := s\<rparr>))) (cn_user (c\<lparr>cn_in := s\<rparr>)) in
      bind_exec (run_cmds virt cb cmds (c\<lparr>cn_in := s, cn_user := u\<rparr>) L) (\<lambda>(c2, L2).
      bind_exec (check (cn_live c2) Use_After_Free) (\<lambda>_. Inr (c2\<lparr>cn_in := sb_ignore (cn_in c2) len\<rparr>, L2))))" for s
  proof -
    obtain u' d n where "on_read cb (sb_to_string (cn_in (c\<lparr>cn_in := s\<rparr>))) (cn_user (c\<lparr>cn_in := s\<rparr>)) = (u', [Cmd_Send d], n)"
      by (rule answers_onceE [OF assms(2)])
    with send show ?thesis by simp
  qed
  show ?thesis
  proof (cases "isb_read (cn_in c) as")
    case (Inl e)
    with isb_read_loop_no_uaf [of "cn_in c" 0 as] show ?thesis by (simp add: conn_handle_read_def isb_read_def)
  next
    case (Inr r)
    obtain ret e s rest where r: "isb_read (cn_in c) as = Inr (ret, e, s, rest)" using Inr by (cases r) auto
    show ?thesis
    proof (cases "ret \<le> 0")
      case True
      have "cn_live (c\<lparr>cn_in := s\<rparr>)" using live by simp
      from conn_close_no_uaf [OF this] True r show ?thesis by (simp add: conn_handle_read_def)
    next
      case False
      with r body [of s] show ?thesis by (simp add: conn_handle_read_def)
    qed
  qed
qed

lemma conn_open_no_uaf: "quiet_connect cb \<Longrightarrow> cn_live c \<Longrightarrow> no_uaf (conn_open virt cb addr c L)"
  by (simp add: conn_open_def Let_def quiet_connect_def case_prod_beta conn_set_remote_addr_def)
    (intro uaf_intros; simp)

lemma conn_event_no_uaf: "conn_ready c W \<Longrightarrow> answers_once cb \<Longrightarrow> no_uaf (conn_event cb rcv sent ev c W)"
  unfolding conn_event_def handler_call_def conn_handle_write_def conn_handle_error_def
  by (intro uaf_intros conn_read_no_uaf_once conn_write_loop_no_uaf conn_close_no_uaf)
    (simp_all add: conn_ready_def)

lemma wakeup_handle_read_no_uaf: "no_uaf (wakeup_handle_read f wk)"
  by (auto simp: wakeup_handle_read_def intro!: uaf_intros split: sum.splits)

lemma dispatch_event_once:
  "dispatch_event invoke fd ev L =
     (let p = fst (map_index (sl_handlers L) fd); L0 = L\<lparr>sl_handlers := snd (map_index (sl_handlers L) fd)\<rparr> in
      if p \<noteq> NULL \<and> ev \<in> {EVENT_READ, EVENT_WRITE, EVENT_ERROR} then invoke p ev L0 else Inr L0)"
  unfolding dispatch_event_def Let_def case_prod_beta event_defs
  by (cases "fst (map_index (sl_handlers L) fd) = NULL"; cases "ev = 0"; cases "ev = 1"; cases "ev = 2") simp_all

end
