(* ===== verification/Connection_Stream.thy ===== *)
theory Connection_Stream
  imports Connection_Effects
begin

text \<open>
  The life of one connection on its loop: the events its dispatcher reports, each only for a
  direction that is watched, between whatever the loop's other handlers do. What the peer receives is
  compared with what the subclass passed to \<^verbatim>\<open>send\<close>, over runs of any length.
\<close>

section \<open>What a subclass sends\<close>

fun cmd_bytes :: "conn_cmd list \<Rightarrow> bytes" where
  "cmd_bytes [] = []"
| "cmd_bytes (Cmd_Send d # cmds) = d @ cmd_bytes cmds"
| "cmd_bytes (Cmd_Close # cmds) = cmd_bytes cmds"

text \<open>Every call \<^verbatim>\<open>on_read\<close> makes is a \<^verbatim>\<open>send\<close> of a non-empty text.\<close>

definition sends_only :: "'u callbacks \<Rightarrow> bool" where
  "sends_only cb \<longleftrightarrow> (\<forall>input u. input \<noteq> [] \<longrightarrow> (\<forall>cmd\<in>set (fst (snd (on_read cb input u))). \<exists>d. d \<noteq> [] \<and> cmd = Cmd_Send d))"

text \<open>What one \<^verbatim>\<open>do_handle_read\<close> passes to \<^verbatim>\<open>send\<close>, and what it hands to the subclass.\<close>

definition given_by :: "'u callbacks \<Rightarrow> recv_answer list \<Rightarrow> 'u connection \<Rightarrow> bytes" where
  "given_by cb rcv c =
     (case isb_read (cn_in c) rcv of
        Inl e \<Rightarrow> []
      | Inr (ret, e, s, rest) \<Rightarrow> if ret \<le> 0 then [] else cmd_bytes (fst (snd (on_read cb (sb_to_string s) (cn_user c)))))"

definition heard_by :: "recv_answer list \<Rightarrow> 'u connection \<Rightarrow> bytes" where
  "heard_by rcv c =
     (case isb_read (cn_in c) rcv of
        Inl e \<Rightarrow> []
      | Inr (ret, e, s, rest) \<Rightarrow> if ret \<le> 0 then [] else recv_prefix rcv)"

section \<open>Runs of one connection\<close>

text \<open>
  A state is the connection, its loop, and two histories: the bytes handed to the subclass so far and
  the bytes it passed to \<^verbatim>\<open>send\<close>. \<open>other\<close> is anything the loop does for its other handlers.
\<close>

type_synonym ('u, 'f, 'z) stream_state = "'u connection \<times> (dispatcher, 'f, 'z) service_loop_scheme \<times> bytes \<times> bytes"

definition same_watch :: "int \<Rightarrow> (dispatcher, 'f, 'z) service_loop_scheme \<Rightarrow> (dispatcher, 'f, 'z) service_loop_scheme \<Rightarrow> bool" where
  "same_watch h L L' \<longleftrightarrow> sl_handlers L' h = sl_handlers L h \<and>
     (\<exists>d d'. sl_dispatcher L = Some d \<and> sl_dispatcher L' = Some d' \<and> is_epoll d' = is_epoll d \<and>
        disp_reads d' h = disp_reads d h \<and> disp_writes d' h = disp_writes d h)"

inductive stream_step :: "'u callbacks \<Rightarrow> ('u, 'f, 'z) stream_state \<Rightarrow> ('u, 'f, 'z) stream_state \<Rightarrow> bool" for cb where
  stream_read: "conn_ready c L \<Longrightarrow> sl_dispatcher L = Some d \<Longrightarrow> disp_reads d (conn_handle c) \<Longrightarrow>
    conn_handle_read virt cb rcv c L = Inr (c', L') \<Longrightarrow>
    stream_step cb (c, L, heard, given) (c', L', heard @ heard_by rcv c, given @ given_by cb rcv c)"
| stream_write: "conn_ready c L \<Longrightarrow> sl_dispatcher L = Some d \<Longrightarrow> disp_writes d (conn_handle c) \<Longrightarrow>
    send_script (sb_length (cn_out c)) sent \<Longrightarrow>
    conn_handle_write virt sent c L = Inr (c', L') \<Longrightarrow>
    stream_step cb (c, L, heard, given) (c', L', heard, given)"
| stream_error: "conn_ready c L \<Longrightarrow> conn_handle_error virt cb c L = Inr (c', L') \<Longrightarrow>
    stream_step cb (c, L, heard, given) (c', L', heard, given)"
| stream_other: "in_sync L' \<Longrightarrow> same_watch (conn_handle c) L L' \<Longrightarrow>
    stream_step cb (c, L, heard, given) (c, L', heard, given)"

inductive stream_reachable :: "'u callbacks \<Rightarrow> ('u, 'f, 'z) stream_state \<Rightarrow> ('u, 'f, 'z) stream_state \<Rightarrow> bool" for cb x0 where
  stream_begin: "stream_reachable cb x0 x0"
| stream_next: "stream_reachable cb x0 x \<Longrightarrow> stream_step cb x y \<Longrightarrow> stream_reachable cb x0 y"

inductive_cases stream_stepE: "stream_step cb x y"

text \<open>The same as a function: the events of a run, each with the system's answers.\<close>

datatype stream_event = Ev_Recv "recv_answer list" | Ev_Send "send_answer list" | Ev_Error

definition watches :: "(dispatcher \<Rightarrow> int \<Rightarrow> bool) \<Rightarrow> 'u connection \<Rightarrow> (dispatcher, 'f, 'z) service_loop_scheme \<Rightarrow> bool" where
  "watches f c L \<longleftrightarrow> (case sl_dispatcher L of None \<Rightarrow> False | Some d \<Rightarrow> f d (conn_handle c))"

fun run_stream :: "'u callbacks \<Rightarrow> stream_event list \<Rightarrow> ('u, 'f, 'z) stream_state \<Rightarrow> ('u, 'f, 'z) stream_state exec" where
  "run_stream cb [] x = Inr x"
| "run_stream cb (Ev_Recv rcv # evs) (c, L, heard, given) =
     (if conn_ready c L \<and> watches disp_reads c L
      then bind_exec (conn_handle_read virt cb rcv c L) (\<lambda>(c', L').
             run_stream cb evs (c', L', heard @ heard_by rcv c, given @ given_by cb rcv c))
      else Inl Pending)"
| "run_stream cb (Ev_Send sent # evs) (c, L, heard, given) =
     (if conn_ready c L \<and> watches disp_writes c L \<and> send_script (sb_length (cn_out c)) sent
      then bind_exec (conn_handle_write virt sent c L) (\<lambda>(c', L'). run_stream cb evs (c', L', heard, given))
      else Inl Pending)"
| "run_stream cb (Ev_Error # evs) (c, L, heard, given) =
     (if conn_ready c L
      then bind_exec (conn_handle_error virt cb c L) (\<lambda>(c', L'). run_stream cb evs (c', L', heard, given))
      else Inl Pending)"

lemma stream_trans: "stream_reachable cb y z \<Longrightarrow> stream_reachable cb x y \<Longrightarrow> stream_reachable cb x z"
  by (induction rule: stream_reachable.induct) (auto intro: stream_next)

lemma stream_step_then: "stream_step cb x y \<Longrightarrow> stream_reachable cb y z \<Longrightarrow> stream_reachable cb x z"
  by (rule stream_trans [OF _ stream_next [OF stream_begin]])

lemma run_stream_reachable: "run_stream cb evs x = Inr y \<Longrightarrow> stream_reachable cb x y"
proof (induction cb evs x rule: run_stream.induct)
  case (2 cb rcv evs c L heard given)
  then show ?case
    by (auto simp: bind_exec_eq_Inr watches_def split: if_splits option.splits intro: stream_step_then [OF stream_read])
next
  case (3 cb sent evs c L heard given)
  then show ?case
    by (auto simp: bind_exec_eq_Inr watches_def split: if_splits option.splits intro: stream_step_then [OF stream_write])
next
  case (4 cb evs c L heard given)
  then show ?case by (auto simp: bind_exec_eq_Inr split: if_splits intro: stream_step_then [OF stream_error])
qed (auto intro: stream_begin)

section \<open>What one read leaves in the buffer\<close>

lemma isb_read_loop_nonempty:
  "isb_read_loop s n as = Inr (r, e, s', rest) \<Longrightarrow> (n > 0 \<Longrightarrow> ss_str s \<noteq> []) \<Longrightarrow> r > 0 \<Longrightarrow> ss_str s' \<noteq> []"
proof (induction s n as rule: isb_read_loop.induct)
  case (3 s n d as)
  have ne: "d \<noteq> [] \<Longrightarrow> ss_str (ss_write s d) \<noteq> []" by (simp add: ss_write_def ss_str_def)
  from 3 ne show ?case by (cases "d = []") (auto simp: Let_def split: if_splits)
qed auto

lemma isb_read_nonempty: "isb_read s as = Inr (r, e, s', rest) \<Longrightarrow> r > 0 \<Longrightarrow> ss_str s' \<noteq> []"
  unfolding isb_read_def by (erule isb_read_loop_nonempty) simp_all

lemma isb_read_loop_returned:
  "isb_read_loop s n as = Inr (r, e, s', rest) \<Longrightarrow> at_end s \<Longrightarrow> 0 \<le> n \<Longrightarrow>
   at_end s' \<and> ss_str s' = ss_str s @ recv_prefix as \<and> (r \<ge> 0 \<longrightarrow> r = n + int (length (recv_prefix as)) \<and> (n \<le> INT_MAX \<longrightarrow> r \<le> INT_MAX))"
proof (induction s n as rule: isb_read_loop.induct)
  case (3 s n d as)
  show ?case
  proof (cases "d = []")
    case False
    with 3 show ?thesis
      by (auto simp: Let_def ss_write_append ss_write_at_end RECV_LEN_def split: if_splits)
  qed (use 3 in \<open>auto simp: RECV_LEN_def\<close>)
qed auto

section \<open>The stream of one write\<close>

lemma conn_write_loop_stream:
  "conn_write_loop V msg as c L = Inr (c', L') \<Longrightarrow> msg = ss_str (cn_out c) \<Longrightarrow> ss_ok (cn_out c) \<Longrightarrow>
   int (length msg) \<le> INT_MAX \<Longrightarrow> send_script (length msg) as \<Longrightarrow>
   cn_sent c' @ ss_str (cn_out c') = cn_sent c @ ss_str (cn_out c) \<and> ss_ok (cn_out c')"
proof (induction as arbitrary: msg c L)
  case Nil
  then show ?case by (simp split: if_splits)
next
  case (Cons a as)
  show ?case
  proof (cases a)
    case (Send_Error e)
    with Cons show ?thesis by (auto split: if_splits)
  next
    case (Send_Count n)
    let ?c = "c\<lparr>cn_out := sb_ignore (cn_out c) (c_int (int n)), cn_sent := cn_sent c @ take n msg\<rparr>"
    show ?thesis
    proof (cases "msg = [] \<or> n = 0")
      case True
      with Cons.prems Send_Count show ?thesis by (cases "msg = []") simp_all
    next
      case False
      with Cons.prems Send_Count obtain L1 where L1: "conn_write_loop V (sb_to_string (cn_out ?c)) as ?c L1 = Inr (c', L')"
        by (auto simp: Let_def bind_exec_eq_Inr)
      from False Cons.prems(5) Send_Count have n: "n \<le> length msg" "send_script (length msg - n) as" by auto
      have out: "ss_str (cn_out ?c) = drop n msg" using n(1) Cons.prems(2,4) by (simp add: sb_ignore_str)
      have "ss_ok (cn_out ?c)" using Cons.prems(3) by (simp add: sb_ignore_ok)
      from Cons.IH [OF L1 _ this] out n(2) Cons.prems(4)
      have "cn_sent c' @ ss_str (cn_out c') = cn_sent ?c @ ss_str (cn_out ?c) \<and> ss_ok (cn_out c')"
        by (simp add: sb_to_string_def)
      with out Cons.prems(2) show ?thesis by simp
    qed
  qed
qed

lemma conn_write_loop_adds: "conn_write_loop V msg as c L = Inr (c', L') \<Longrightarrow> \<exists>x. cn_sent c' = cn_sent c @ x"
proof (induction as arbitrary: msg c L)
  case (Cons a as)
  show ?case
  proof (cases "msg = []")
    case False
    show ?thesis
    proof (cases a)
      case (Send_Error e)
      with Cons False show ?thesis by (auto split: if_splits)
    next
      case (Send_Count n)
      show ?thesis
      proof (cases "n = 0")
        case pos: False
        let ?c = "c\<lparr>cn_out := sb_ignore (cn_out c) (c_int (int n)), cn_sent := cn_sent c @ take n msg\<rparr>"
        from False pos Cons.prems Send_Count obtain L1 where
          "conn_write_loop V (sb_to_string (cn_out ?c)) as ?c L1 = Inr (c', L')"
          by (auto simp: Let_def bind_exec_eq_Inr)
        from Cons.IH [OF this] show ?thesis by auto
      qed (use Cons.prems Send_Count False in simp)
    qed
  qed (use Cons.prems in simp)
qed (simp split: if_splits)

section \<open>The sends of one read\<close>

definition on_epoll :: "(dispatcher, 'f, 'z) service_loop_scheme \<Rightarrow> bool" where
  "on_epoll L \<longleftrightarrow> (\<exists>d. sl_dispatcher L = Some d \<and> is_epoll d)"

lemma conn_modify_on_epoll: "conn_modify virt r w c L = Inr L' \<Longrightarrow> on_epoll L' = on_epoll L"
proof -
  assume "conn_modify virt r w c L = Inr L'"
  then have "modify_event virt L (conn_handle c) r w (cn_self c) = Inr (0, L')" by (simp add: conn_modify_result)
  from modify_event_handlers [OF this] virt_mod_is_epoll show ?thesis by (auto simp: on_epoll_def)
qed

lemma conn_send_on_epoll: "conn_send virt d c L = Inr (c', L') \<Longrightarrow> on_epoll L' = on_epoll L"
  using conn_modify_on_epoll by (fastforce simp: conn_send_def Let_def bind_exec_eq_Inr split: if_splits)

lemma conn_write_loop_on_epoll: "conn_write_loop virt msg as c L = Inr (c', L') \<Longrightarrow> on_epoll L' = on_epoll L"
proof (induction as arbitrary: msg c L)
  case (Cons a as)
  then show ?case
    by (cases a) (auto simp: Let_def bind_exec_eq_Inr split: if_splits dest!: conn_modify_on_epoll)
qed (simp split: if_splits)

text \<open>Sends on an appending buffer append; the connection stays in step and its interest right.\<close>

lemma run_sends:
  "run_cmds virt cb cmds c L = Inr (c', L') \<Longrightarrow> \<forall>cmd\<in>set cmds. \<exists>d. d \<noteq> [] \<and> cmd = Cmd_Send d \<Longrightarrow>
   at_end (cn_out c) \<Longrightarrow> conn_sync disp_watched disp_invar c L \<Longrightarrow> cn_live c \<Longrightarrow> conn_interest c L \<Longrightarrow>
   ss_str (cn_out c') = ss_str (cn_out c) @ cmd_bytes cmds \<and> at_end (cn_out c') \<and> cn_sent c' = cn_sent c \<and>
   cn_in c' = cn_in c \<and> conn_sync disp_watched disp_invar c' L' \<and> cn_live c' \<and> conn_interest c' L' \<and> on_epoll L' = on_epoll L"
proof (induction cmds arbitrary: c L)
  case (Cons cmd cmds)
  then obtain d where d: "d \<noteq> []" "cmd = Cmd_Send d" by auto
  with Cons.prems obtain c1 L1 where s: "conn_send virt d c L = Inr (c1, L1)" and r: "run_cmds virt cb cmds c1 L1 = Inr (c', L')"
    by (auto simp: bind_exec_eq_Inr)
  from s have c1: "c1 = c\<lparr>cn_out := osb_put (cn_out c) d\<rparr>"
    by (auto simp: conn_send_def Let_def bind_exec_eq_Inr split: if_splits)
  have put: "ss_str (cn_out c1) = ss_str (cn_out c) @ d" "at_end (cn_out c1)"
    using osb.view_put [OF Cons.prems(3)] osb.appends_put [OF Cons.prems(3)] by (simp_all add: c1)
  from Cons.IH [OF r _ put(2) any.conn_send_sync [OF Cons.prems(4) s] _ conn_send_interest [OF Cons.prems(4,6) d(1) s]]
    Cons.prems(2,5) put(1) conn_send_on_epoll [OF s]
  show ?case by (simp add: c1 d(2))
qed simp

section \<open>The stream on epoll\<close>

text \<open>
  The bytes the kernel took, followed by those waiting, are the bytes passed to \<^verbatim>\<open>send\<close>; a live connection is
  registered for what it waits for.
\<close>

definition stream_ok :: "('u, 'f, 'z) stream_state \<Rightarrow> bool" where
  "stream_ok x = (case x of (c, L, heard, given) \<Rightarrow>
     cn_sent c @ ss_str (cn_out c) = given \<and> ss_ok (cn_out c) \<and>
     (cn_live c \<longrightarrow> conn_sync disp_watched disp_invar c L \<and> conn_interest c L \<and> on_epoll L))"

lemma same_watch_interest:
  "same_watch (conn_handle c) L L' \<Longrightarrow> conn_interest c L \<Longrightarrow> conn_interest c L'"
  by (auto simp: same_watch_def conn_interest_def)

lemma stream_other_ok:
  assumes "in_sync L'" "same_watch (conn_handle c) L L'" "stream_ok (c, L, heard, given)"
  shows "stream_ok (c, L', heard, given)"
  using assms same_watch_interest [OF assms(2)]
  by (auto simp: stream_ok_def conn_sync_def conn_ready_def on_epoll_def same_watch_def)

lemma conn_close_stream:
  assumes "conn_close virt cb c L = Inr (c', L')"
  shows "\<not> cn_live c' \<and> cn_sent c' = cn_sent c \<and> cn_out c' = cn_out c"
  using assms by (auto simp: conn_close_def bind_exec_eq_Inr split: if_splits)

lemma stream_read_ok:
  assumes "sends_only cb" "stream_ok (c, L, heard, given)" "conn_ready c L"
    and "sl_dispatcher L = Some d" "disp_reads d (conn_handle c)"
    and "conn_handle_read virt cb rcv c L = Inr (c', L')"
  shows "stream_ok (c', L', heard @ heard_by rcv c, given @ given_by cb rcv c)"
proof -
  from assms(6) obtain ret e s rest where r: "isb_read (cn_in c) rcv = Inr (ret, e, s, rest)"
    by (cases "isb_read (cn_in c) rcv") (auto simp: conn_handle_read_def)
  let ?c = "c\<lparr>cn_in := s\<rparr>"
  from assms(2,3) have ok: "cn_sent c @ ss_str (cn_out c) = given" "ss_ok (cn_out c)" "cn_live c"
    "conn_sync disp_watched disp_invar c L" "conn_interest c L" "on_epoll L"
    by (auto simp: stream_ok_def conn_ready_def)
  show ?thesis
  proof (cases "ret \<le> 0")
    case True
    with r assms(6) have "conn_close virt cb ?c L = Inr (c', L')" by (simp add: conn_handle_read_def)
    from conn_close_stream [OF this] True r ok(1,2) show ?thesis by (simp add: stream_ok_def given_by_def)
  next
    case False
    obtain u cmds n where o: "on_read cb (sb_to_string s) (cn_user c) = (u, cmds, n)" by (metis prod_cases3)
    from False r o assms(6) obtain c2 where c2: "run_cmds virt cb cmds (?c\<lparr>cn_user := u\<rparr>) L = Inr (c2, L')"
      "c' = c2\<lparr>cn_in := sb_ignore (cn_in c2) n\<rparr>" by (auto simp: conn_handle_read_def bind_exec_eq_Inr)
    from False r have "sb_to_string s \<noteq> []"
      using isb_read_nonempty [of "cn_in c" rcv ret e s rest] by (simp add: sb_to_string_def)
    with assms(1) o have sends: "\<forall>cmd\<in>set cmds. \<exists>d. d \<noteq> [] \<and> cmd = Cmd_Send d"
      by (metis fst_conv sends_only_def snd_conv)
    from ok(5,6) assms(4,5) have "ss_str (cn_out c) = []"
      by (auto simp: conn_interest_def on_epoll_def sb_to_string_def)
    with empty_at_end [OF ok(2)] have "at_end (cn_out (?c\<lparr>cn_user := u\<rparr>))" by simp
    moreover have "conn_interest (?c\<lparr>cn_user := u\<rparr>) L" using ok(5) by (simp add: conn_interest_def)
    ultimately have "ss_str (cn_out c2) = ss_str (cn_out c) @ cmd_bytes cmds \<and> at_end (cn_out c2) \<and> cn_sent c2 = cn_sent c \<and>
      conn_sync disp_watched disp_invar c2 L' \<and> cn_live c2 \<and> conn_interest c2 L' \<and> on_epoll L'"
      using run_sends [OF c2(1) sends] ok(3,4,6) by simp
    with False r o ok(1) c2(2) show ?thesis
      by (auto simp: stream_ok_def given_by_def conn_interest_def at_end_ok)
  qed
qed

lemma stream_write_ok:
  assumes "stream_ok (c, L, heard, given)" "conn_ready c L" "send_script (sb_length (cn_out c)) sent"
    and "conn_handle_write virt sent c L = Inr (c', L')" "int (length given) \<le> INT_MAX"
  shows "stream_ok (c', L', heard, given)"
proof -
  from assms(1,2) have ok: "cn_sent c @ ss_str (cn_out c) = given" "ss_ok (cn_out c)" "cn_live c"
    "conn_sync disp_watched disp_invar c L" "conn_interest c L" "on_epoll L"
    by (auto simp: stream_ok_def conn_ready_def)
  have w: "conn_write_loop virt (sb_to_string (cn_out c)) sent c L = Inr (c', L')"
    using assms(4) by (simp add: conn_handle_write_def)
  have "int (length (sb_to_string (cn_out c))) \<le> INT_MAX" using ok(1) assms(5) by (auto simp: sb_to_string_def)
  from conn_write_loop_stream [OF w _ ok(2) this] assms(3) ok(1)
  have "cn_sent c' @ ss_str (cn_out c') = given \<and> ss_ok (cn_out c')" by (simp add: sb_length_def sb_to_string_def)
  with any.conn_write_loop_sync [OF ok(4,3) w] conn_write_loop_interest [OF ok(4,3,5) refl w] conn_write_loop_on_epoll [OF w] ok(6)
  show ?thesis by (simp add: stream_ok_def)
qed

lemma stream_step_ok:
  assumes "stream_step cb x y" "stream_ok x" "sends_only cb" "int (length (snd (snd (snd x)))) \<le> INT_MAX"
  shows "stream_ok y"
  using assms(1)
proof (cases rule: stream_step.cases)
  case (stream_read c L d rcv c' L' heard given)
  with stream_read_ok assms(2,3) show ?thesis by blast
next
  case (stream_write c L d sent c' L' heard given)
  with stream_write_ok [of c L heard given sent c' L'] assms(2,4) show ?thesis by simp
next
  case (stream_error c L c' L' heard given)
  with conn_close_stream [of cb c L c' L'] assms(2) show ?thesis by (simp add: stream_ok_def conn_handle_error_def)
next
  case (stream_other L' c L heard given)
  with stream_other_ok assms(2) show ?thesis by blast
qed

lemma stream_step_grows: "stream_step cb x y \<Longrightarrow> length (snd (snd (snd x))) \<le> length (snd (snd (snd y)))"
  by (auto elim!: stream_stepE)

lemma stream_reachable_ok:
  "stream_reachable cb x y \<Longrightarrow> stream_ok x \<Longrightarrow> sends_only cb \<Longrightarrow> int (length (snd (snd (snd y)))) \<le> INT_MAX \<Longrightarrow> stream_ok y"
proof (induction rule: stream_reachable.induct)
  case (stream_next x y)
  from stream_step_grows [OF stream_next.hyps(2)] stream_next.prems(3) have "int (length (snd (snd (snd x)))) \<le> INT_MAX" by linarith
  with stream_step_ok [OF stream_next.hyps(2)] stream_next show ?case by blast
qed simp

section \<open>The opened connection\<close>

lemma opened_stream_ok:
  assumes "quiet_connect cb" "in_sync L" "on_epoll L" "get_fd remote \<notin> live_keys (sl_handlers L)"
    and "cn_sent c0 = []" "conn_open virt cb remote c0 L = Inr (c, L')"
  shows "stream_ok (c, L', [], [])" "cn_in c = sb_clear (cn_in c0)"
proof -
  define c1 where "c1 = (conn_set_remote_addr c0 remote)\<lparr>cn_in := sb_clear (cn_in c0), cn_out := sb_clear (cn_out c0)\<rparr>"
  obtain u' where u: "on_connect cb remote (cn_user c0) = (u', [])" using assms(1) by (metis prod.collapse quiet_connect_def)
  have h: "conn_handle (c1\<lparr>cn_user := u'\<rparr>) = get_fd remote" "cn_self c1 = cn_self c0" "cn_sent c1 = []" "cn_out c1 = sb_clear (cn_out c0)"
    "cn_in c1 = sb_clear (cn_in c0)" "cn_live c1 = cn_live c0"
    using assms(5) by (simp_all add: c1_def conn_handle_def conn_set_remote_addr_def socket_address_assign_def get_fd_def)
  from assms(6) u have r: "c = c1\<lparr>cn_user := u'\<rparr>" "cn_live c1" "register_event virt L (get_fd remote) True False (cn_self c0) = Inr (0, L')"
    using h(1,2) by (auto simp: conn_open_def Let_def bind_exec_eq_Inr c1_def [symmetric]) (auto simp: c1_def conn_set_remote_addr_def bind_exec_eq_Inr)
  from any.register_event_sync [OF assms(2,4) r(3)] have s: "in_sync L'" "sl_handlers L' = (sl_handlers L)(get_fd remote \<mapsto> cn_self c0)" by auto
  from register_event_handlers [OF r(3)] assms(3) virt_add_is_epoll have e: "on_epoll L'" "cn_self c0 \<noteq> NULL"
    by (auto simp: on_epoll_def)
  from register_event_directions [OF assms(2,4) r(3)] h r(1) have "conn_interest c L'"
    by (auto simp: conn_interest_def sb_to_string_def)
  moreover have "conn_ready c L'" using s(2) e(2) h r(1,2) by (simp add: conn_ready_def)
  moreover have "ss_ok (sb_clear (cn_out c0))" by (rule at_end_ok) simp
  ultimately show "stream_ok (c, L', [], [])" using s(1) e(1) h r(1,2) by (simp add: stream_ok_def conn_sync_def)
  show "cn_in c = sb_clear (cn_in c0)" using h r(1) by simp
qed

section \<open>Subclasses that answer each input at once\<close>

text \<open>\<^verbatim>\<open>on_read\<close> uses all its input and answers with one \<^verbatim>\<open>send\<close>, as the example servers do.\<close>

definition replies :: "'u callbacks \<Rightarrow> (bytes \<Rightarrow> bytes) \<Rightarrow> bool" where
  "replies cb reply \<longleftrightarrow> (\<forall>input u. \<exists>u'. on_read cb input u = (u', [Cmd_Send (reply input)], int (length input))) \<and>
     (\<forall>input. input \<noteq> [] \<longrightarrow> reply input \<noteq> [])"

lemma repliesE:
  assumes "replies cb reply"
  obtains u' where "on_read cb input u = (u', [Cmd_Send (reply input)], int (length input))"
  using assms by (fastforce simp: replies_def)

lemma replies_sends: "replies cb reply \<Longrightarrow> sends_only cb"
proof (unfold sends_only_def, intro allI impI)
  fix input :: bytes and u
  assume r: "replies cb reply" and n: "input \<noteq> []"
  obtain u' where "on_read cb input u = (u', [Cmd_Send (reply input)], int (length input))" by (rule repliesE [OF r])
  with r n show "\<forall>cmd\<in>set (fst (snd (on_read cb input u))). \<exists>d. d \<noteq> [] \<and> cmd = Cmd_Send d" by (simp add: replies_def)
qed

lemma replies_once: "replies cb reply \<Longrightarrow> answers_once cb"
proof (unfold answers_once_def, intro allI)
  fix input :: bytes and u
  assume r: "replies cb reply"
  obtain u' where "on_read cb input u = (u', [Cmd_Send (reply input)], int (length input))" by (rule repliesE [OF r])
  then show "\<exists>u' d n. on_read cb input u = (u', [Cmd_Send d], n)" by blast
qed

text \<open>Between two events the input buffer of such a connection is empty.\<close>

definition input_used :: "'u connection \<Rightarrow> bool" where
  "input_used c \<longleftrightarrow> at_end (cn_in c) \<and> ss_str (cn_in c) = []"

lemma input_used_clear [simp]: "cn_in c = sb_clear s \<Longrightarrow> input_used c"
  by (simp add: input_used_def)

lemma reply_given:
  assumes "replies cb reply" "input_used c"
  shows "given_by cb rcv c = (if heard_by rcv c = [] then [] else reply (heard_by rcv c))"
proof (cases "isb_read (cn_in c) rcv")
  case (Inr r)
  obtain ret e s rest where r: "isb_read (cn_in c) rcv = Inr (ret, e, s, rest)" using Inr by (cases r) auto
  have "at_end (cn_in c)" using assms(2) by (simp add: input_used_def)
  from isb_read_loop_returned [OF r [unfolded isb_read_def] this] assms(2)
  have s: "ss_str s = recv_prefix rcv" by (simp add: input_used_def)
  obtain u where o: "on_read cb (sb_to_string s) (cn_user c) = (u, [Cmd_Send (reply (sb_to_string s))], int (length (sb_to_string s)))"
    by (rule repliesE [OF assms(1)])
  have "ss_str s \<noteq> []" if "\<not> ret \<le> 0" using isb_read_nonempty [OF r] that by simp
  with r o s show ?thesis by (simp add: given_by_def heard_by_def sb_to_string_def)
qed (simp add: given_by_def heard_by_def)

lemma conn_write_loop_in: "conn_write_loop V msg as c L = Inr (c', L') \<Longrightarrow> cn_in c' = cn_in c"
proof (induction as arbitrary: msg c L)
  case (Cons a as)
  then show ?case by (cases a) (auto simp: Let_def bind_exec_eq_Inr split: if_splits)
qed (simp split: if_splits)

lemma reply_uses_input:
  assumes "replies cb reply" "input_used c" "conn_handle_read virt cb rcv c L = Inr (c', L')" "cn_live c'"
  shows "input_used c'"
proof -
  from assms(3) obtain ret e s rest where r: "isb_read (cn_in c) rcv = Inr (ret, e, s, rest)"
    by (cases "isb_read (cn_in c) rcv") (auto simp: conn_handle_read_def)
  have pos: "\<not> ret \<le> 0"
  proof
    assume "ret \<le> 0"
    with r assms(3) have "conn_close virt cb (c\<lparr>cn_in := s\<rparr>) L = Inr (c', L')" by (simp add: conn_handle_read_def)
    from conn_close_stream [OF this] assms(4) show False by simp
  qed
  have "at_end (cn_in c)" using assms(2) by (simp add: input_used_def)
  from isb_read_loop_returned [OF r [unfolded isb_read_def] this] pos assms(2)
  have s: "ss_str s = recv_prefix rcv" "ret = int (length (recv_prefix rcv))" "ret \<le> INT_MAX"
    by (auto simp: INT_MAX_def input_used_def)
  obtain u where o: "on_read cb (sb_to_string s) (cn_user c) = (u, [Cmd_Send (reply (sb_to_string s))], int (length (sb_to_string s)))"
    by (rule repliesE [OF assms(1)])
  from pos r o assms(3) have "cn_in c' = sb_ignore s (int (length (ss_str s)))"
    by (auto simp: conn_handle_read_def sb_to_string_def conn_send_def Let_def bind_exec_eq_Inr split: if_splits)
  with s show ?thesis by (simp add: sb_ignore_def ss_set_str_def ss_str_def at_end_def input_used_def)
qed

end
