(* ===== verification/Net_Base.thy ===== *)
theory Net_Base
  imports Socket_Addr
begin

text \<open>
  The socket helpers of \<^verbatim>\<open>src/net/net_base.cc\<close>. The answers of the system calls are the record
  \<open>sock_os\<close>; what the calls leave behind is the state \<open>net_state\<close>: the descriptors open (\<^verbatim>\<open>::close\<close>
  removes one) and the status flags of each.
\<close>

text \<open>
  An answer is the returned value, or the errno of a failed call (\<open>Inl\<close>). \<open>so_fcntl fd\<close> tells
  whether \<^verbatim>\<open>fcntl\<close> works on \<open>fd\<close>.
\<close>

datatype sockopt = TCP_NODELAY | SO_KEEPALIVE | SO_SNDBUF | SO_RCVBUF | SO_REUSEADDR

record sock_os =
  so_socket :: int
  so_bind :: "int \<Rightarrow> sockaddr_in \<Rightarrow> int + unit"
  so_listen :: "int \<Rightarrow> int \<Rightarrow> int + unit"
  so_connect :: "int \<Rightarrow> sockaddr_in \<Rightarrow> int + unit"
  so_fcntl :: "int \<Rightarrow> bool"
  so_setsockopt :: "int \<Rightarrow> sockopt \<Rightarrow> int \<Rightarrow> int"
  so_getsockopt :: "int \<Rightarrow> sockopt \<Rightarrow> int \<times> int \<times> nat"

definition LISTEN_QUEUE_SIZE :: int where
  "LISTEN_QUEUE_SIZE = 1024"

definition O_NONBLOCK :: "32 word" where
  "O_NONBLOCK = 2048"

text \<open>\<^verbatim>\<open>socket\<close> on the state; a new socket has no status flags set.\<close>

definition net_socket :: "sock_os \<Rightarrow> net_state \<Rightarrow> int \<times> net_state" where
  "net_socket os st =
     (if so_socket os = -1 then (-1, st)
      else (so_socket os, st\<lparr>ns_open := insert (so_socket os) (ns_open st), ns_flags := (ns_flags st)(so_socket os := 0)\<rparr>))"

definition fcntl_getfl :: "sock_os \<Rightarrow> int \<Rightarrow> net_state \<Rightarrow> 32 word" where
  "fcntl_getfl os fd st = (if so_fcntl os fd then ns_flags st fd else -1)"

definition fcntl_setfl :: "sock_os \<Rightarrow> int \<Rightarrow> 32 word \<Rightarrow> net_state \<Rightarrow> int \<times> net_state" where
  "fcntl_setfl os fd flags st =
     (if so_fcntl os fd then (0, st\<lparr>ns_flags := (ns_flags st)(fd := flags)\<rparr>) else (-1, st))"

section \<open>Servers\<close>

text \<open>A C string pointer is \<open>None\<close> (the null pointer) or the text before its terminator.\<close>

definition net_tcp_bind ::
  "(string \<Rightarrow> 32 word option) \<Rightarrow> bool \<Rightarrow> sock_os \<Rightarrow> string option \<Rightarrow> 16 word \<Rightarrow> net_state \<Rightarrow> int \<times> net_state" where
  "net_tcp_bind pton le os ip port st =
     (let ip' = (case ip of None \<Rightarrow> ''0.0.0.0'' | Some s \<Rightarrow> if s = [] then ''0.0.0.0'' else s);
          addr = zero_sockaddr\<lparr>sin_family := AF_INET\<rparr>;
          addr = (case pton ip' of Some a \<Rightarrow> addr\<lparr>sin_addr := a\<rparr> | None \<Rightarrow> addr);
          addr = addr\<lparr>sin_port := host_to_network16 le port\<rparr>;
          (sock, st1) = net_socket os st
      in if sock = -1 then (-1, st1)
         else let _ = so_setsockopt os sock SO_REUSEADDR 1
         in case so_bind os sock addr of
                Inl e \<Rightarrow> (-1, if sock \<noteq> -1 then net_close sock st1 else st1)
              | Inr _ \<Rightarrow> (sock, st1))"

definition net_tcp_listen ::
  "(string \<Rightarrow> 32 word option) \<Rightarrow> bool \<Rightarrow> sock_os \<Rightarrow> string option \<Rightarrow> 16 word \<Rightarrow> net_state \<Rightarrow> int \<times> net_state" where
  "net_tcp_listen pton le os ip port st =
     (let (sock, st1) = net_tcp_bind pton le os ip port st in
      if sock \<ge> 0 then
        (case so_listen os sock LISTEN_QUEUE_SIZE of
           Inl e \<Rightarrow> (-1, net_close sock st1)
         | Inr _ \<Rightarrow> (sock, st1))
      else (sock, st1))"

section \<open>Address resolution\<close>

definition ascii_lower :: "char \<Rightarrow> char" where
  "ascii_lower c = (let n = (of_char c :: nat) in if 65 \<le> n \<and> n \<le> 90 then char_of (n + 32) else c)"

definition strcasecmp_eq :: "string \<Rightarrow> string \<Rightarrow> bool" where
  "strcasecmp_eq a b = (List.map ascii_lower a = List.map ascii_lower b)"

definition SOCK_STREAM :: int where
  "SOCK_STREAM = 1"

text \<open>
  \<^verbatim>\<open>inet_aton\<close> and \<^verbatim>\<open>getaddrinfo\<close> are parameters; the latter answers an error code or the first
  result's family, socket type, address length and address. \<^verbatim>\<open>*addr\<close> is written in place.
\<close>

type_synonym addrinfo = "16 word \<times> int \<times> nat \<times> sockaddr_in"

definition net_ip_sockaddr ::
  "(string \<Rightarrow> 32 word option) \<Rightarrow> (string \<Rightarrow> int + addrinfo) \<Rightarrow> bool \<Rightarrow> string option \<Rightarrow> 16 word \<Rightarrow> sockaddr_in \<Rightarrow>
     (int \<times> sockaddr_in) exec" where
  "net_ip_sockaddr aton resolve le host port addr =
     (let addr1 = addr\<lparr>sin_family := AF_INET, sin_addr := host_to_network32 le 0\<rparr> in
      bind_exec
        (case host of
           None \<Rightarrow> Inr (0, addr1)
         | Some h \<Rightarrow>
             if h = [] then Inr (0, addr1)
             else case aton h of
                    Some a \<Rightarrow> Inr (0, addr1\<lparr>sin_addr := a\<rparr>)
                  | None \<Rightarrow>
                      if strcasecmp_eq h ''localhost''
                      then Inr (0, addr1\<lparr>sin_addr := host_to_network32 le 2130706433\<rparr>)
                      else case resolve h of
                             Inl code \<Rightarrow> Inr (code, addr1)
                           | Inr (family, socktype, addrlen, a) \<Rightarrow>
                               bind_exec (c_assert (family = AF_INET \<and> socktype = SOCK_STREAM)) (\<lambda>_.
                               bind_exec (c_assert (addrlen = 16)) (\<lambda>_. Inr (0, a))))
        (\<lambda>(errcode, addr2).
           Inr (if errcode \<noteq> 0 then -1 else 0, addr2\<lparr>sin_port := host_to_network16 le port\<rparr>)))"

section \<open>Clients\<close>

definition tcp_connect_sockaddr :: "sock_os \<Rightarrow> sockaddr_in \<Rightarrow> bool \<Rightarrow> net_state \<Rightarrow> int \<times> net_state" where
  "tcp_connect_sockaddr os addr nonblock st =
     (let (sock, st1) = net_socket os st; error = (\<lambda>st'. (-1, if sock \<noteq> -1 then net_close sock st' else st')) in
      if sock = -1 then error st1
      else
        let (failed, st2) =
          (if nonblock then
             let flags = fcntl_getfl os sock st1 in
             if flags = -1 then (True, st1)
             else let (r, st') = fcntl_setfl os sock (flags OR O_NONBLOCK) st1 in (r = -1, st')
           else (False, st1))
        in if failed then error st2
           else case so_connect os sock addr of
                  Inl e \<Rightarrow> if \<not> nonblock \<or> e \<noteq> EINPROGRESS then error st2 else (sock, st2)
                | Inr _ \<Rightarrow> (sock, st2))"

definition net_tcp_connect_sockaddr :: "sock_os \<Rightarrow> sockaddr_in \<Rightarrow> net_state \<Rightarrow> int \<times> net_state" where
  "net_tcp_connect_sockaddr os addr st = tcp_connect_sockaddr os addr False st"

definition net_tcp_connect_sockaddr_nonblock :: "sock_os \<Rightarrow> sockaddr_in \<Rightarrow> net_state \<Rightarrow> int \<times> net_state" where
  "net_tcp_connect_sockaddr_nonblock os addr st = tcp_connect_sockaddr os addr True st"

text \<open>The local \<^verbatim>\<open>addr\<close> starts uninitialised: \<open>junk\<close>.\<close>

definition net_tcp_connect ::
  "(string \<Rightarrow> 32 word option) \<Rightarrow> (string \<Rightarrow> int + addrinfo) \<Rightarrow> bool \<Rightarrow> sock_os \<Rightarrow> sockaddr_in \<Rightarrow> string option \<Rightarrow>
     16 word \<Rightarrow> net_state \<Rightarrow> (int \<times> net_state) exec" where
  "net_tcp_connect aton resolve le os junk host port st =
     bind_exec (net_ip_sockaddr aton resolve le host port junk) (\<lambda>(r, addr).
       if r < 0 then Inr (-1, st) else Inr (tcp_connect_sockaddr os addr False st))"

definition net_tcp_connect_nonblock ::
  "(string \<Rightarrow> 32 word option) \<Rightarrow> (string \<Rightarrow> int + addrinfo) \<Rightarrow> bool \<Rightarrow> sock_os \<Rightarrow> sockaddr_in \<Rightarrow> string option \<Rightarrow>
     16 word \<Rightarrow> net_state \<Rightarrow> (int \<times> net_state) exec" where
  "net_tcp_connect_nonblock aton resolve le os junk host port st =
     bind_exec (net_ip_sockaddr aton resolve le host port junk) (\<lambda>(r, addr).
       if r < 0 then Inr (-1, st) else Inr (tcp_connect_sockaddr os addr True st))"

section \<open>Socket options\<close>

definition net_set_nonblock :: "sock_os \<Rightarrow> int \<Rightarrow> net_state \<Rightarrow> int \<times> net_state" where
  "net_set_nonblock os fd st =
     (let flags = fcntl_getfl os fd st in
      if flags = -1 then (-1, st) else fcntl_setfl os fd (flags OR O_NONBLOCK) st)"

definition net_set_block :: "sock_os \<Rightarrow> int \<Rightarrow> net_state \<Rightarrow> int \<times> net_state" where
  "net_set_block os fd st =
     (let flags = fcntl_getfl os fd st in
      if flags = -1 then (-1, st) else fcntl_setfl os fd (flags AND NOT O_NONBLOCK) st)"

definition net_set_tcp_nodelay :: "sock_os \<Rightarrow> int \<Rightarrow> int" where
  "net_set_tcp_nodelay os fd = so_setsockopt os fd TCP_NODELAY 1"

definition net_set_keepalive :: "sock_os \<Rightarrow> int \<Rightarrow> int" where
  "net_set_keepalive os fd = so_setsockopt os fd SO_KEEPALIVE 1"

definition net_set_send_buffer_size :: "sock_os \<Rightarrow> int \<Rightarrow> int \<Rightarrow> int" where
  "net_set_send_buffer_size os fd sz = so_setsockopt os fd SO_SNDBUF sz"

definition net_get_send_buffer_size :: "sock_os \<Rightarrow> int \<Rightarrow> int" where
  "net_get_send_buffer_size os fd =
     (let (r, sz, len) = so_getsockopt os fd SO_SNDBUF in if r = 0 \<and> len = 4 then sz else -1)"

definition net_set_recv_buffer_size :: "sock_os \<Rightarrow> int \<Rightarrow> int \<Rightarrow> int" where
  "net_set_recv_buffer_size os fd sz = so_setsockopt os fd SO_RCVBUF sz"

definition net_get_recv_buffer_size :: "sock_os \<Rightarrow> int \<Rightarrow> int" where
  "net_get_recv_buffer_size os fd =
     (let (r, sz, len) = so_getsockopt os fd SO_RCVBUF in if r = 0 \<and> len = 4 then sz else -1)"

definition net_set_reuse_address :: "sock_os \<Rightarrow> int \<Rightarrow> int" where
  "net_set_reuse_address os fd = so_setsockopt os fd SO_REUSEADDR 1"

definition net_clear_reuse_address :: "sock_os \<Rightarrow> int \<Rightarrow> int" where
  "net_clear_reuse_address os fd = so_setsockopt os fd SO_REUSEADDR 0"

section \<open>Properties\<close>

lemma net_socket_cases:
  "so_socket os \<noteq> -1 \<Longrightarrow> net_socket os st = (so_socket os,
     st\<lparr>ns_open := insert (so_socket os) (ns_open st), ns_flags := (ns_flags st)(so_socket os := 0)\<rparr>)"
  "so_socket os = -1 \<Longrightarrow> net_socket os st = (-1, st)"
  by (simp_all add: net_socket_def)

text \<open>Whether a connect attempt succeeds, and the socket it leaves.\<close>

definition connect_ok :: "sock_os \<Rightarrow> sockaddr_in \<Rightarrow> bool \<Rightarrow> bool" where
  "connect_ok os addr nonblock \<longleftrightarrow> (nonblock \<longrightarrow> so_fcntl os (so_socket os)) \<and>
     (so_connect os (so_socket os) addr = Inr () \<or> nonblock \<and> so_connect os (so_socket os) addr = Inl EINPROGRESS)"

lemma tcp_connect_result:
  assumes "so_socket os \<noteq> -1"
  shows "fst (tcp_connect_sockaddr os addr nonblock st) = (if connect_ok os addr nonblock then so_socket os else -1)"
    and "ns_open (snd (tcp_connect_sockaddr os addr nonblock st)) =
      (if connect_ok os addr nonblock then insert (so_socket os) (ns_open st) else ns_open st - {so_socket os})"
    and "connect_ok os addr nonblock \<Longrightarrow> ns_flags (snd (tcp_connect_sockaddr os addr nonblock st)) =
      (ns_flags st)(so_socket os := (if nonblock then O_NONBLOCK else 0))"
proof -
  note d = tcp_connect_sockaddr_def net_socket_cases(1) net_close_def connect_ok_def fcntl_getfl_def fcntl_setfl_def
  note c = assms
  show "fst (tcp_connect_sockaddr os addr nonblock st) = (if connect_ok os addr nonblock then so_socket os else -1)"
    using c by (cases nonblock; cases "so_fcntl os (so_socket os)"; cases "so_connect os (so_socket os) addr")
      (simp_all add: d)
  show "ns_open (snd (tcp_connect_sockaddr os addr nonblock st)) =
      (if connect_ok os addr nonblock then insert (so_socket os) (ns_open st) else ns_open st - {so_socket os})"
    using c by (cases nonblock; cases "so_fcntl os (so_socket os)"; cases "so_connect os (so_socket os) addr")
      (simp_all add: d)
  show "connect_ok os addr nonblock \<Longrightarrow> ns_flags (snd (tcp_connect_sockaddr os addr nonblock st)) =
      (ns_flags st)(so_socket os := (if nonblock then O_NONBLOCK else 0))"
    using c by (cases nonblock; cases "so_fcntl os (so_socket os)"; cases "so_connect os (so_socket os) addr")
      (simp_all add: d)
qed

text \<open>The address a server binds to.\<close>

definition bind_address :: "(string \<Rightarrow> 32 word option) \<Rightarrow> bool \<Rightarrow> string option \<Rightarrow> 16 word \<Rightarrow> sockaddr_in" where
  "bind_address pton le ip port =
     \<lparr>sin_family = AF_INET, sin_port = host_to_network16 le port,
      sin_addr = (case pton (if ip = None \<or> ip = Some [] then ''0.0.0.0'' else the ip) of None \<Rightarrow> 0 | Some a \<Rightarrow> a)\<rparr>"

lemma net_tcp_bind_result:
  assumes "so_socket os \<noteq> -1"
  shows "net_tcp_bind pton le os ip port st =
    (if so_bind os (so_socket os) (bind_address pton le ip port) = Inr ()
     then net_socket os st else (-1, net_close (so_socket os) (snd (net_socket os st))))"
proof -
  define ip' where "ip' = (case ip of None \<Rightarrow> ''0.0.0.0'' | Some s \<Rightarrow> if s = [] then ''0.0.0.0'' else s)"
  have ip: "ip' = (if ip = None \<or> ip = Some [] then ''0.0.0.0'' else the ip)"
    unfolding ip'_def by (cases ip) simp_all
  have "(case pton ip' of None \<Rightarrow> zero_sockaddr\<lparr>sin_family := AF_INET\<rparr>
      | Some a \<Rightarrow> zero_sockaddr\<lparr>sin_family := AF_INET, sin_addr := a\<rparr>)\<lparr>sin_port := host_to_network16 le port\<rparr> =
    bind_address pton le ip port"
    unfolding bind_address_def ip [symmetric] by (cases "pton ip'") (simp_all add: zero_sockaddr_def)
  then show ?thesis
    using assms unfolding net_tcp_bind_def Let_def ip'_def [symmetric]
    by (cases "so_bind os (so_socket os) (bind_address pton le ip port)") (simp_all add: net_socket_cases(1))
qed

text \<open>
  What a helper that opens a socket leaves behind: the new descriptor, or -1 and the
  descriptors as before.
\<close>

definition no_leak :: "net_state \<Rightarrow> sock_os \<Rightarrow> int \<times> net_state \<Rightarrow> bool" where
  "no_leak st os = (\<lambda>(r, st').
     r = -1 \<and> ns_open st' = ns_open st \<or>
     r = so_socket os \<and> r \<ge> 0 \<and> ns_open st' = insert r (ns_open st))"

lemma net_tcp_bind_no_leak:
  assumes "so_socket os \<ge> -1" "so_socket os \<notin> ns_open st"
  shows "no_leak st os (net_tcp_bind pton le os ip port st)"
proof (cases "so_socket os = -1")
  case True
  then show ?thesis by (simp add: net_tcp_bind_def net_socket_cases(2) no_leak_def Let_def)
next
  case False
  with assms have "so_socket os \<ge> 0" by simp
  with False assms(2) show ?thesis
    by (auto simp: net_tcp_bind_result net_socket_cases(1) no_leak_def net_close_def)
qed

lemma net_tcp_listen_no_leak:
  assumes "so_socket os \<ge> -1" "so_socket os \<notin> ns_open st"
  shows "no_leak st os (net_tcp_listen pton le os ip port st)"
proof -
  note b = net_tcp_bind_no_leak [OF assms, of pton le ip port]
  obtain r st1 where r: "net_tcp_bind pton le os ip port st = (r, st1)" by fastforce
  with b consider "r = -1" | "r = so_socket os" "r \<ge> 0" "ns_open st1 = insert r (ns_open st)" unfolding no_leak_def by auto
  then show ?thesis
  proof cases
    case 1
    with r b show ?thesis by (simp add: net_tcp_listen_def)
  next
    case 2
    with r b assms(2) show ?thesis
      by (cases "so_listen os (so_socket os) LISTEN_QUEUE_SIZE") (simp_all add: net_tcp_listen_def no_leak_def net_close_def)
  qed
qed

lemma tcp_connect_no_leak:
  assumes "so_socket os \<ge> -1" "so_socket os \<notin> ns_open st"
  shows "no_leak st os (tcp_connect_sockaddr os addr nonblock st)"
proof (cases "so_socket os = -1")
  case True
  then show ?thesis by (simp add: tcp_connect_sockaddr_def net_socket_cases(2) no_leak_def Let_def)
next
  case False
  with tcp_connect_result(1,2) [OF False, of addr nonblock st] assms show ?thesis
    by (simp add: no_leak_def case_prod_beta split: if_splits)
qed


definition sample_net_os :: sock_os where
  "sample_net_os = \<lparr>so_socket = 5, so_bind = (\<lambda>fd a. Inr ()), so_listen = (\<lambda>fd n. Inl EBADF),
     so_connect = (\<lambda>fd a. Inl EINPROGRESS), so_fcntl = (\<lambda>fd. True), so_setsockopt = (\<lambda>fd o' v. 0),
     so_getsockopt = (\<lambda>fd o'. (0, 65536, 4))\<rparr>"

definition sample_net :: net_state where
  "sample_net = \<lparr>ns_open = {0, 1, 2}, ns_flags = (\<lambda>fd. 2)\<rparr>"


text \<open>
  A connect helper succeeds exactly when \<^verbatim>\<open>connect\<close> did or, in the non-blocking variant,
  is in progress (and the flags could be set); the socket it returns is non-blocking exactly in
  that variant.
\<close>

theorem connect_modes:
  assumes "so_socket os \<ge> 0"
  shows "\<exists>r st'. tcp_connect_sockaddr os addr nonblock st = (r, st') \<and>
    (r \<noteq> -1 \<longleftrightarrow> (nonblock \<longrightarrow> so_fcntl os (so_socket os)) \<and>
      (so_connect os (so_socket os) addr = Inr () \<or> nonblock \<and> so_connect os (so_socket os) addr = Inl EINPROGRESS)) \<and>
    (r \<noteq> -1 \<longrightarrow> ns_flags st' r = (if nonblock then O_NONBLOCK else 0))"
proof -
  from assms have "so_socket os \<noteq> -1" by simp
  from tcp_connect_result [OF this, of addr nonblock st] this show ?thesis
    by (cases "tcp_connect_sockaddr os addr nonblock st") (auto simp: connect_ok_def split: if_splits)
qed

theorem connect_modes_witness:
  "\<exists>r st'. tcp_connect_sockaddr sample_net_os zero_sockaddr True sample_net = (r, st') \<and> r \<noteq> -1 \<and>
    ns_flags st' r = O_NONBLOCK"
  using connect_modes [of sample_net_os zero_sockaddr True sample_net] by (auto simp: sample_net_os_def)

text \<open>
  Switching a descriptor to non-blocking and back changes the one flag only: the first sets
  it, the second restores the flags of a blocking descriptor, and both report failure without
  touching anything when the flags cannot be read.
\<close>

theorem nonblock_roundtrip:
  assumes "ns_flags st fd \<noteq> -1" "(ns_flags st fd) OR O_NONBLOCK \<noteq> -1"
  shows "(if so_fcntl os fd
     then \<exists>st1 st2. net_set_nonblock os fd st = (0, st1) \<and> net_set_block os fd st1 = (0, st2) \<and>
       ns_flags st1 fd AND O_NONBLOCK = O_NONBLOCK \<and>
       ns_flags st1 fd AND NOT O_NONBLOCK = ns_flags st fd AND NOT O_NONBLOCK \<and>
       ns_flags st2 = (ns_flags st)(fd := ns_flags st fd AND NOT O_NONBLOCK) \<and> ns_open st2 = ns_open st
     else net_set_nonblock os fd st = (-1, st) \<and> net_set_block os fd st = (-1, st))"
proof -
  have "(x OR O_NONBLOCK) AND NOT O_NONBLOCK = x AND NOT O_NONBLOCK" "(x OR O_NONBLOCK) AND O_NONBLOCK = O_NONBLOCK" for x
    by (rule bit_word_eqI; auto simp: bit_simps)+
  with assms show ?thesis
    by (auto simp: net_set_nonblock_def net_set_block_def fcntl_getfl_def fcntl_setfl_def Let_def)
qed

theorem nonblock_roundtrip_witness:
  "\<exists>st1 st2. net_set_nonblock sample_net_os 1 sample_net = (0, st1) \<and> net_set_block sample_net_os 1 st1 = (0, st2) \<and>
     ns_flags st2 1 = 2"
  using nonblock_roundtrip [of sample_net 1 sample_net_os] by (auto simp: sample_net_def sample_net_os_def O_NONBLOCK_def)

end
