(* ===== verification/Acceptor.thy ===== *)
theory Acceptor
  imports Event_Handler Net_Base
begin

text \<open>
  \<^verbatim>\<open>src/net/async_acceptor.cc\<close> and \<^verbatim>\<open>.h\<close>: the listening socket as an event handler. The
  descriptors are those of \<open>net_state\<close>.
\<close>

record acceptor =
  ac_self :: ptr
  ac_listen_fd :: int
  ac_srv_loop :: ptr

definition acceptor_new :: "ptr \<Rightarrow> ptr \<Rightarrow> acceptor" where
  "acceptor_new self loop = \<lparr>ac_self = self, ac_listen_fd = -1, ac_srv_loop = loop\<rparr>"

definition acceptor_handle :: "acceptor \<Rightarrow> int" where
  "acceptor_handle a = ac_listen_fd a"

text \<open>
  \<^verbatim>\<open>open\<close>. The address text handed to \<^verbatim>\<open>net_tcp_listen\<close> is \<^verbatim>\<open>get_ipaddr().c_str()\<close> of a temporary
  that is already destroyed: \<open>seen\<close> is whatever its storage holds then. The descriptor is
  stored in the caller's \<^verbatim>\<open>const\<close> address as well, through a \<^verbatim>\<open>const_cast\<close>.
\<close>

definition acceptor_open ::
  "'d vtable \<Rightarrow> (string \<Rightarrow> 32 word option) \<Rightarrow> bool \<Rightarrow> sock_os \<Rightarrow> string \<Rightarrow> socket_address \<Rightarrow> acceptor \<Rightarrow> net_state \<Rightarrow>
     ('d, 'f, 'z) service_loop_scheme \<Rightarrow>
     (int \<times> acceptor \<times> socket_address \<times> net_state \<times> ('d, 'f, 'z) service_loop_scheme) exec" where
  "acceptor_open V pton le os seen local_addr a st L =
     (let ipaddr = seen;
          port = get_port le local_addr;
          (fd, st1) = net_tcp_listen pton le os (Some ipaddr) port st;
          a1 = a\<lparr>ac_listen_fd := fd\<rparr>
      in if fd < 0 then Inr (-1, a1, local_addr, st1, L)
         else
           let tmp = set_fd local_addr (ac_listen_fd a1); _ = net_set_reuse_address os (ac_listen_fd a1) in
           bind_exec (check (ac_srv_loop a1 \<noteq> NULL) Null_Deref) (\<lambda>_.
           bind_exec (register_event V L (acceptor_handle a1) True False (ac_self a1)) (\<lambda>(result, L1).
           bind_exec (c_assert (0 = result)) (\<lambda>_. Inr (result, a1, tmp, st1, L1)))))"

definition acceptor_close ::
  "'d vtable \<Rightarrow> acceptor \<Rightarrow> net_state \<Rightarrow> ('d, 'f, 'z) service_loop_scheme \<Rightarrow>
     (acceptor \<times> net_state \<times> ('d, 'f, 'z) service_loop_scheme) exec" where
  "acceptor_close V a st L =
     bind_exec
       (if acceptor_handle a > 0 then
          bind_exec (check (ac_srv_loop a \<noteq> NULL) Null_Deref) (\<lambda>_.
          bind_exec (delete_event V L (acceptor_handle a)) (\<lambda>(result, L1).
          bind_exec (c_assert (0 = result)) (\<lambda>_. Inr L1)))
        else Inr L)
       (\<lambda>L1. if ac_listen_fd a > 0 then Inr (a\<lparr>ac_listen_fd := -1\<rparr>, net_close (ac_listen_fd a) st, L1)
             else Inr (a, st, L1))"

text \<open>The destructor.\<close>

definition acceptor_delete ::
  "'d vtable \<Rightarrow> acceptor \<Rightarrow> net_state \<Rightarrow> ('d, 'f, 'z) service_loop_scheme \<Rightarrow>
     (acceptor \<times> net_state \<times> ('d, 'f, 'z) service_loop_scheme) exec" where
  "acceptor_delete V a st L = acceptor_close V a st L"

text \<open>The base class's own \<^verbatim>\<open>on_accept\<close> keeps every connection and does nothing with it.\<close>

definition default_on_accept :: "socket_address \<Rightarrow> 'w \<Rightarrow> (bool \<times> 'w) exec" where
  "default_on_accept addr w = Inr (True, w)"

text \<open>
  \<^verbatim>\<open>do_handle_read\<close>. \<open>answer\<close> is what \<^verbatim>\<open>accept\<close> returns: an errno, or a new descriptor (now open)
  and the peer's address; \<open>on_accept\<close> is the virtual method, on the state \<open>'w\<close> of the rest of
  the program.
\<close>

definition acceptor_handle_read ::
  "sock_os \<Rightarrow> int + int \<times> sockaddr_in \<Rightarrow> (socket_address \<Rightarrow> 'w \<Rightarrow> (bool \<times> 'w) exec) \<Rightarrow> net_state \<Rightarrow> 'w \<Rightarrow>
     (net_state \<times> 'w) exec" where
  "acceptor_handle_read os answer on_accept st w =
     (let sockaddr = socket_address_new in
      case answer of
        Inl e \<Rightarrow> Inr (st, w)
      | Inr (fd, peer) \<Rightarrow>
          let st1 = st\<lparr>ns_open := insert fd (ns_open st)\<rparr>; sockaddr1 = sockaddr\<lparr>sa_addr := peer\<rparr> in
          if fd > 0 then
            let sockaddr2 = set_fd sockaddr1 fd in
            bind_exec (on_accept sockaddr2 w) (\<lambda>(ok, w1).
              if \<not> ok then Inr (net_close fd st1, w1)
              else let _ = net_set_tcp_nodelay os fd in Inr (st1, w1))
          else Inr (st1, w))"

section \<open>The acceptor as an event handler\<close>

text \<open>Its \<^verbatim>\<open>do_handle_write\<close> and \<^verbatim>\<open>do_handle_error\<close> are empty.\<close>

definition acceptor_do_read ::
  "sock_os \<Rightarrow> (socket_address \<Rightarrow> ('d, 'f, 'z) service_loop_scheme \<Rightarrow> (bool \<times> ('d, 'f, 'z) service_loop_scheme) exec) \<Rightarrow>
     int + int \<times> sockaddr_in \<Rightarrow> acceptor \<times> net_state \<Rightarrow> ('d, 'f, 'z) service_loop_scheme \<Rightarrow>
     ((acceptor \<times> net_state) \<times> ('d, 'f, 'z) service_loop_scheme) exec" where
  "acceptor_do_read os on_accept answer h L =
     bind_exec (acceptor_handle_read os answer on_accept (snd h) L) (\<lambda>(st, L'). Inr ((fst h, st), L'))"

lemma acceptor_do_read_sync:
  assumes "\<And>addr L b L'. sync L \<Longrightarrow> on_accept addr L = Inr (b, L') \<Longrightarrow> sync L'"
    and "sync L" "acceptor_do_read os on_accept answer h L = Inr (h', L')"
  shows "sync L'"
  using assms
  by (auto simp: acceptor_do_read_def acceptor_handle_read_def bind_exec_eq_Inr Let_def split: sum.splits if_splits)

interpretation default_acceptor: event_handler in_sync "\<lambda>h L. sl_handlers L (acceptor_handle (fst h)) = Some (ac_self (fst h))"
  "acceptor_do_read os default_on_accept" no_op_call no_op_call for os
  by unfold_locales
    (auto simp: no_op_call_def default_on_accept_def elim!: acceptor_do_read_sync [of in_sync, rotated -1])

section \<open>Facts\<close>

lemma acceptor_open_frame:
  assumes "acceptor_open V pton le os seen addr a st L = Inr (r, a1, addr1, st1, L1)" "r = 0"
  shows "ac_self a1 = ac_self a \<and> net_tcp_listen pton le os (Some seen) (get_port le addr) st = (ac_listen_fd a1, st1) \<and>
    ac_listen_fd a1 \<ge> 0 \<and> register_event V L (ac_listen_fd a1) True False (ac_self a) = Inr (0, L1)"
proof -
  obtain fd st' where l: "net_tcp_listen pton le os (Some seen) (get_port le addr) st = (fd, st')" by fastforce
  from assms l have "\<not> fd < 0" by (auto simp: acceptor_open_def)
  with assms l show ?thesis by (auto simp: acceptor_open_def Let_def bind_exec_eq_Inr acceptor_handle_def)
qed

lemma acceptor_open_opened:
  assumes "acceptor_open virt pton le os seen addr a st L = Inr (0, a1, addr1, st1, L1)" "in_sync L"
    and "so_socket os > 0" "so_socket os \<notin> ns_open st" "so_socket os \<notin> live_keys (sl_handlers L)"
  shows "in_sync L1 \<and> (\<exists>d. L1 = L\<lparr>sl_dispatcher := d, sl_handlers := (sl_handlers L)(so_socket os \<mapsto> ac_self a)\<rparr>) \<and>
    ns_open st1 = insert (so_socket os) (ns_open st) \<and> ac_self a1 = ac_self a"
proof -
  note fr = acceptor_open_frame [OF assms(1) refl]
  have "so_socket os \<ge> -1" using assms(3) by simp
  from net_tcp_listen_no_leak [OF this assms(4), of pton le "Some seen" "get_port le addr"] fr
  have fd: "ac_listen_fd a1 = so_socket os" "ns_open st1 = insert (so_socket os) (ns_open st)" by (auto simp: no_leak_def)
  with fr have reg: "register_event virt L (so_socket os) True False (ac_self a) = Inr (0, L1)" by simp
  from any.register_event_sync [OF assms(2,5) reg]
  have s: "in_sync L1" "sl_handlers L1 = (sl_handlers L)(so_socket os \<mapsto> ac_self a)" by auto
  from register_event_handlers [OF reg] obtain d hs where "L1 = L\<lparr>sl_dispatcher := d, sl_handlers := hs\<rparr>" by blast
  with s(2) have "L1 = L\<lparr>sl_dispatcher := d, sl_handlers := (sl_handlers L)(so_socket os \<mapsto> ac_self a)\<rparr>" by simp
  with s(1) fd(2) fr show ?thesis by blast
qed

section \<open>Properties\<close>

text \<open>
  Claim C29. Opening and closing an acceptor is a round trip: when \<^verbatim>\<open>open\<close> returned 0 the listening
  descriptor is open and registered with the acceptor as its handler, and a \<^verbatim>\<open>close\<close> that returns
  leaves the loop's handlers, the watched descriptors and the open descriptors as they
  were before; when \<^verbatim>\<open>open\<close> returned -1 nothing was opened or registered.
\<close>

theorem acceptor_open_close:
  assumes "in_sync L" "so_socket os > 0" "so_socket os \<notin> ns_open st" "sl_handlers L (so_socket os) = None"
    and "acceptor_open virt pton le os seen addr a st L = Inr (r, a1, addr1, st1, L1)"
  shows "in_sync L1 \<and>
    (if r = 0
     then get_fd addr1 = acceptor_handle a1 \<and> ns_open st1 = insert (acceptor_handle a1) (ns_open st) \<and>
       sl_handlers L1 = (sl_handlers L)(acceptor_handle a1 \<mapsto> ac_self a) \<and>
       (\<forall>a2 st2 L2. acceptor_close virt a1 st1 L1 = Inr (a2, st2, L2) \<longrightarrow>
          in_sync L2 \<and> sl_handlers L2 = sl_handlers L \<and> ns_open st2 = ns_open st \<and> acceptor_handle a2 = -1)
     else r = -1 \<and> L1 = L \<and> ns_open st1 = ns_open st)"
proof -
  obtain fd st' where l: "net_tcp_listen pton le os (Some seen) (get_port le addr) st = (fd, st')" by fastforce
  have leak: "no_leak st os (fd, st')" using net_tcp_listen_no_leak [of os st pton le "Some seen" "get_port le addr"] assms(2,3) l by simp
  show ?thesis
  proof (cases "fd < 0")
    case True
    with assms(5) l have "r = -1" "L1 = L" "st1 = st'" by (auto simp: acceptor_open_def)
    with True leak assms(1) show ?thesis by (auto simp: no_leak_def)
  next
    case False
    with leak assms(2) have fd: "fd = so_socket os" "fd > 0" "ns_open st' = insert fd (ns_open st)" by (auto simp: no_leak_def)
    from assms(5) l False have r: "r = 0" "a1 = a\<lparr>ac_listen_fd := fd\<rparr>" "addr1 = set_fd addr fd" "st1 = st'"
        "register_event virt L fd True False (ac_self a) = Inr (0, L1)" "ac_srv_loop a \<noteq> NULL"
      by (auto simp: acceptor_open_def Let_def bind_exec_eq_Inr acceptor_handle_def)
    have "fd \<notin> live_keys (sl_handlers L)" using assms(4) fd(1) by (simp add: live_keys_def)
    from any.register_event_sync [OF assms(1) this r(5)] have s: "in_sync L1" "sl_handlers L1 = (sl_handlers L)(fd \<mapsto> ac_self a)" by auto
    have cl: "in_sync L2 \<and> sl_handlers L2 = sl_handlers L \<and> ns_open st2 = ns_open st \<and> acceptor_handle a2 = -1"
      if c: "acceptor_close virt a1 st1 L1 = Inr (a2, st2, L2)" for a2 st2 L2
    proof -
      from c r(2,4) fd(2) have d: "delete_event virt L1 fd = Inr (0, L2)" "st2 = net_close fd st'" "a2 = a1\<lparr>ac_listen_fd := -1\<rparr>"
        by (auto simp: acceptor_close_def bind_exec_eq_Inr acceptor_handle_def)
      from any.delete_event_sync [OF s(1) d(1)] s(2) assms(4) fd(1) have "in_sync L2" "sl_handlers L2 = sl_handlers L"
        by (auto simp: fun_upd_idem)
      with d fd assms(3) show ?thesis by (auto simp: net_close_def acceptor_handle_def)
    qed
    have h: "acceptor_handle a1 = fd" and "get_fd addr1 = fd" "ns_open st1 = insert fd (ns_open st)"
      using r(2-4) fd(3) by (simp_all add: set_fd_def get_fd_def acceptor_handle_def)
    then have "get_fd addr1 = acceptor_handle a1 \<and> ns_open st1 = insert (acceptor_handle a1) (ns_open st) \<and>
       sl_handlers L1 = (sl_handlers L)(acceptor_handle a1 \<mapsto> ac_self a)"
      by (simp only: s(2) refl simp_thms)
    with s(1) cl show ?thesis unfolding r(1) if_True refl simp_thms(6) by blast
  qed
qed

definition server_os :: sock_os where
  "server_os = sample_net_os\<lparr>so_listen := \<lambda>fd n. Inr ()\<rparr>"

definition server_loop :: "(dispatcher, nat) service_loop" where
  "server_loop = sample_loop\<lparr>sl_dispatcher := Some (D_Epoll (sample_epoll\<lparr>ep_fd := 3, ep_fd_count := 2,
     ep_interest := [4 \<mapsto> EPOLLIN, 5 \<mapsto> EPOLLIN]\<rparr>)), sl_handlers := [4 \<mapsto> 100, 5 \<mapsto> 300]\<rparr>"

lemma server_loop_register: "register_event virt sample_loop 5 True False 300 = Inr (0, server_loop)"
  by (simp add: register_event_def the_dispatcher_def sample_loop_def server_loop_def epoll_add_event_def
      epoll_events_cases epoll_count_inc_def sample_ctl_def INT_MAX_def wrap_result_def sample_epoll_def)

lemma server_listen:
  "net_tcp_listen (\<lambda>s. Some 0) True server_os (Some ''127.0.0.1'') 6543 sample_net =
     (5, sample_net\<lparr>ns_open := {0, 1, 2, 5}, ns_flags := (\<lambda>fd. 2)(5 := 0)\<rparr>)"
  by (simp add: net_tcp_listen_def net_tcp_bind_def net_socket_def server_os_def sample_net_os_def sample_net_def
      insert_commute Let_def)

theorem acceptor_open_close_witness:
  "\<exists>a1 addr1 st1. acceptor_open virt (\<lambda>s. Some 0) True server_os ''127.0.0.1''
      (socket_address_make (\<lambda>s. Some 16777343) True ''127.0.0.1'' 6543) (acceptor_new 300 50) sample_net sample_loop
      = Inr (0, a1, addr1, st1, server_loop) \<and> get_fd addr1 = 5 \<and> in_sync server_loop"
proof -
  let ?addr = "socket_address_make (\<lambda>s. Some 16777343) True ''127.0.0.1'' 6543"
  let ?a1 = "(acceptor_new 300 50)\<lparr>ac_listen_fd := 5\<rparr>"
  let ?st1 = "sample_net\<lparr>ns_open := {0, 1, 2, 5}, ns_flags := (\<lambda>fd. 2)(5 := 0)\<rparr>"
  have "get_port True ?addr = 6543"
    by (simp add: get_port_def socket_address_make_def zero_sockaddr_def Let_def)
  then have o: "acceptor_open virt (\<lambda>s. Some 0) True server_os ''127.0.0.1'' ?addr (acceptor_new 300 50) sample_net sample_loop
      = Inr (0, ?a1, set_fd ?addr 5, ?st1, server_loop)"
    by (simp add: acceptor_open_def server_listen acceptor_new_def acceptor_handle_def server_loop_register)
  have "so_socket server_os > 0" "so_socket server_os \<notin> ns_open sample_net" "sl_handlers sample_loop (so_socket server_os) = None"
    by (simp_all add: server_os_def sample_net_os_def sample_net_def sample_loop_def)
  from acceptor_open_close [OF sample_loop_sync this o] o show ?thesis
    by (auto simp: acceptor_handle_def)
qed

text \<open>
  An accepted descriptor is handed to \<^verbatim>\<open>on_accept\<close> in the address, and closed again exactly
  when \<^verbatim>\<open>on_accept\<close> refuses it; a failed \<^verbatim>\<open>accept\<close> changes nothing and calls nobody.
\<close>

theorem acceptor_accepts_or_closes:
  assumes "fd > 0" "fd \<notin> ns_open st" "on_accept \<lparr>socket_fd = fd, sa_addr = peer\<rparr> w = Inr (ok, w')"
  shows "(\<exists>st'. acceptor_handle_read os (Inr (fd, peer)) on_accept st w = Inr (st', w') \<and>
      ns_open st' = (if ok then insert fd (ns_open st) else ns_open st)) \<and>
    acceptor_handle_read os (Inl e) on_accept st w = Inr (st, w)"
  using assms by (cases ok) (simp_all add: acceptor_handle_read_def set_fd_def socket_address_new_def net_close_def Let_def)

theorem acceptor_accepts_or_closes_witness:
  "\<exists>st'. acceptor_handle_read sample_net_os (Inr (9, zero_sockaddr)) (\<lambda>a w. Inr (False, w + 1)) sample_net (0 :: nat) = Inr (st', 1) \<and>
     ns_open st' = {0, 1, 2}"
  using acceptor_accepts_or_closes [of 9 sample_net "\<lambda>a w. Inr (False, w + 1)" zero_sockaddr "0 :: nat" False 1 sample_net_os 0]
  by (simp add: sample_net_def)

end
