(* ===== verification/Echo_Server.thy ===== *)
theory Echo_Server
  imports Connection_Effects Acceptor
begin

text \<open>
  The single-threaded server of \<^verbatim>\<open>src/example/example-1.cc\<close> as one system: the loop, its wakeup
  handler, the acceptor and the connections it creates, with the virtual calls of the run loop
  resolved on the objects that exist.
\<close>

section \<open>The single-threaded echo server\<close>

text \<open>\<^verbatim>\<open>session_handler\<close>: the console output is not modelled.\<close>

definition session_callbacks :: "unit callbacks" where
  "session_callbacks = \<lparr>on_connect = (\<lambda>remote u. (u, [])),
     on_read = (\<lambda>input u. (u, [Cmd_Send input], int (length input))), on_close = (\<lambda>u. u)\<rparr>"

text \<open>
  The whole program: \<open>sv_conns\<close> are the connection objects on the heap (a deleted one is gone),
  \<open>sv_next\<close> the next address \<^verbatim>\<open>new\<close> returns, \<open>sv_loop_ptr\<close> the address of the loop, \<open>sv_clock\<close> counts
  the virtual calls so far.
\<close>

record 'f server = "(dispatcher, 'f) service_loop" +
  sv_net :: net_state
  sv_acceptor :: acceptor
  sv_conns :: "ptr \<rightharpoonup> unit connection"
  sv_next :: ptr
  sv_loop_ptr :: ptr
  sv_clock :: nat

text \<open>What the system answers during one virtual call.\<close>

record server_io =
  io_accept :: "int + int \<times> sockaddr_in"
  io_recv :: "recv_answer list"
  io_send :: "send_answer list"
  io_eventfd :: "nat list \<Rightarrow> int + nat"

text \<open>\<^verbatim>\<open>acceptor_handler::on_accept\<close>.\<close>

definition session_on_accept :: "socket_address \<Rightarrow> 'f server \<Rightarrow> (bool \<times> 'f server) exec" where
  "session_on_accept addr W =
     (let p = sv_next W;
          W1 = W\<lparr>sv_next := p + 1\<rparr>;
          c = conn_set_service_loop (connection_new p ()) (sv_loop_ptr W1)
      in bind_exec (conn_open virt session_callbacks addr c W1) (\<lambda>(c', W2).
           Inr (True, W2\<lparr>sv_conns := (sv_conns W2)(p \<mapsto> c')\<rparr>)))"

text \<open>
  The virtual call on the object at \<open>p\<close>; an address that is neither the wakeup handler's, the
  acceptor's nor that of an existing connection is that of a deleted object.
\<close>

definition server_invoke ::
  "sock_os \<Rightarrow> (nat \<Rightarrow> 'f server \<Rightarrow> server_io) \<Rightarrow> ptr \<Rightarrow> int \<Rightarrow> 'f server \<Rightarrow> 'f server exec" where
  "server_invoke os env p ev W =
     (let io = env (sv_clock W) W; W0 = W\<lparr>sv_clock := sv_clock W + 1\<rparr> in
      case sl_wakeup W0 of
        Some wk \<Rightarrow>
          if p = wk_self wk then
            (if ev = EVENT_READ
             then bind_exec (wakeup_handle_read (io_eventfd io) wk) (\<lambda>wk'. Inr (W0\<lparr>sl_wakeup := Some wk'\<rparr>))
             else Inr W0)
          else if p = ac_self (sv_acceptor W0) then
            (if ev = EVENT_READ
             then bind_exec (acceptor_handle_read os (io_accept io) session_on_accept (sv_net W0) W0) (\<lambda>(net, W1).
                    Inr (W1\<lparr>sv_net := net\<rparr>))
             else Inr W0)
          else (case sv_conns W0 p of
                  None \<Rightarrow> Inl Use_After_Free
                | Some c \<Rightarrow> bind_exec (conn_event session_callbacks (io_recv io) (io_send io) ev c W0) (\<lambda>(c', W1).
                    Inr (W1\<lparr>sv_conns := (sv_conns W1)(p := (if cn_live c' then Some c' else None))\<rparr>)))
      | None \<Rightarrow> Inl Null_Deref)"

lemma session_once: "answers_once session_callbacks"
  by (simp add: answers_once_def session_callbacks_def)

section \<open>The invariant of the server\<close>

text \<open>
  Every live handler registered with the loop is an object that exists: the wakeup handler, the
  acceptor, or a connection registered under its own descriptor; every connection object is
  registered; and every watched descriptor is open.
\<close>

definition conns_ok :: "'f server \<Rightarrow> bool" where
  "conns_ok W \<longleftrightarrow> (\<forall>p c. sv_conns W p = Some c \<longrightarrow>
     p < sv_next W \<and> cn_self c = p \<and> conn_ready c W \<and> conn_handle c > 0)"

definition known_handler :: "'f server \<Rightarrow> int \<Rightarrow> ptr \<Rightarrow> bool" where
  "known_handler W h p \<longleftrightarrow> (case sv_conns W p of Some c \<Rightarrow> conn_handle c = h
     | None \<Rightarrow> p = wk_self (the (sl_wakeup W)) \<or> p = ac_self (sv_acceptor W))"

definition fixed_ok :: "'f server \<Rightarrow> bool" where
  "fixed_ok W \<longleftrightarrow> sl_functors W = [] \<and> 0 < sv_next W \<and> sv_loop_ptr W \<noteq> NULL \<and>
     sl_wakeup W \<noteq> None \<and> wk_self (the (sl_wakeup W)) < sv_next W \<and> ac_self (sv_acceptor W) < sv_next W \<and>
     sv_conns W (wk_self (the (sl_wakeup W))) = None \<and> sv_conns W (ac_self (sv_acceptor W)) = None"

definition server_ok :: "'f server \<Rightarrow> bool" where
  "server_ok W \<longleftrightarrow> in_sync W \<and> fixed_ok W \<and> conns_ok W \<and>
     (\<forall>h p. sl_handlers W h = Some p \<longrightarrow> p \<noteq> NULL \<longrightarrow> known_handler W h p) \<and>
     live_keys (sl_handlers W) \<subseteq> ns_open (sv_net W)"

text \<open>The documented behaviour of \<^verbatim>\<open>accept\<close>: a new descriptor is one that is not open.\<close>

definition accepts_new :: "(nat \<Rightarrow> 'f server \<Rightarrow> server_io) \<Rightarrow> bool" where
  "accepts_new env \<longleftrightarrow> (\<forall>n W fd peer. io_accept (env n W) = Inr (fd, peer) \<longrightarrow> fd \<notin> ns_open (sv_net W))"

lemma server_conn: "server_ok W \<Longrightarrow> sv_conns W p = Some c \<Longrightarrow>
  p < sv_next W \<and> cn_self c = p \<and> conn_ready c W \<and> conn_handle c > 0"
  by (simp add: server_ok_def conns_ok_def)

lemma server_handler:
  "server_ok W \<Longrightarrow> sl_handlers W h = Some p \<Longrightarrow> p \<noteq> NULL \<Longrightarrow> known_handler W h p"
  by (simp add: server_ok_def)

lemma known_handler_frame:
  "sv_conns W' p = sv_conns W p \<Longrightarrow> wk_self (the (sl_wakeup W')) = wk_self (the (sl_wakeup W)) \<Longrightarrow>
   sv_acceptor W' = sv_acceptor W \<Longrightarrow> known_handler W' h p = known_handler W h p"
  by (simp add: known_handler_def split: option.split)

lemma server_okI:
  "in_sync W \<Longrightarrow> fixed_ok W \<Longrightarrow> conns_ok W \<Longrightarrow>
   (\<And>h p. sl_handlers W h = Some p \<Longrightarrow> p \<noteq> NULL \<Longrightarrow> known_handler W h p) \<Longrightarrow>
   live_keys (sl_handlers W) \<subseteq> ns_open (sv_net W) \<Longrightarrow> server_ok W"
  by (simp add: server_ok_def)

lemma conn_ready_dispatcher [simp]: "conn_ready c (L\<lparr>sl_dispatcher := d\<rparr>) = conn_ready c L"
  by (simp add: conn_ready_def)

text \<open>An operation on a connection that stays.\<close>

lemma server_ok_keep:
  assumes "server_ok W" "sv_conns W p = Some c" "same_conn c c'" "cn_live c'" "only_dispatcher W W'" "in_sync W'"
  shows "server_ok (W'\<lparr>sv_conns := (sv_conns W')(p \<mapsto> c')\<rparr>)"
proof -
  from assms(5) obtain d where W': "W' = W\<lparr>sl_dispatcher := d\<rparr>" by (auto simp: only_dispatcher_def)
  note c = server_conn [OF assms(1,2)]
  have c': "cn_self c' = p" "conn_handle c' = conn_handle c" "conn_ready c' W"
    using c assms(3,4) same_conn_handle [OF assms(3)] by (simp_all add: same_conn_def conn_ready_def)
  let ?W = "W'\<lparr>sv_conns := (sv_conns W')(p \<mapsto> c')\<rparr>"
  show ?thesis
  proof (rule server_okI)
    show "in_sync ?W" using assms(6) by (simp add: loop_sync_def)
    show "fixed_ok ?W" using assms(1,2) by (auto simp: server_ok_def fixed_ok_def W')
    show "conns_ok ?W" using assms(1) c c' by (auto simp: server_ok_def conns_ok_def W' conn_ready_def)
    show "live_keys (sl_handlers ?W) \<subseteq> ns_open (sv_net ?W)" using assms(1) by (simp add: server_ok_def W')
    fix h q
    assume "sl_handlers ?W h = Some q" "q \<noteq> NULL"
    then have "known_handler W h q" using server_handler [OF assms(1)] by (simp add: W')
    with assms(2) c'(2) show "known_handler ?W h q"
      by (cases "sv_conns W q"; cases "q = p") (simp_all add: known_handler_def W')
  qed
qed

text \<open>An operation that deletes its connection.\<close>

lemma server_ok_delete:
  assumes "server_ok W" "sv_conns W p = Some c"
    and "W' = W\<lparr>sl_dispatcher := d, sl_handlers := (sl_handlers W)(conn_handle c := None)\<rparr>" "in_sync W'"
  shows "server_ok (W'\<lparr>sv_conns := (sv_conns W')(p := None)\<rparr>)"
proof -
  note c = server_conn [OF assms(1,2)]
  have other: "conn_handle c2 \<noteq> conn_handle c" if "sv_conns W q = Some c2" "q \<noteq> p" for q c2
    using server_conn [OF assms(1) that(1)] c that(2) by (auto simp: conn_ready_def)
  let ?W = "W'\<lparr>sv_conns := (sv_conns W')(p := None)\<rparr>"
  show ?thesis
  proof (rule server_okI)
    show "in_sync ?W" using assms(4) by (simp add: loop_sync_def)
    show "fixed_ok ?W" using assms(1,2) by (auto simp: server_ok_def fixed_ok_def assms(3))
    have "conn_ready c2 ?W" if "sv_conns W q = Some c2" "q \<noteq> p" for q c2
      using server_conn [OF assms(1) that(1)] other [OF that] by (simp add: conn_ready_def assms(3))
    with assms(1) show "conns_ok ?W"
      by (auto simp: server_ok_def conns_ok_def assms(3))
    show "live_keys (sl_handlers ?W) \<subseteq> ns_open (sv_net ?W)" using assms(1) by (auto simp: server_ok_def assms(3))
    fix h q
    assume q: "sl_handlers ?W h = Some q" "q \<noteq> NULL"
    then have h: "h \<noteq> conn_handle c" "sl_handlers W h = Some q" by (auto simp: assms(3) split: if_splits)
    from server_handler [OF assms(1) h(2) q(2)] assms(2) h(1) show "known_handler ?W h q"
      by (cases "sv_conns W q"; cases "q = p") (simp_all add: known_handler_def assms(3))
  qed
qed

text \<open>Accepting a connection.\<close>

lemma session_on_accept_facts:
  assumes ok: "server_ok W" and fd: "get_fd addr > 0" "get_fd addr \<notin> live_keys (sl_handlers W)"
    and acc: "session_on_accept addr W = Inr (b, W')"
  shows "b \<and> (\<exists>d c. W' = W\<lparr>sv_next := sv_next W + 1, sl_dispatcher := d,
       sl_handlers := (sl_handlers W)(get_fd addr \<mapsto> sv_next W), sv_conns := (sv_conns W)(sv_next W \<mapsto> c)\<rparr> \<and>
     cn_self c = sv_next W \<and> conn_handle c = get_fd addr \<and> cn_live c) \<and> in_sync W'"
proof -
  let ?W1 = "W\<lparr>sv_next := sv_next W + 1\<rparr>"
  define c where "c = (conn_set_remote_addr (conn_set_service_loop (connection_new (sv_next W) ()) (sv_loop_ptr W)) addr)
    \<lparr>cn_in := sb_clear sb_new, cn_out := sb_clear sb_new, cn_user := ()\<rparr>"
  have c: "cn_self c = sv_next W" "conn_handle c = get_fd addr" "cn_live c"
    by (simp_all add: c_def conn_set_remote_addr_def conn_set_service_loop_def connection_new_def conn_handle_def
        socket_address_assign_def get_fd_def)
  have s1: "in_sync ?W1" using ok by (simp add: server_ok_def loop_sync_def)
  from acc obtain W2 where r: "register_event virt ?W1 (get_fd addr) True False (sv_next W) = Inr (0, W2)" and
    W': "b" "W' = W2\<lparr>sv_conns := (sv_conns W2)(sv_next W \<mapsto> c)\<rparr>"
    by (auto simp: session_on_accept_def Let_def conn_open_def session_callbacks_def bind_exec_eq_Inr c_def
        conn_set_remote_addr_def conn_set_service_loop_def connection_new_def conn_handle_def socket_address_assign_def get_fd_def)
  from any.register_event_sync [OF s1 _ r] fd(2)
  have s2: "in_sync W2" "sl_handlers W2 = (sl_handlers W)(get_fd addr \<mapsto> sv_next W)" by auto
  from register_event_handlers [OF r] obtain d hs where "W2 = ?W1\<lparr>sl_dispatcher := d, sl_handlers := hs\<rparr>" by blast
  with s2(2) have "W2 = ?W1\<lparr>sl_dispatcher := d, sl_handlers := (sl_handlers W)(get_fd addr \<mapsto> sv_next W)\<rparr>" by simp
  with W' c have "W' = W\<lparr>sv_next := sv_next W + 1, sl_dispatcher := d,
       sl_handlers := (sl_handlers W)(get_fd addr \<mapsto> sv_next W), sv_conns := (sv_conns W)(sv_next W \<mapsto> c)\<rparr>"
    by simp
  moreover have "in_sync W'" using s2(1) W'(2) by (simp add: loop_sync_def)
  ultimately show ?thesis using W'(1) c by blast
qed

lemma server_ok_frame:
  assumes "server_ok W" "sl_dispatcher W' = sl_dispatcher W" "sl_handlers W' = sl_handlers W" "sl_functors W' = sl_functors W"
    "sl_wakeup W' \<noteq> None" "wk_self (the (sl_wakeup W')) = wk_self (the (sl_wakeup W))"
    "ns_open (sv_net W) \<subseteq> ns_open (sv_net W')" "sv_acceptor W' = sv_acceptor W" "sv_conns W' = sv_conns W"
    "sv_next W' = sv_next W" "sv_loop_ptr W' = sv_loop_ptr W"
  shows "server_ok W'"
proof (rule server_okI)
  have parts: "in_sync W" "fixed_ok W" "conns_ok W" "live_keys (sl_handlers W) \<subseteq> ns_open (sv_net W)"
    using assms(1) by (simp_all add: server_ok_def)
  show "in_sync W'" using parts(1) by (simp add: loop_sync_def assms(2,3))
  show "fixed_ok W'" using parts(2) assms(5) by (simp add: fixed_ok_def assms(4,6,8-11))
  show "conns_ok W'" using parts(3) unfolding conns_ok_def conn_ready_def assms(3,9,10) .
  show "live_keys (sl_handlers W') \<subseteq> ns_open (sv_net W')" using parts(4) assms(7) by (simp add: assms(3))
  fix h p
  assume "sl_handlers W' h = Some p" "p \<noteq> NULL"
  with server_handler [OF assms(1)] known_handler_frame [of W' p W h] show "known_handler W' h p"
    by (simp add: assms(3,6,8,9))
qed

lemma server_ok_accept:
  assumes ok: "server_ok W" and fd: "fd > 0" "fd \<notin> live_keys (sl_handlers W)"
    and acc: "session_on_accept \<lparr>socket_fd = fd, sa_addr = peer\<rparr> W = Inr (b, W')"
  shows "b \<and> server_ok (W'\<lparr>sv_net := (sv_net W)\<lparr>ns_open := insert fd (ns_open (sv_net W))\<rparr>\<rparr>)"
proof -
  have h: "get_fd \<lparr>socket_fd = fd, sa_addr = peer\<rparr> = fd" by (simp add: get_fd_def)
  let ?q = "sv_next W"
  from session_on_accept_facts [OF ok _ _ acc] fd obtain d c where
    W': "W' = W\<lparr>sv_next := ?q + 1, sl_dispatcher := d, sl_handlers := (sl_handlers W)(fd \<mapsto> ?q), sv_conns := (sv_conns W)(?q \<mapsto> c)\<rparr>"
    and c: "cn_self c = ?q" "conn_handle c = fd" "cn_live c" and b: "b" "in_sync W'" unfolding h by blast
  let ?W = "W'\<lparr>sv_net := (sv_net W)\<lparr>ns_open := insert fd (ns_open (sv_net W))\<rparr>\<rparr>"
  have pos: "?q > 0" using ok by (simp add: server_ok_def fixed_ok_def)
  have other: "conn_handle c2 \<noteq> fd" if "sv_conns W r = Some c2" for r c2
    using server_conn [OF ok that] fd(2) conn_ready_live [of c2 W] by auto
  have "server_ok ?W"
  proof (rule server_okI)
    show "in_sync ?W" using b(2) by (simp add: loop_sync_def)
    show "fixed_ok ?W" using ok by (auto simp: server_ok_def fixed_ok_def W')
    show "conns_ok ?W" unfolding conns_ok_def
    proof (intro allI impI)
      fix r c2
      assume r: "sv_conns ?W r = Some c2"
      show "r < sv_next ?W \<and> cn_self c2 = r \<and> conn_ready c2 ?W \<and> conn_handle c2 > 0"
      proof (cases "r = ?q")
        case True
        with r c pos fd(1) show ?thesis by (simp add: W' conn_ready_def)
      next
        case False
        with r have r': "sv_conns W r = Some c2" by (simp add: W')
        from server_conn [OF ok r'] other [OF r'] show ?thesis by (simp add: W' conn_ready_def)
      qed
    qed
    show "live_keys (sl_handlers ?W) \<subseteq> ns_open (sv_net ?W)" using ok by (auto simp: server_ok_def W')
    fix h p
    assume p: "sl_handlers ?W h = Some p" "p \<noteq> NULL"
    show "known_handler ?W h p"
    proof (cases "h = fd")
      case True
      with p c show ?thesis by (simp add: W' known_handler_def)
    next
      case False
      with p(1) have p': "sl_handlers W h = Some p" by (simp add: W')
      have "p \<noteq> ?q"
      proof
        assume "p = ?q"
        with server_handler [OF ok p' p(2)] ok show False
          by (cases "sv_conns W p") (auto simp: known_handler_def server_ok_def fixed_ok_def conns_ok_def)
      qed
      with server_handler [OF ok p' p(2)] show ?thesis
        by (cases "sv_conns W p") (simp_all add: W' known_handler_def)
    qed
  qed
  with b(1) show ?thesis by simp
qed

lemma session_on_accept_no_uaf: "no_uaf (session_on_accept addr W)"
  by (simp add: session_on_accept_def conn_open_def session_callbacks_def Let_def conn_set_remote_addr_def
      conn_set_service_loop_def connection_new_def case_prod_beta)
    (intro uaf_intros; simp)

text \<open>A virtual call by the object it is made on: the wakeup handler, the acceptor, a connection.\<close>

lemma server_clock_ok: "server_ok W \<Longrightarrow> server_ok (W\<lparr>sv_clock := sv_clock W + 1\<rparr>)"
  using server_ok_frame [of W "W\<lparr>sv_clock := sv_clock W + 1\<rparr>"] by (auto simp: server_ok_def fixed_ok_def)

lemma invoke_wakeup_ok:
  assumes ok: "server_ok W" and wk: "sl_wakeup W = Some wk" "p = wk_self wk"
  shows "no_uaf (server_invoke os env p ev W) \<and> (\<forall>W'. server_invoke os env p ev W = Inr W' \<longrightarrow> server_ok W')"
proof -
  let ?W0 = "W\<lparr>sv_clock := sv_clock W + 1\<rparr>" and ?io = "env (sv_clock W) W"
  note ok0 = server_clock_ok [OF ok]
  show ?thesis
  proof (cases "wakeup_handle_read (io_eventfd ?io) wk")
    case (Inl e)
    with wakeup_handle_read_no_uaf [of "io_eventfd ?io" wk] wk ok0 show ?thesis
      by (simp add: server_invoke_def Let_def)
  next
    case (Inr wk')
    then have "wk_self wk' = wk_self wk" by (auto simp: wakeup_handle_read_def bind_exec_eq_Inr split: sum.splits)
    then have "server_ok (?W0\<lparr>sl_wakeup := Some wk'\<rparr>)"
      using server_ok_frame [OF ok0, of "?W0\<lparr>sl_wakeup := Some wk'\<rparr>"] wk by simp
    with wk ok0 Inr show ?thesis by (simp add: server_invoke_def Let_def)
  qed
qed

lemma accept_read_ok:
  assumes ok: "server_ok W" and new: "case answer of Inl e \<Rightarrow> True | Inr (fd, peer) \<Rightarrow> fd \<notin> ns_open (sv_net W)"
    and m: "m = bind_exec (acceptor_handle_read os answer session_on_accept (sv_net W) W) (\<lambda>(net, W1). Inr (W1\<lparr>sv_net := net\<rparr>))"
  shows "no_uaf m \<and> (\<forall>W'. m = Inr W' \<longrightarrow> server_ok W')"
proof -
  obtain wk where wk: "sl_wakeup W = Some wk" using ok by (auto simp: server_ok_def fixed_ok_def)
  have keep: "server_ok (W\<lparr>sv_net := n\<rparr>)" if "ns_open (sv_net W) \<subseteq> ns_open n" for n
    using server_ok_frame [OF ok, of "W\<lparr>sv_net := n\<rparr>"] wk that by simp
  show ?thesis
  proof (cases answer)
    case (Inl e)
    with m keep [of "sv_net W"] show ?thesis by (simp add: acceptor_handle_read_def)
  next
    case (Inr r)
    obtain fd peer where r: "answer = Inr (fd, peer)" using Inr by (cases r) auto
    with new ok have free: "fd \<notin> live_keys (sl_handlers W)" by (auto simp: server_ok_def)
    let ?a = "\<lparr>socket_fd = fd, sa_addr = peer\<rparr>"
    have a: "set_fd (socket_address_new\<lparr>sa_addr := peer\<rparr>) fd = ?a" by (simp add: set_fd_def socket_address_new_def)
    consider "\<not> fd > 0" | e where "fd > 0" "session_on_accept ?a W = Inl e" | b W1 where "fd > 0" "session_on_accept ?a W = Inr (b, W1)"
      by (cases "session_on_accept ?a W") auto
    then show ?thesis
    proof cases
      case 1
      with m r keep [of "(sv_net W)\<lparr>ns_open := insert fd (ns_open (sv_net W))\<rparr>"] show ?thesis
        by (auto simp: acceptor_handle_read_def Let_def)
    next
      case 2
      with session_on_accept_no_uaf [of ?a W] m r a show ?thesis by (simp add: acceptor_handle_read_def Let_def)
    next
      case 3
      from server_ok_accept [OF ok 3(1) free 3(2)] m r a 3 show ?thesis by (simp add: acceptor_handle_read_def Let_def)
    qed
  qed
qed

lemma invoke_acceptor_ok:
  assumes ok: "server_ok W" and env: "accepts_new env"
    and p: "sl_wakeup W = Some wk" "p \<noteq> wk_self wk" "p = ac_self (sv_acceptor W)"
  shows "no_uaf (server_invoke os env p ev W) \<and> (\<forall>W'. server_invoke os env p ev W = Inr W' \<longrightarrow> server_ok W')"
proof (cases "ev = EVENT_READ")
  case True
  let ?W0 = "W\<lparr>sv_clock := sv_clock W + 1\<rparr>" and ?answer = "io_accept (env (sv_clock W) W)"
  have "case ?answer of Inl e \<Rightarrow> True | Inr (fd, peer) \<Rightarrow> fd \<notin> ns_open (sv_net ?W0)"
    using env by (auto simp: accepts_new_def split: sum.split)
  from accept_read_ok [OF server_clock_ok [OF ok] this refl] True p show ?thesis by (simp add: server_invoke_def Let_def)
qed (use server_clock_ok [OF ok] p in \<open>simp add: server_invoke_def Let_def\<close>)

lemma invoke_conn_ok:
  assumes ok: "server_ok W" and p: "sl_wakeup W = Some wk" "p \<noteq> wk_self wk" "p \<noteq> ac_self (sv_acceptor W)" "sv_conns W p = Some c"
  shows "no_uaf (server_invoke os env p ev W) \<and> (\<forall>W'. server_invoke os env p ev W = Inr W' \<longrightarrow> server_ok W')"
proof -
  let ?W0 = "W\<lparr>sv_clock := sv_clock W + 1\<rparr>" and ?io = "env (sv_clock W) W"
  note ok0 = server_clock_ok [OF ok]
  have c0: "sv_conns ?W0 p = Some c" using p(4) by simp
  from server_conn [OF ok0 c0] have c: "conn_ready c ?W0" "conn_handle c > 0" by auto
  have inv: "server_invoke os env p ev W = bind_exec (conn_event session_callbacks (io_recv ?io) (io_send ?io) ev c ?W0) (\<lambda>(c', W1).
      Inr (W1\<lparr>sv_conns := (sv_conns W1)(p := (if cn_live c' then Some c' else None))\<rparr>))"
    using p by (simp add: server_invoke_def Let_def)
  have "server_ok W'" if "server_invoke os env p ev W = Inr W'" for W'
  proof -
    from that inv obtain c' W1 where e: "conn_event session_callbacks (io_recv ?io) (io_send ?io) ev c ?W0 = Inr (c', W1)"
      "W' = W1\<lparr>sv_conns := (sv_conns W1)(p := (if cn_live c' then Some c' else None))\<rparr>"
      by (auto simp: bind_exec_eq_Inr)
    have "in_sync ?W0" using ok0 by (simp add: server_ok_def)
    from conn_event_outcome [OF e(1) session_once c this] have o: "conn_outcome c ?W0 c' W1" "in_sync W1" by auto
    show ?thesis
    proof (cases "cn_live c'")
      case True
      with server_ok_keep [OF ok0 c0, of c' W1] o e(2) show ?thesis by (auto simp: conn_outcome_def)
    next
      case False
      with server_ok_delete [OF ok0 c0 _ o(2)] o(1) e(2) show ?thesis by (auto simp: conn_outcome_def)
    qed
  qed
  moreover have "no_uaf (server_invoke os env p ev W)"
    unfolding inv by (intro uaf_intros conn_event_no_uaf [OF c(1) session_once])
  ultimately show ?thesis by blast
qed

lemma server_invoke_ok:
  assumes ok: "server_ok W" and env: "accepts_new env" and p: "sl_handlers W h = Some p" "p \<noteq> NULL"
  shows "no_uaf (server_invoke os env p ev W) \<and> (\<forall>W'. server_invoke os env p ev W = Inr W' \<longrightarrow> server_ok W')"
proof -
  from ok obtain wk where wk: "sl_wakeup W = Some wk" by (auto simp: server_ok_def fixed_ok_def)
  consider (wakeup) "p = wk_self wk" | (acceptor) "p \<noteq> wk_self wk" "p = ac_self (sv_acceptor W)"
    | (conn) c where "p \<noteq> wk_self wk" "p \<noteq> ac_self (sv_acceptor W)" "sv_conns W p = Some c"
    using server_handler [OF ok p] wk by (cases "sv_conns W p") (auto simp: known_handler_def)
  then show ?thesis
    by cases (rule invoke_wakeup_ok [OF ok wk] invoke_acceptor_ok [OF ok env wk] invoke_conn_ok [OF ok wk]; assumption)+
qed

section \<open>The server's run loop\<close>

lemma server_ok_lookup:
  assumes ok: "server_ok W"
  shows "server_ok (W\<lparr>sl_handlers := snd (map_index (sl_handlers W) fd)\<rparr>)"
proof (cases "sl_handlers W fd")
  case (Some p)
  with ok show ?thesis by (simp add: map_index_def)
next
  case None
  let ?W = "W\<lparr>sl_handlers := (sl_handlers W)(fd \<mapsto> NULL)\<rparr>"
  have "server_ok ?W"
  proof (rule server_okI)
    have lk: "live_keys (sl_handlers ?W) = live_keys (sl_handlers W)" using None by (auto simp: live_keys_def)
    from ok lk show "in_sync ?W" by (simp add: server_ok_def loop_sync_def)
    from ok show "fixed_ok ?W" by (simp add: server_ok_def fixed_ok_def)
    from ok None show "conns_ok ?W" by (fastforce simp: server_ok_def conns_ok_def conn_ready_def)
    from ok lk show "live_keys (sl_handlers ?W) \<subseteq> ns_open (sv_net ?W)" by (simp add: server_ok_def)
    fix h p
    assume "sl_handlers ?W h = Some p" "p \<noteq> NULL"
    then have "sl_handlers W h = Some p" by (auto split: if_splits)
    with server_handler [OF ok this] \<open>p \<noteq> NULL\<close> known_handler_frame [of ?W p W h] show "known_handler ?W h p" by simp
  qed
  with None show ?thesis by (simp add: map_index_def)
qed

lemma server_dispatch_ok:
  assumes env: "accepts_new env"
  shows "server_ok W \<Longrightarrow> no_uaf (dispatch_ready (server_invoke os env) ready W) \<and>
    (\<forall>W'. dispatch_ready (server_invoke os env) ready W = Inr W' \<longrightarrow> server_ok W')"
proof (induction ready arbitrary: W)
  case (Cons e ready)
  obtain fd ev where e: "e = (fd, ev)" by fastforce
  define p where "p = fst (map_index (sl_handlers W) fd)"
  let ?W0 = "W\<lparr>sl_handlers := snd (map_index (sl_handlers W) fd)\<rparr>"
  note ok0 = server_ok_lookup [OF Cons.prems, of fd]
  have first: "no_uaf (dispatch_event (server_invoke os env) fd ev W) \<and>
      (\<forall>W'. dispatch_event (server_invoke os env) fd ev W = Inr W' \<longrightarrow> server_ok W')"
  proof (cases "p \<noteq> NULL \<and> ev \<in> {EVENT_READ, EVENT_WRITE, EVENT_ERROR}")
    case True
    have "sl_handlers ?W0 fd = Some p" by (simp add: p_def map_index_def split: option.splits)
    from server_invoke_ok [OF ok0 env this] True
    have "no_uaf (server_invoke os env p ev ?W0) \<and> (\<forall>W'. server_invoke os env p ev ?W0 = Inr W' \<longrightarrow> server_ok W')" by blast
    moreover have "dispatch_event (server_invoke os env) fd ev W = server_invoke os env p ev ?W0"
      using True unfolding dispatch_event_once p_def Let_def by (rule if_P)
    ultimately show ?thesis by simp
  next
    case False
    then have "dispatch_event (server_invoke os env) fd ev W = Inr ?W0"
      unfolding dispatch_event_once p_def Let_def by (rule if_not_P)
    with ok0 show ?thesis by simp
  qed
  show ?case
  proof (cases "dispatch_event (server_invoke os env) fd ev W")
    case (Inl x)
    with first e show ?thesis by simp
  next
    case (Inr W1)
    with first Cons.IH [of W1] e show ?thesis by simp
  qed
qed simp

lemma server_wait_ok:
  assumes "server_ok W" "sl_dispatcher W = Some d" "handle_events virt d os [] t = Inr (n, ready, d')"
  shows "server_ok (W\<lparr>sl_dispatcher := Some d'\<rparr>)"
proof -
  have "in_sync W" using assms(1) by (simp add: server_ok_def)
  from any.wait_sync [OF this assms(2,3)] assms(1) known_handler_frame [of "W\<lparr>sl_dispatcher := Some d'\<rparr>" _ W]
  show ?thesis by (simp add: server_ok_def fixed_ok_def conns_ok_def)
qed

lemma server_iteration_ok:
  assumes "server_ok W" "accepts_new env"
  shows "no_uaf (loop_iteration virt (server_invoke os env) call ow t W) \<and>
    (\<forall>t' W'. loop_iteration virt (server_invoke os env) call ow t W = Inr (t', W') \<longrightarrow> server_ok W')"
proof -
  from assms(1) obtain d where d: "sl_dispatcher W = Some d" by (auto simp: server_ok_def loop_sync_def)
  show ?thesis
  proof (cases "virt_handle_events d ow [] t")
    case (Inl e)
    with virt_no_uaf(4) [of d ow "[]" t] d show ?thesis by (simp add: loop_iteration_def the_dispatcher_def)
  next
    case (Inr r)
    obtain n ready d' where r: "virt_handle_events d ow [] t = Inr (n, ready, d')" using Inr by (cases r) auto
    from server_wait_ok [OF assms(1) d, of ow t n ready d'] r have ok: "server_ok (W\<lparr>sl_dispatcher := Some d'\<rparr>)" by simp
    show ?thesis
    proof (cases "dispatch_ready (server_invoke os env) ready (W\<lparr>sl_dispatcher := Some d'\<rparr>)")
      case (Inl e)
      with server_dispatch_ok [OF assms(2) ok, of os ready] d r show ?thesis by (simp add: loop_iteration_def the_dispatcher_def)
    next
      case (Inr W2)
      with server_dispatch_ok [OF assms(2) ok, of os ready] have ok2: "server_ok W2" by simp
      then have "drain_functors call W2 = Some (Inr W2)"
        by (intro drain_functors_Nil) (simp add: server_ok_def fixed_ok_def)
      with Inr ok2 d r show ?thesis by (simp add: loop_iteration_def the_dispatcher_def)
    qed
  qed
qed

lemma server_loop_ok:
  assumes "accepts_new env"
  shows "server_ok W \<Longrightarrow> no_uaf (loop_run virt (server_invoke os env) call oss t W) \<and>
    (\<forall>W'. loop_run virt (server_invoke os env) call oss t W = Inr W' \<longrightarrow> server_ok W')"
proof (induction oss arbitrary: t W)
  case (Cons ow oss)
  show ?case
  proof (cases "sl_quit W")
    case True
    with Cons.prems show ?thesis by simp
  next
    case False
    show ?thesis
    proof (cases "loop_iteration virt (server_invoke os env) call ow t W")
      case (Inl e)
      with False server_iteration_ok [OF Cons.prems assms, of os call ow t] show ?thesis by simp
    next
      case (Inr r)
      obtain t1 W1 where "loop_iteration virt (server_invoke os env) call ow t W = Inr (t1, W1)" using Inr by (cases r) auto
      with False server_iteration_ok [OF Cons.prems assms, of os call ow t] Cons.IH [of W1 t1] show ?thesis by simp
    qed
  qed
qed simp

section \<open>The program of \<open>example-1.cc\<close>\<close>

text \<open>
  \<^verbatim>\<open>main\<close>: build the loop, open the acceptor, run. The arguments are the answers of the system:
  \<open>ctl\<close>, \<open>ea\<close>, \<open>ef\<close> for the loop, \<open>net\<close> the descriptors open once the loop exists, and the addresses
  of the objects.
\<close>

definition echo_server :: "(dispatcher, 'f) service_loop \<Rightarrow> net_state \<Rightarrow> ptr \<Rightarrow> ptr \<Rightarrow> ptr \<Rightarrow> 'f server" where
  "echo_server L net loop_ptr acc_ptr heap =
     \<lparr>sl_quit = sl_quit L, sl_dispatcher = sl_dispatcher L, sl_handlers = sl_handlers L, sl_functors = sl_functors L,
      sl_wakeup = sl_wakeup L, sv_net = net, sv_acceptor = acceptor_new acc_ptr loop_ptr, sv_conns = Map.empty,
      sv_next = heap, sv_loop_ptr = loop_ptr, sv_clock = 0\<rparr>"

definition example1_open ::
  "epoll_ctl \<Rightarrow> int \<Rightarrow> int \<Rightarrow> ptr \<Rightarrow> (string \<Rightarrow> 32 word option) \<Rightarrow> bool \<Rightarrow> sock_os \<Rightarrow> string \<Rightarrow> net_state \<Rightarrow>
     ptr \<Rightarrow> ptr \<Rightarrow> ptr \<Rightarrow> (int \<times> 'f server) exec" where
  "example1_open ctl ea ef wk_ptr pton le os seen net loop_ptr acc_ptr heap =
     (let endpoint = socket_address_make pton le ''127.0.0.1'' 6543 in
      bind_exec (service_loop_new 2 ctl ea ef wk_ptr) (\<lambda>L.
        let W = echo_server L net loop_ptr acc_ptr heap in
        bind_exec (acceptor_open virt pton le os seen endpoint (sv_acceptor W) (sv_net W) W)
          (\<lambda>(r, a, endpoint', net', W'). Inr (r, W'\<lparr>sv_acceptor := a, sv_net := net'\<rparr>))))"

definition example1_main ::
  "epoll_ctl \<Rightarrow> int \<Rightarrow> int \<Rightarrow> ptr \<Rightarrow> (string \<Rightarrow> 32 word option) \<Rightarrow> bool \<Rightarrow> sock_os \<Rightarrow> string \<Rightarrow> net_state \<Rightarrow>
     ptr \<Rightarrow> ptr \<Rightarrow> ptr \<Rightarrow> (nat \<Rightarrow> 'f server \<Rightarrow> server_io) \<Rightarrow> ('f \<Rightarrow> 'f server \<Rightarrow> 'f server exec) \<Rightarrow> os_wait list \<Rightarrow>
     (int \<times> 'f server) exec" where
  "example1_main ctl ea ef wk_ptr pton le os seen net loop_ptr acc_ptr heap env call oss =
     bind_exec (example1_open ctl ea ef wk_ptr pton le os seen net loop_ptr acc_ptr heap) (\<lambda>(r, W).
       if 0 = r then bind_exec (run_loop virt (server_invoke os env) call oss W) (\<lambda>W'. Inr (0, W')) else Inr (0, W))"

text \<open>
  The addresses are those of distinct objects, below the heap that \<^verbatim>\<open>new\<close> uses later; the wakeup
  descriptor is open and the socket answered by the system is a new positive one.
\<close>

definition example1_setup :: "int \<Rightarrow> ptr \<Rightarrow> sock_os \<Rightarrow> net_state \<Rightarrow> ptr \<Rightarrow> ptr \<Rightarrow> ptr \<Rightarrow> bool" where
  "example1_setup ef wk_ptr os net loop_ptr acc_ptr heap \<longleftrightarrow>
     wk_ptr < heap \<and> acc_ptr < heap \<and> loop_ptr \<noteq> NULL \<and> ef \<in> ns_open net \<and>
     so_socket os > 0 \<and> so_socket os \<notin> ns_open net"

lemma example1_open_ok:
  assumes "epoll_ctl_documented ctl" "example1_setup ef wk_ptr os net loop_ptr acc_ptr heap"
    and "example1_open ctl ea ef wk_ptr pton le os seen net loop_ptr acc_ptr heap = Inr (0, W)"
  shows "server_ok W"
proof -
  note su = assms(2) [unfolded example1_setup_def]
  from assms(3) obtain L a addr1 net1 W1 where L: "service_loop_new 2 ctl ea ef wk_ptr = Inr L"
    and op: "acceptor_open virt pton le os seen (socket_address_make pton le ''127.0.0.1'' 6543) (acceptor_new acc_ptr loop_ptr) net
        (echo_server L net loop_ptr acc_ptr heap) = Inr (0, a, addr1, net1, W1)"
    and W: "W = W1\<lparr>sv_acceptor := a, sv_net := net1\<rparr>"
    by (auto simp: example1_open_def Let_def bind_exec_eq_Inr echo_server_def)
  let ?E = "echo_server L net loop_ptr acc_ptr heap"
  note f = service_loop_new_facts [OF L assms(1)]
  have E: "in_sync ?E" "sl_handlers ?E = [ef \<mapsto> wk_ptr]" using f(1,2) by (simp_all add: echo_server_def loop_sync_def)
  have "so_socket os \<noteq> ef" using su by auto
  with E(2) have "so_socket os \<notin> live_keys (sl_handlers ?E)" by (simp add: live_keys_def)
  from acceptor_open_opened [OF op E(1) _ _ this] su obtain d where s: "in_sync W1" "ns_open net1 = insert (so_socket os) (ns_open net)"
    and W1: "W1 = ?E\<lparr>sl_dispatcher := d, sl_handlers := [ef \<mapsto> wk_ptr, so_socket os \<mapsto> acc_ptr]\<rparr>" and self: "ac_self a = acc_ptr"
    by (auto simp: E(2) acceptor_new_def)
  show ?thesis
  proof (rule server_okI)
    show "in_sync W" using s(1) by (simp add: W loop_sync_def)
    show "fixed_ok W" using f(4,5) su by (simp add: fixed_ok_def W W1 echo_server_def self)
    show "conns_ok W" by (simp add: conns_ok_def W W1 echo_server_def)
    show "live_keys (sl_handlers W) \<subseteq> ns_open (sv_net W)" using s(2) su by (auto simp: W W1 live_keys_def split: if_splits)
    fix h p
    assume "sl_handlers W h = Some p" "p \<noteq> NULL"
    then have "p = wk_ptr \<or> p = acc_ptr" by (auto simp: W W1 split: if_splits)
    then show "known_handler W h p" using f(5) self by (simp add: known_handler_def W W1 echo_server_def)
  qed
qed

lemma acceptor_open_failed:
  assumes "acceptor_open V pton le os seen addr a st L = Inr (r, a1, addr1, st1, L1)" "r \<noteq> 0"
  shows "L1 = L \<and> ac_self a1 = ac_self a \<and> ac_listen_fd a1 < 0 \<and>
    net_tcp_listen pton le os (Some seen) (get_port le addr) st = (ac_listen_fd a1, st1)"
proof -
  obtain fd st' where l: "net_tcp_listen pton le os (Some seen) (get_port le addr) st = (fd, st')" by fastforce
  from assms l have "fd < 0" by (cases "fd < 0") (auto simp: acceptor_open_def Let_def bind_exec_eq_Inr)
  with assms l show ?thesis by (auto simp: acceptor_open_def)
qed

lemma example1_open_failed_ok:
  assumes "epoll_ctl_documented ctl" "example1_setup ef wk_ptr os net loop_ptr acc_ptr heap" "r \<noteq> 0"
    and "example1_open ctl ea ef wk_ptr pton le os seen net loop_ptr acc_ptr heap = Inr (r, W)"
  shows "server_ok W"
proof -
  note su = assms(2) [unfolded example1_setup_def]
  from assms(3,4) obtain L a addr1 net1 W1 where L: "service_loop_new 2 ctl ea ef wk_ptr = Inr L"
    and op: "acceptor_open virt pton le os seen (socket_address_make pton le ''127.0.0.1'' 6543) (acceptor_new acc_ptr loop_ptr) net
        (echo_server L net loop_ptr acc_ptr heap) = Inr (r, a, addr1, net1, W1)"
    and W: "W = W1\<lparr>sv_acceptor := a, sv_net := net1\<rparr>"
    by (auto simp: example1_open_def Let_def bind_exec_eq_Inr echo_server_def)
  note f = service_loop_new_facts [OF L assms(1)]
  from acceptor_open_failed [OF op assms(3)] have W1: "W1 = echo_server L net loop_ptr acc_ptr heap" "ac_self a = acc_ptr"
    and l: "net_tcp_listen pton le os (Some seen) (get_port le (socket_address_make pton le ''127.0.0.1'' 6543)) net
      = (ac_listen_fd a, net1)" "ac_listen_fd a < 0"
    by (simp_all add: acceptor_new_def)
  have "so_socket os \<ge> -1" "so_socket os \<notin> ns_open net" using su by simp_all
  from net_tcp_listen_no_leak [OF this, of pton le "Some seen" "get_port le (socket_address_make pton le ''127.0.0.1'' 6543)"] l
  have net1: "ns_open net1 = ns_open net" by (auto simp: no_leak_def)
  have E: "in_sync W" "sl_handlers W = [ef \<mapsto> wk_ptr]" using f(1,2) by (simp_all add: W W1 echo_server_def loop_sync_def)
  show ?thesis
  proof (rule server_okI [OF E(1)])
    show "fixed_ok W" using f(4,5) su by (simp add: fixed_ok_def W W1 echo_server_def)
    show "conns_ok W" by (simp add: conns_ok_def W W1 echo_server_def)
    show "live_keys (sl_handlers W) \<subseteq> ns_open (sv_net W)" unfolding E(2) using su net1 by (auto simp: W live_keys_def)
    fix h p
    assume "sl_handlers W h = Some p" "p \<noteq> NULL"
    with E(2) have "p = wk_ptr" by (auto split: if_splits)
    then show "known_handler W h p" using f(5) by (simp add: known_handler_def W W1 echo_server_def)
  qed
qed

lemma example1_open_no_uaf:
  "no_uaf (example1_open ctl ea ef wk_ptr pton le os seen net loop_ptr acc_ptr heap)"
proof -
  have "no_uaf (service_loop_new 2 ctl ea ef wk_ptr)"
    unfolding service_loop_new_def wakeup_new_def create_dispatcher_def epoll_new_def wakeup_open_def
    by (auto intro!: uaf_intros)
  moreover have "no_uaf (acceptor_open virt pton le os seen addr a st W)" for addr a st and W :: "'a server"
    unfolding acceptor_open_def Let_def by (auto intro!: uaf_intros)
  ultimately show ?thesis
    unfolding example1_open_def Let_def by (auto intro!: uaf_intros)
qed

section \<open>Properties\<close>

text \<open>
  Claim C1. The echo server of \<^verbatim>\<open>example-1.cc\<close> never calls a deleted object: whatever the system
  answers (as long as a descriptor from \<^verbatim>\<open>accept\<close> is a new one), in whatever order events, errors and
  closes arrive, its run from \<^verbatim>\<open>main\<close> on does not stop by a use after free; and when \<^verbatim>\<open>run\<close> returns,
  the server's invariant holds.
\<close>

theorem echo_server_never_uses_deleted_object:
  assumes "epoll_ctl_documented ctl" "example1_setup ef wk_ptr os net loop_ptr acc_ptr heap" "accepts_new env"
  shows "example1_main ctl ea ef wk_ptr pton le os seen net loop_ptr acc_ptr heap env call oss \<noteq> Inl Use_After_Free \<and>
    (\<forall>W. example1_main ctl ea ef wk_ptr pton le os seen net loop_ptr acc_ptr heap env call oss = Inr (0, W) \<longrightarrow>
      server_ok W)"
proof (cases "example1_open ctl ea ef wk_ptr pton le os seen net loop_ptr acc_ptr heap :: (int \<times> 'a server) exec")
  case (Inl e)
  have "no_uaf (example1_open ctl ea ef wk_ptr pton le os seen net loop_ptr acc_ptr heap :: (int \<times> 'a server) exec)"
    by (rule example1_open_no_uaf)
  with Inl show ?thesis by (simp add: example1_main_def)
next
  case (Inr r)
  obtain b W where r: "r = (b, W)" by fastforce
  show ?thesis
  proof (cases "b = 0")
    case True
    with Inr r example1_open_ok [OF assms(1,2)] have ok: "server_ok W" by blast
    note l = server_loop_ok [OF assms(3) ok, of os call oss 2, folded run_loop_def]
    show ?thesis
    proof (cases "run_loop virt (server_invoke os env) call oss W")
      case (Inl e)
      with l Inr r True \<open>example1_open _ _ _ _ _ _ _ _ _ _ _ _ = Inr r\<close> show ?thesis by (simp add: example1_main_def)
    next
      case (Inr W')
      with l r True \<open>example1_open _ _ _ _ _ _ _ _ _ _ _ _ = Inr r\<close> show ?thesis by (simp add: example1_main_def)
    qed
  next
    case False
    with Inr r example1_open_failed_ok [OF assms(1,2) False] show ?thesis by (simp add: example1_main_def)
  qed
qed

definition idle_io :: server_io where
  "idle_io = \<lparr>io_accept = Inl EWOULDBLOCK, io_recv = [Recv_Data []], io_send = [Send_Error EWOULDBLOCK],
     io_eventfd = (\<lambda>ws. Inr (sum_list ws))\<rparr>"

definition example1_net :: net_state where
  "example1_net = \<lparr>ns_open = {0, 1, 2, 3, 4}, ns_flags = (\<lambda>fd. 0)\<rparr>"

theorem echo_server_never_uses_deleted_object_witness:
  "example1_main sample_ctl 3 4 100 (\<lambda>s. Some 16777343) True server_os ''127.0.0.1'' example1_net 50 300 1000
     (\<lambda>n W. idle_io) (\<lambda>(f :: nat) W. Inr W) [sample_os, sample_os] \<noteq> Inl Use_After_Free"
proof -
  have "example1_setup 4 100 server_os example1_net 50 300 1000"
    by (simp add: example1_setup_def example1_net_def server_os_def sample_net_os_def)
  moreover have "accepts_new (\<lambda>n (W :: nat server). idle_io)" by (simp add: accepts_new_def idle_io_def)
  ultimately show ?thesis
    using echo_server_never_uses_deleted_object [OF sample_ctl_documented] by blast
qed

text \<open>
  Closing a connection leaks its descriptor: after an error event on a connection of the
  server the object is gone, the handle has no handler and is not watched any more, but the
  descriptor is still open (\<^verbatim>\<open>ConnectionHandler::close\<close> never closes it).
\<close>

theorem closed_connection_leaks_descriptor:
  assumes "server_ok W" "accepts_new env" "sv_conns W p = Some c"
    and "server_invoke os env p EVENT_ERROR W = Inr W'"
  shows "sv_conns W' p = None \<and> sl_handlers W' (conn_handle c) = None \<and>
    (\<forall>d. sl_dispatcher W' = Some d \<longrightarrow> conn_handle c \<notin> disp_watched d) \<and> conn_handle c \<in> ns_open (sv_net W')"
proof -
  let ?W0 = "W\<lparr>sv_clock := sv_clock W + 1\<rparr>"
  from assms(1) obtain wk where wk: "sl_wakeup W = Some wk" by (auto simp: server_ok_def fixed_ok_def)
  from assms(1,3) wk have p: "p \<noteq> wk_self wk" "p \<noteq> ac_self (sv_acceptor W)" by (auto simp: server_ok_def fixed_ok_def)
  from server_conn [OF assms(1,3)] have c: "conn_ready c W" "conn_handle c > 0" by auto
  have sync: "in_sync ?W0" using assms(1) by (simp add: server_ok_def loop_sync_def)
  have ready: "conn_ready c ?W0" using c(1) by (simp add: conn_ready_def)
  from assms(3,4) p wk obtain c' W1 where e: "conn_close virt session_callbacks c ?W0 = Inr (c', W1)"
    "W' = W1\<lparr>sv_conns := (sv_conns W1)(p := (if cn_live c' then Some c' else None))\<rparr>"
    by (auto simp: server_invoke_def Let_def bind_exec_eq_Inr conn_event_def handler_call_def event_defs conn_handle_error_def)
  from conn_close_frame [OF e(1) ready c(2) sync] obtain d where
    W1: "\<not> cn_live c'" "W1 = ?W0\<lparr>sl_dispatcher := d, sl_handlers := (sl_handlers ?W0)(conn_handle c := None)\<rparr>" by blast
  from any.conn_close_sync [of c ?W0 session_callbacks c' W1] e(1) ready sync
  have "in_sync W1" by (auto simp: conn_sync_def)
  then have "conn_handle c \<notin> disp_watched (the (sl_dispatcher W1))" "sl_dispatcher W1 \<noteq> None"
    using W1(2) by (auto simp: loop_sync_def live_keys_def)
  moreover have "conn_handle c \<in> ns_open (sv_net W)"
    using conn_ready_live [OF c(1)] assms(1) by (auto simp: server_ok_def)
  ultimately show ?thesis using e(2) W1 by auto
qed

definition echo_conn :: "unit connection" where
  "echo_conn = \<lparr>cn_self = 200, cn_remote = socket_address_of_fd 4 zero_sockaddr, cn_srv_loop = 50,
     cn_in = sb_new, cn_out = sb_new, cn_user = (), cn_live = True, cn_sent = []\<rparr>"

lemma echo_conn_simps [simp]:
  "cn_self echo_conn = 200" "cn_srv_loop echo_conn = 50" "cn_in echo_conn = sb_new" "cn_out echo_conn = sb_new"
  "cn_live echo_conn" "cn_sent echo_conn = []" "conn_handle echo_conn = 4" "conn_wired echo_conn" "cn_user echo_conn = ()"
  by (simp_all add: echo_conn_def conn_wired_def conn_handle_def get_fd_def socket_address_of_fd_def)

definition sample_server :: "nat server" where
  "sample_server = \<lparr>sl_quit = False, sl_dispatcher = Some (D_Epoll sample_epoll), sl_handlers = [4 \<mapsto> 200], sl_functors = [],
     sl_wakeup = Some \<lparr>wk_self = 100, wk_fd = 7, wk_unread = []\<rparr>, sv_net = \<lparr>ns_open = {0, 1, 2, 3, 4, 7}, ns_flags = (\<lambda>fd. 0)\<rparr>,
     sv_acceptor = acceptor_new 300 50, sv_conns = [200 \<mapsto> echo_conn], sv_next = 1000, sv_loop_ptr = 50, sv_clock = 0\<rparr>"

lemma sample_server_ok: "server_ok sample_server"
proof (rule server_okI)
  show "in_sync sample_server" by (simp add: sample_server_def loop_sync_def epoll_watched_def live_keys_def)
  show "fixed_ok sample_server" by (simp add: fixed_ok_def sample_server_def acceptor_new_def)
  show "conns_ok sample_server" by (simp add: conns_ok_def sample_server_def conn_ready_def)
  show "live_keys (sl_handlers sample_server) \<subseteq> ns_open (sv_net sample_server)"
    by (auto simp: sample_server_def live_keys_def)
qed (auto simp: known_handler_def sample_server_def split: if_splits)

theorem closed_connection_leaks_descriptor_witness:
  "\<exists>W'. server_invoke server_os (\<lambda>n W. idle_io) 200 EVENT_ERROR sample_server = Inr W' \<and>
     sv_conns W' 200 = None \<and> 4 \<in> ns_open (sv_net W')"
proof -
  have conn: "sv_conns sample_server 200 = Some echo_conn" by (simp add: sample_server_def)
  have env: "accepts_new (\<lambda>n (W :: nat server). idle_io)" by (simp add: accepts_new_def idle_io_def)
  obtain W' where W': "server_invoke server_os (\<lambda>n W. idle_io) 200 EVENT_ERROR sample_server = Inr W'"
    by (simp add: server_invoke_def sample_server_def acceptor_new_def conn_event_def handler_call_def event_defs
        conn_handle_error_def conn_close_def delete_event_def the_dispatcher_def epoll_del_event_def
        epoll_count_inc_def sample_ctl_def INT_MAX_def wrap_result_def)
  from closed_connection_leaks_descriptor [OF sample_server_ok env conn W'] W' show ?thesis by auto
qed

text \<open>
  The echo server echoes: on an idle connection a message that arrives in one piece and that
  the kernel takes in one piece is sent back exactly, byte for byte, and leaves both buffers empty and
  appending, and the connection idle again.
\<close>

theorem echo_roundtrip:
  assumes "conn_wired c" "sb_to_string (cn_in c) = []" "at_end (cn_in c)" "sb_to_string (cn_out c) = []" "at_end (cn_out c)"
    and "msg \<noteq> []" "length msg < RECV_LEN" "sl_dispatcher L = Some d"
    and "mod_event V d (conn_handle c) True True = Inr (True, d1)"
    and "mod_event V d1 (conn_handle c) True False = Inr (True, d2)"
  shows "\<exists>c1 L1 c2 L2. conn_handle_read V session_callbacks [Recv_Data msg] c L = Inr (c1, L1) \<and>
    conn_handle_write V [Send_Count (length msg)] c1 L1 = Inr (c2, L2) \<and>
    cn_sent c2 = cn_sent c @ msg \<and> sl_dispatcher L2 = Some d2 \<and>
    sb_to_string (cn_in c2) = [] \<and> at_end (cn_in c2) \<and> sb_to_string (cn_out c2) = [] \<and> at_end (cn_out c2)"
proof -
  have n: "int (length msg) \<le> INT_MAX" using assms(7) by (simp add: RECV_LEN_def INT_MAX_def)
  let ?s = "ss_write (cn_in c) msg" and ?o = "osb_put (cn_out c) msg"
  have s: "ss_str ?s = msg" "ss_str ?o = msg" "at_end ?s" "at_end ?o"
    using ss_write_append [OF assms(3), of msg] osb.view_put [OF assms(5), of msg] assms(2,4)
      ss_write_at_end [OF assms(3)] osb.appends_put [OF assms(5)] by (simp_all add: sb_to_string_def)
  have drop_all: "ss_str (sb_ignore b (int (length msg))) = [] \<and> at_end (sb_ignore b (int (length msg)))"
    if "ss_str b = msg" for b
    using that n by (simp add: sb_ignore_def ss_set_str_def ss_str_def at_end_def)
  let ?L1 = "L\<lparr>sl_dispatcher := Some d1, sl_handlers := (sl_handlers L)(conn_handle c \<mapsto> cn_self c)\<rparr>"
  let ?L2 = "?L1\<lparr>sl_dispatcher := Some d2, sl_handlers := (sl_handlers ?L1)(conn_handle c \<mapsto> cn_self c)\<rparr>"
  let ?c0 = "c\<lparr>cn_in := ?s, cn_user := (), cn_out := ?o\<rparr>"
  let ?c1 = "?c0\<lparr>cn_in := sb_ignore ?s (int (length msg))\<rparr>"
  let ?c2 = "?c1\<lparr>cn_out := sb_ignore ?o (int (length msg)), cn_sent := cn_sent c @ msg\<rparr>"
  have wired: "conn_wired ?c0" "conn_wired ?c2" "conn_handle ?c0 = conn_handle c" "conn_handle ?c2 = conn_handle c"
    using assms(1) by (simp_all add: conn_wired_def)
  have "conn_modify V True True ?c0 L = Inr ?L1"
    using conn_modify_ok [OF assms(8) wired(1), of V True True d1] assms(9) wired(3) by simp
  then have "conn_handle_read V session_callbacks [Recv_Data msg] c L = Inr (?c1, ?L1)"
    using assms(1,4,6,7) n s(1)
    by (simp add: conn_handle_read_def isb_read_def session_callbacks_def conn_send_def osb_empty_def sb_to_string_def
        conn_wired_def)
  moreover have "conn_modify V True False ?c2 ?L1 = Inr ?L2"
    using conn_modify_ok [OF _ wired(2), of ?L1 d1 V True False d2] assms(10) wired(4) by simp
  then have "conn_handle_write V [Send_Count (length msg)] ?c1 ?L1 = Inr (?c2, ?L2)"
    using assms(6) n s(2) drop_all [OF s(2)]
    by (simp add: conn_handle_write_def sb_to_string_def osb_empty_def)
  ultimately show ?thesis
    using drop_all [OF s(1)] drop_all [OF s(2)]
    by (intro exI [of _ ?c1] exI [of _ ?L1] exI [of _ ?c2] exI [of _ ?L2]) (simp add: sb_to_string_def)
qed

theorem echo_roundtrip_witness:
  "\<exists>c1 L1 c2 L2. conn_handle_read virt session_callbacks [Recv_Data [104, 105]] echo_conn sample_server = Inr (c1, L1) \<and>
     conn_handle_write virt [Send_Count 2] c1 L1 = Inr (c2, L2) \<and> cn_sent c2 = [104, 105]"
proof -
  let ?d = "D_Epoll sample_epoll"
  let ?d1 = "D_Epoll (sample_epoll\<lparr>ep_interest := [4 \<mapsto> EPOLLOUT]\<rparr>)"
  have 1: "sl_dispatcher sample_server = Some ?d" by (simp add: sample_server_def)
  have 2: "mod_event virt ?d (conn_handle echo_conn) True True = Inr (True, ?d1)"
    by (simp add: epoll_mod_event_def epoll_events_cases sample_ctl_def)
  have 3: "mod_event virt ?d1 (conn_handle echo_conn) True False = Inr (True, D_Epoll sample_epoll)"
    using conn_loop_mod by simp
  have "length [104, 105 :: byte] < RECV_LEN" by (simp add: RECV_LEN_def)
  note len = this
  have e: "sb_to_string (cn_in echo_conn) = []" "at_end (cn_in echo_conn)" "sb_to_string (cn_out echo_conn) = []"
    "at_end (cn_out echo_conn)" by (simp_all add: sb_to_string_def sb_new_def ss_defs at_end_def)
  have "[104, 105 :: byte] \<noteq> []" by simp
  from echo_roundtrip [OF echo_conn_simps(8) e this len 1 2 3] obtain c1 L1 c2 L2 where
    "conn_handle_read virt session_callbacks [Recv_Data [104, 105]] echo_conn sample_server = Inr (c1, L1)"
    "conn_handle_write virt [Send_Count (length [104, 105 :: byte])] c1 L1 = Inr (c2, L2)"
    "cn_sent c2 = cn_sent echo_conn @ [104, 105]" by blast
  then show ?thesis by (intro exI [of _ c1] exI [of _ L1] exI [of _ c2] exI [of _ L2]) (simp add: numeral_2_eq_2)
qed

end
