(* ===== verification/Echo_Stream.thy ===== *)
theory Echo_Stream
  imports Connection_Stream Echo_Server
begin

text \<open>
  A connection of the echo server of \<^verbatim>\<open>src/example/example-1.cc\<close> over its whole life: what the peer gets
  back against what the server received, on epoll and on the other dispatchers.
\<close>

section \<open>The echo server's handler\<close>

lemma session_replies: "replies session_callbacks id"
  by (simp add: replies_def session_callbacks_def)

lemma session_sends: "sends_only session_callbacks"
  by (rule replies_sends [OF session_replies])

lemma session_quiet: "quiet_connect session_callbacks"
  by (simp add: quiet_connect_def session_callbacks_def)

text \<open>Everything heard is passed to \<^verbatim>\<open>send\<close> once.\<close>

definition echo_ok :: "(unit, 'f, 'z) stream_state \<Rightarrow> bool" where
  "echo_ok x = (case x of (c, L, heard, given) \<Rightarrow> given = heard \<and> (cn_live c \<longrightarrow> input_used c))"

lemma echo_step_ok:
  assumes "stream_step session_callbacks x y" "echo_ok x"
  shows "echo_ok y"
  using assms(1)
proof (cases rule: stream_step.cases)
  case (stream_read c L d rcv c' L' heard given)
  with assms(2) have "input_used c" "given = heard" by (auto simp: echo_ok_def conn_ready_def)
  with reply_given [OF session_replies, of c rcv] reply_uses_input [OF session_replies, of c rcv L c' L'] stream_read
  show ?thesis by (simp add: echo_ok_def)
next
  case (stream_write c L d sent c' L' heard given)
  with conn_write_loop_in [of virt "sb_to_string (cn_out c)" sent c L c' L'] assms(2)
  show ?thesis by (simp add: echo_ok_def conn_handle_write_def conn_ready_def input_used_def)
next
  case (stream_error c L c' L' heard given)
  with conn_close_stream [of session_callbacks c L c' L'] assms(2) show ?thesis by (simp add: echo_ok_def conn_handle_error_def)
next
  case (stream_other L' c L heard given)
  with assms(2) show ?thesis by (simp add: echo_ok_def)
qed

lemma echo_reachable_ok: "stream_reachable session_callbacks x y \<Longrightarrow> echo_ok x \<Longrightarrow> echo_ok y"
  by (induction rule: stream_reachable.induct) (auto intro: echo_step_ok)

lemma echo_stream:
  assumes "in_sync L" "on_epoll L" "get_fd remote \<notin> live_keys (sl_handlers L)"
    and "conn_open virt session_callbacks remote (conn_set_service_loop (connection_new p ()) l) L = Inr (c0, L0)"
    and "stream_reachable session_callbacks (c0, L0, [], []) (c, L', heard, given)" "int (length heard) \<le> INT_MAX"
  shows "cn_sent c @ ss_str (cn_out c) = heard" "given = heard"
proof -
  have "cn_sent (conn_set_service_loop (connection_new p ()) l) = []" by (simp add: conn_set_service_loop_def connection_new_def)
  note o = opened_stream_ok [OF session_quiet assms(1-3) this assms(4)]
  have "echo_ok (c0, L0, [], [])" using o(2) by (simp add: echo_ok_def)
  from echo_reachable_ok [OF assms(5) this] show g: "given = heard" by (simp add: echo_ok_def)
  with stream_reachable_ok [OF assms(5) o(1) session_sends] assms(6)
  show "cn_sent c @ ss_str (cn_out c) = heard" by (simp add: stream_ok_def)
qed

section \<open>The same on select\<close>

text \<open>A loop with the dispatcher \<open>d\<close>, and a connection of the server to be opened on descriptor 4.\<close>

definition empty_loop :: "dispatcher \<Rightarrow> (dispatcher, nat) service_loop" where
  "empty_loop d = \<lparr>sl_quit = False, sl_dispatcher = Some d, sl_handlers = Map.empty, sl_functors = [], sl_wakeup = None\<rparr>"

definition peer_address :: socket_address where
  "peer_address = socket_address_of_fd 4 zero_sockaddr"

definition new_session :: "unit connection" where
  "new_session = conn_set_service_loop (connection_new 200 ()) 50"

definition opened_session :: "dispatcher \<Rightarrow> (unit, nat, unit) stream_state exec" where
  "opened_session d = bind_exec (conn_open virt session_callbacks peer_address new_session (empty_loop d)) (\<lambda>(c, L). Inr (c, L, [], []))"

text \<open>Three bytes arrive; one goes out and the kernel is full; a fourth arrives; the rest goes out.\<close>

definition split_run :: "stream_event list" where
  "split_run = [Ev_Recv [Recv_Data [1, 2, 3]], Ev_Send [Send_Count 1, Send_Error EWOULDBLOCK], Ev_Recv [Recv_Data [4]],
     Ev_Send [Send_Count 2]]"

lemma split_run_result:
  assumes "d = D_Select select_new \<or> d = D_Poll poll_new"
  shows "case bind_exec (opened_session d) (run_stream session_callbacks split_run) of
    Inl e \<Rightarrow> False | Inr (c, L, heard, given) \<Rightarrow> heard = [1, 2, 3, 4] \<and> cn_sent c = [1, 4, 3] \<and> sb_to_string (cn_out c) = []"
proof -
  have "case bind_exec (opened_session (D_Select select_new)) (run_stream session_callbacks split_run) of
    Inl e \<Rightarrow> False | Inr (c, L, heard, given) \<Rightarrow> heard = [1, 2, 3, 4] \<and> cn_sent c = [1, 4, 3] \<and> sb_to_string (cn_out c) = []"
    by code_simp
  moreover have "case bind_exec (opened_session (D_Poll poll_new)) (run_stream session_callbacks split_run) of
    Inl e \<Rightarrow> False | Inr (c, L, heard, given) \<Rightarrow> heard = [1, 2, 3, 4] \<and> cn_sent c = [1, 4, 3] \<and> sb_to_string (cn_out c) = []"
    by code_simp
  ultimately show ?thesis using assms by blast
qed




text \<open>On epoll the same four bytes arrive in order, the fourth only after the first three are out.\<close>

definition epoll_empty :: dispatcher where
  "epoll_empty = D_Epoll \<lparr>ep_fd = 3, ep_last_errno = 0, ep_fd_count = 1, ep_ctl = sample_ctl, ep_interest = Map.empty\<rparr>"

lemma epoll_empty_loop: "in_sync (empty_loop epoll_empty)" "on_epoll (empty_loop epoll_empty)"
  "get_fd peer_address \<notin> live_keys (sl_handlers (empty_loop epoll_empty))"
  by (simp_all add: empty_loop_def epoll_empty_def loop_sync_def epoll_invar_def epoll_watched_def on_epoll_def)

definition epoll_run :: "stream_event list" where
  "epoll_run = [Ev_Recv [Recv_Data [1, 2, 3]], Ev_Send [Send_Count 1, Send_Error EWOULDBLOCK], Ev_Send [Send_Count 2],
     Ev_Recv [Recv_Data [4]]]"

lemma epoll_run_obtain:
  obtains c0 L0 c L heard where "conn_open virt session_callbacks peer_address new_session (empty_loop epoll_empty) = Inr (c0, L0)"
    "stream_reachable session_callbacks (c0, L0, [], []) (c, L, heard, [1, 2, 3, 4])" "cn_live c" "sb_to_string (cn_out c) = [4]"
    "run_stream session_callbacks split_run (c0, L0, [], []) = Inl Pending"
proof -
  have "case bind_exec (opened_session epoll_empty) (run_stream session_callbacks epoll_run) of
      Inl e \<Rightarrow> False | Inr (c, L, heard, given) \<Rightarrow> given = [1, 2, 3, 4] \<and> cn_live c \<and> sb_to_string (cn_out c) = [4]"
    by code_simp
  moreover have "case bind_exec (opened_session epoll_empty) (run_stream session_callbacks split_run) of
      Inl e \<Rightarrow> e = Pending | Inr x \<Rightarrow> False"
    by code_simp
  ultimately obtain c0 L0 c L heard where
    "conn_open virt session_callbacks peer_address new_session (empty_loop epoll_empty) = Inr (c0, L0)"
    "run_stream session_callbacks epoll_run (c0, L0, [], []) = Inr (c, L, heard, [1, 2, 3, 4])" "cn_live c" "sb_to_string (cn_out c) = [4]"
    "run_stream session_callbacks split_run (c0, L0, [], []) = Inl Pending"
    by (auto simp: opened_session_def bind_exec_def split: sum.splits prod.splits)
  from this(1) run_stream_reachable [OF this(2)] this(3-5) show ?thesis by (rule that)
qed


end
