(* ===== verification/Test_Client.thy ===== *)
theory Test_Client
  imports Echo_Stream Net_Base
begin

text \<open>
  The test client of \<^verbatim>\<open>src/client/main.cc\<close>, and the client together with a connection of the echo server
  of \<^verbatim>\<open>src/example/example-1.cc\<close> on epoll: two byte streams, one in each direction, that the network
  delivers in order and in pieces of any size.
\<close>

section \<open>tcp_connector\<close>

record tcp_connector =
  tc_sock_fd :: int

definition connector_new :: tcp_connector where
  "connector_new = \<lparr>tc_sock_fd = -1\<rparr>"

definition connector_connect ::
  "(string \<Rightarrow> 32 word option) \<Rightarrow> (string \<Rightarrow> int + addrinfo) \<Rightarrow> bool \<Rightarrow> sock_os \<Rightarrow> sockaddr_in \<Rightarrow> string \<Rightarrow> 16 word \<Rightarrow>
     tcp_connector \<Rightarrow> net_state \<Rightarrow> (bool \<times> tcp_connector \<times> net_state) exec" where
  "connector_connect aton resolve le os junk ipaddr port t st =
     bind_exec (net_tcp_connect aton resolve le os junk (Some ipaddr) port st) (\<lambda>(fd, st').
       let t' = t\<lparr>tc_sock_fd := fd\<rparr> in Inr (tc_sock_fd t' > 0, t', st'))"

text \<open>The result of \<^verbatim>\<open>send\<close>, and the bytes the kernel took of the buffer.\<close>

fun connector_send :: "send_answer \<Rightarrow> bytes \<Rightarrow> int \<times> bytes" where
  "connector_send (Send_Error e) buf = (-1, [])"
| "connector_send (Send_Count n) buf = (int n, take n buf)"

text \<open>The result of \<^verbatim>\<open>recv\<close>, and the buffer after it.\<close>

fun connector_recv :: "recv_answer \<Rightarrow> bytes \<Rightarrow> int \<times> bytes" where
  "connector_recv (Recv_Error e) buf = (-1, buf)"
| "connector_recv (Recv_Data d) buf = (int (length d), d @ drop (length d) buf)"

definition connector_close :: "tcp_connector \<Rightarrow> net_state \<Rightarrow> net_state" where
  "connector_close t st = net_close (tc_sock_fd t) st"

section \<open>main\<close>

text \<open>\<^verbatim>\<open>char\<close> arrays hold bytes; a C string ends before the first zero, which must be there.\<close>

definition text_bytes :: "string \<Rightarrow> bytes" where
  "text_bytes s = map of_char s"

definition c_string :: "bytes \<Rightarrow> bytes exec" where
  "c_string buf = (if 0 \<in> set buf then Inr (takeWhile (\<lambda>b. b \<noteq> 0) buf) else Inl Out_Of_Range)"

definition hello :: bytes where
  "hello = text_bytes ''hello server''"

definition CLIENT_BUF :: nat where
  "CLIENT_BUF = 1024"

definition client_buf :: bytes where
  "client_buf = hello @ replicate (CLIENT_BUF - length hello) 0"

text \<open>
  Where \<^verbatim>\<open>main\<close> is: before \<^verbatim>\<open>send\<close>, before \<^verbatim>\<open>recv\<close>, in \<^verbatim>\<open>sleep(2)\<close>, or returned (only when the connection
  failed). Ghosts: the lines printed, the bytes the kernel took from and gave to the client.
\<close>

datatype client_pc = Cl_Send | Cl_Recv | Cl_Sleep | Cl_Returned

record client =
  cl_connector :: tcp_connector
  cl_pc :: client_pc
  cl_buf :: bytes
  cl_console :: "bytes list"
  cl_sent :: bytes
  cl_received :: bytes

definition client_start ::
  "(string \<Rightarrow> 32 word option) \<Rightarrow> (string \<Rightarrow> int + addrinfo) \<Rightarrow> bool \<Rightarrow> sock_os \<Rightarrow> sockaddr_in \<Rightarrow> net_state \<Rightarrow>
     (client \<times> net_state) exec" where
  "client_start aton resolve le os junk st =
     bind_exec (connector_connect aton resolve le os junk ''127.0.0.1'' 6543 connector_new st) (\<lambda>(ok, t, st').
       Inr (\<lparr>cl_connector = t, cl_pc = (if ok then Cl_Send else Cl_Returned), cl_buf = client_buf, cl_console = [],
              cl_sent = [], cl_received = []\<rparr>, st'))"

text \<open>The buffer is local to the loop body: it is initialised again in every round.\<close>

definition client_send :: "send_answer \<Rightarrow> client \<Rightarrow> client exec" where
  "client_send a cl =
     (let cl1 = cl\<lparr>cl_buf := client_buf\<rparr> in
      bind_exec (c_string (cl_buf cl1)) (\<lambda>text.
        let (_, took) = connector_send a (take (length text + 1) (cl_buf cl1)) in
        Inr (cl1\<lparr>cl_pc := Cl_Recv, cl_sent := cl_sent cl1 @ took, cl_console := cl_console cl1 @ [text_bytes ''send data...'']\<rparr>)))"

definition client_recv :: "recv_answer \<Rightarrow> client \<Rightarrow> client exec" where
  "client_recv a cl =
     (let (ret, buf) = connector_recv a (cl_buf cl) in
      bind_exec (c_string buf) (\<lambda>text.
        Inr (cl\<lparr>cl_pc := Cl_Sleep, cl_buf := buf, cl_received := cl_received cl @ take (nat ret) buf,
                cl_console := cl_console cl @ [text_bytes ''recv data :'' @ text]\<rparr>)))"

definition client_wake :: "client \<Rightarrow> client" where
  "client_wake cl = cl\<lparr>cl_pc := Cl_Send\<rparr>"

text \<open>One round of \<^verbatim>\<open>do { ... } while (1)\<close>.\<close>

definition client_round :: "send_answer \<Rightarrow> recv_answer \<Rightarrow> client \<Rightarrow> client exec" where
  "client_round sa ra cl = bind_exec (client_send sa cl) (\<lambda>cl1. bind_exec (client_recv ra cl1) (\<lambda>cl2. Inr (client_wake cl2)))"

section \<open>The buffer\<close>

lemma hello_facts: "length hello = 12" "0 \<notin> set hello"
  by (simp_all add: hello_def text_bytes_def)

lemma takeWhile_nonzero: "0 \<notin> set a \<Longrightarrow> takeWhile (\<lambda>b. b \<noteq> 0) (a @ (0 :: byte) # r) = a"
  by (induction a) auto

lemma client_buf_split: "client_buf = hello @ 0 # replicate 1011 0"
  by (simp add: client_buf_def hello_facts CLIENT_BUF_def flip: replicate_Suc)

lemma client_text: "c_string client_buf = Inr hello"
  using takeWhile_nonzero [OF hello_facts(2)] by (simp add: c_string_def client_buf_split)

section \<open>What a round prints\<close>

text \<open>What the buffer shows after the answer of \<^verbatim>\<open>recv\<close>.\<close>

fun shown :: "recv_answer \<Rightarrow> bytes" where
  "shown (Recv_Error e) = hello"
| "shown (Recv_Data d) = takeWhile (\<lambda>b. b \<noteq> 0) (d @ drop (length d) hello)"

text \<open>The answers that leave no zero in the buffer.\<close>

fun fills :: "recv_answer \<Rightarrow> bool" where
  "fills (Recv_Error e) = False"
| "fills (Recv_Data d) = (length d = CLIENT_BUF \<and> 0 \<notin> set d)"

fun recv_within :: "nat \<Rightarrow> recv_answer \<Rightarrow> bool" where
  "recv_within n (Recv_Error e) = True"
| "recv_within n (Recv_Data d) = (length d \<le> n)"

lemma takeWhile_app: "0 \<notin> set a \<Longrightarrow> takeWhile (\<lambda>b. b \<noteq> 0) (a @ b) = a @ takeWhile (\<lambda>b. b \<noteq> (0 :: byte)) b"
  by (induction a) auto

lemma recv_shows:
  assumes "length d \<le> CLIENT_BUF"
  shows "c_string (d @ drop (length d) client_buf) = (if fills (Recv_Data d) then Inl Out_Of_Range else Inr (shown (Recv_Data d)))"
proof (cases "0 \<in> set d")
  case True
  then obtain a b where "d = a @ 0 # b" "0 \<notin> set a" by (meson split_list_first)
  then show ?thesis by (simp add: c_string_def takeWhile_nonzero)
next
  case False
  have none: "drop (length d) hello = [] \<or> 0 \<notin> set (drop (length d) hello)"
    using hello_facts(2) in_set_dropD by fastforce
  then have shown: "shown (Recv_Data d) = d @ drop (length d) hello"
    using takeWhile_app [OF False, of "drop (length d) hello"] takeWhile_app [of "drop (length d) hello" "[]"] by auto
  have full: "length d = CLIENT_BUF \<longleftrightarrow> 0 \<notin> set (drop (length d) client_buf)"
  proof
    assume "length d = CLIENT_BUF"
    then show "0 \<notin> set (drop (length d) client_buf)" by (simp add: client_buf_def hello_facts CLIENT_BUF_def)
  next
    assume zero: "0 \<notin> set (drop (length d) client_buf)"
    show "length d = CLIENT_BUF"
    proof (rule ccontr)
      assume "length d \<noteq> CLIENT_BUF"
      with assms have "length d < CLIENT_BUF" by simp
      then have "last client_buf \<in> set (drop (length d) client_buf)"
        by (subst last_drop [symmetric, of "length d"]) (auto simp: client_buf_def hello_facts CLIENT_BUF_def intro!: last_in_set)
      moreover have "last client_buf = 0" by (simp add: client_buf_split)
      ultimately show False using zero by simp
    qed
  qed
  show ?thesis
  proof (cases "length d = CLIENT_BUF")
    case True
    with full False show ?thesis by (simp add: c_string_def)
  next
    case lt: False
    have "takeWhile (\<lambda>b. b \<noteq> 0) (drop (length d) client_buf) = drop (length d) hello"
    proof (cases "length d \<le> length hello")
      case True
      then have "drop (length d) client_buf = drop (length d) hello @ 0 # replicate 1011 0" by (simp add: client_buf_split)
      with none show ?thesis by (metis hello_facts(2) in_set_dropD takeWhile_nonzero)
    next
      case long: False
      then obtain k where "drop (length d) client_buf = replicate k 0"
        by (metis client_buf_def drop_all drop_append drop_replicate linorder_le_cases append_Nil)
      with long show ?thesis by (cases k) (simp_all add: client_buf_def)
    qed
    with lt full False show ?thesis by (simp add: c_string_def takeWhile_app shown del: shown.simps)
  qed
qed

text \<open>
  Claim C39. A round of the client prints its two lines and starts over: the second line shows the reply up to its
  first zero, completed from the client's own text where the reply was shorter, so when \<^verbatim>\<open>recv\<close> fails or the
  server has closed the connection the client prints its own message as if it had been received; only a
  full buffer without a zero leaves the array.
\<close>

theorem client_round_prints:
  assumes "recv_within CLIENT_BUF ra"
  shows "case client_round sa ra cl of
      Inl e \<Rightarrow> e = Out_Of_Range \<and> fills ra
    | Inr cl' \<Rightarrow> \<not> fills ra \<and> cl_pc cl' = Cl_Send \<and>
        cl_console cl' = cl_console cl @ [text_bytes ''send data...'', text_bytes ''recv data :'' @ shown ra]"
proof (cases ra)
  case (Recv_Error e)
  then show ?thesis
    by (simp add: client_round_def client_send_def client_text client_recv_def client_wake_def case_prod_beta)
next
  case (Recv_Data d)
  with recv_shows [of d] assms show ?thesis
    by (simp add: client_round_def client_send_def client_text client_recv_def client_wake_def case_prod_beta del: shown.simps)
qed

text \<open>A shorter reply than the request: the rest is the client's own text.\<close>

theorem client_round_prints_witness:
  "\<exists>cl cl'. client_round (Send_Count 13) (Recv_Data (text_bytes ''HELLO'')) cl = Inr cl' \<and>
     cl_console cl' = cl_console cl @ [text_bytes ''send data...'', text_bytes ''recv data :HELLO server'']"
proof -
  let ?cl = "\<lparr>cl_connector = \<lparr>tc_sock_fd = 5\<rparr>, cl_pc = Cl_Send, cl_buf = client_buf, cl_console = [], cl_sent = [], cl_received = []\<rparr>"
  have w: "recv_within CLIENT_BUF (Recv_Data (text_bytes ''HELLO''))" by (simp add: text_bytes_def CLIENT_BUF_def)
  have f: "\<not> fills (Recv_Data (text_bytes ''HELLO''))" by (simp add: text_bytes_def CLIENT_BUF_def)
  have s: "text_bytes ''recv data :'' @ shown (Recv_Data (text_bytes ''HELLO'')) = text_bytes ''recv data :HELLO server''"
    by code_simp
  from client_round_prints [OF w, of ?cl "Send_Count 13"] f s obtain cl' where
    "client_round (Send_Count 13) (Recv_Data (text_bytes ''HELLO'')) ?cl = Inr cl'"
    "cl_console cl' = cl_console ?cl @ [text_bytes ''send data...'', text_bytes ''recv data :HELLO server'']"
    by (cases "client_round (Send_Count 13) (Recv_Data (text_bytes ''HELLO'')) ?cl") (auto simp del: shown.simps)
  then show ?thesis by blast
qed

section \<open>The client and the server\<close>

text \<open>
  \<open>lk_up\<close> are the bytes not yet handed to the server's handler, \<open>lk_down\<close> those on their way to the
  client; the server is its connection with the two histories. An end of stream or an error can reach the
  client at any time.
\<close>

record link =
  lk_client :: client
  lk_up :: bytes
  lk_down :: bytes
  lk_server :: "(unit, nat, unit) stream_state"

fun send_within :: "nat \<Rightarrow> send_answer \<Rightarrow> bool" where
  "send_within n (Send_Error e) = True"
| "send_within n (Send_Count k) = (k \<le> n)"

inductive link_step :: "link \<Rightarrow> link \<Rightarrow> bool" where
  link_send: "cl_pc (lk_client k) = Cl_Send \<Longrightarrow> send_within (length hello + 1) a \<Longrightarrow> client_send a (lk_client k) = Inr cl' \<Longrightarrow>
    link_step k (k\<lparr>lk_client := cl', lk_up := lk_up k @ drop (length (cl_sent (lk_client k))) (cl_sent cl')\<rparr>)"
| link_recv: "cl_pc (lk_client k) = Cl_Recv \<Longrightarrow> lk_down k = d @ rest \<Longrightarrow> length d \<le> CLIENT_BUF \<Longrightarrow>
    client_recv (Recv_Data d) (lk_client k) = Inr cl' \<Longrightarrow>
    link_step k (k\<lparr>lk_client := cl', lk_down := rest\<rparr>)"
| link_recv_fails: "cl_pc (lk_client k) = Cl_Recv \<Longrightarrow> client_recv (Recv_Error e) (lk_client k) = Inr cl' \<Longrightarrow>
    link_step k (k\<lparr>lk_client := cl'\<rparr>)"
| link_wake: "cl_pc (lk_client k) = Cl_Sleep \<Longrightarrow> link_step k (k\<lparr>lk_client := client_wake (lk_client k)\<rparr>)"
| link_server: "lk_server k = (c, L, heard, given) \<Longrightarrow> stream_step session_callbacks (c, L, heard, given) (c', L', heard', given') \<Longrightarrow>
    lk_up k = drop (length heard) heard' @ up \<Longrightarrow>
    link_step k (k\<lparr>lk_server := (c', L', heard', given'), lk_up := up,
      lk_down := lk_down k @ drop (length (cn_sent c)) (cn_sent c')\<rparr>)"

inductive link_reachable :: "link \<Rightarrow> link \<Rightarrow> bool" for k0 where
  link_begin: "link_reachable k0 k0"
| link_next: "link_reachable k0 k \<Longrightarrow> link_step k k' \<Longrightarrow> link_reachable k0 k'"

definition link_start :: "client \<Rightarrow> unit connection \<Rightarrow> (dispatcher, nat) service_loop \<Rightarrow> link" where
  "link_start cl c L = \<lparr>lk_client = cl, lk_up = [], lk_down = [], lk_server = (c, L, [], [])\<rparr>"

text \<open>What the network holds, between the ends' own accounts.\<close>

definition link_ok :: "link \<Rightarrow> bool" where
  "link_ok k \<longleftrightarrow> (case lk_server k of (c, L, heard, given) \<Rightarrow>
     cl_sent (lk_client k) = heard @ lk_up k \<and> cn_sent c = cl_received (lk_client k) @ lk_down k)"

lemma client_send_effect:
  assumes "client_send a cl = Inr cl'"
  shows "\<exists>took. cl_sent cl' = cl_sent cl @ took \<and> cl_received cl' = cl_received cl"
  using assms by (cases a) (auto simp: client_send_def client_text)

lemma client_recv_effect:
  assumes "client_recv a cl = Inr cl'"
  shows "cl_sent cl' = cl_sent cl \<and>
    cl_received cl' = cl_received cl @ (case a of Recv_Error e \<Rightarrow> [] | Recv_Data d \<Rightarrow> d)"
  using assms by (cases a) (auto simp: client_recv_def bind_exec_eq_Inr)

text \<open>Each step of the server only adds to its histories.\<close>

lemma echo_read_sent:
  "conn_handle_read virt session_callbacks rcv c L = Inr (c', L') \<Longrightarrow> cn_sent c' = cn_sent c"
  by (auto simp: conn_handle_read_def session_callbacks_def conn_send_def Let_def bind_exec_eq_Inr
      split: if_splits dest: conn_close_stream)

lemma stream_step_adds:
  assumes "stream_step session_callbacks (c, L, heard, given) (c', L', heard', given')"
  shows "(\<exists>x. heard' = heard @ x) \<and> (\<exists>y. cn_sent c' = cn_sent c @ y)"
  using assms
  by cases (auto simp: conn_handle_write_def conn_handle_error_def dest: echo_read_sent conn_write_loop_adds conn_close_stream)

lemma link_step_ok: "link_step k k' \<Longrightarrow> link_ok k \<Longrightarrow> link_ok k'"
proof (induction rule: link_step.induct)
  case (link_send k a cl')
  from client_send_effect [OF link_send(3)] link_send(4) show ?case by (auto simp: link_ok_def)
next
  case (link_recv k d rest cl')
  from client_recv_effect [OF link_recv(4)] link_recv(2,5) show ?case by (auto simp: link_ok_def)
next
  case (link_recv_fails k e cl')
  from client_recv_effect [OF link_recv_fails(2)] link_recv_fails(3) show ?case by (auto simp: link_ok_def)
next
  case (link_wake k)
  then show ?case by (auto simp: link_ok_def client_wake_def)
next
  case (link_server k c L heard given c' L' heard' given' up)
  from stream_step_adds [OF link_server(2)] link_server(1,3,4) show ?case by (auto simp: link_ok_def)
qed

lemma link_reachable_ok: "link_reachable k0 k \<Longrightarrow> link_ok k0 \<Longrightarrow> link_ok k"
  by (induction rule: link_reachable.induct) (auto intro: link_step_ok)

lemma link_server_reachable:
  "link_reachable k0 k \<Longrightarrow> stream_reachable session_callbacks (lk_server k0) (lk_server k)"
proof (induction rule: link_reachable.induct)
  case (link_next k k')
  from link_next.hyps(2) have "lk_server k' = lk_server k \<or> stream_step session_callbacks (lk_server k) (lk_server k')"
    by (cases rule: link_step.cases) simp_all
  with link_next.IH show ?case by (auto intro: stream_next)
qed (rule stream_begin)

text \<open>
  Claim C11. Client and server together lose, double and reorder nothing: after the client has connected and
  the server has opened the connection on an epoll loop, in every interleaving of the two programs, with
  whatever pieces the network delivers and whatever errors and closes happen, the bytes the client
  sent are those it received, then those on the way back, those waiting in the server's buffer and those not
  yet handed to the server, in this order.
\<close>

theorem client_server_conserve:
  assumes "client_start aton resolve le os junk st = Inr (cl, st')"
    and "in_sync L" "on_epoll L" "get_fd remote \<notin> live_keys (sl_handlers L)"
    and "conn_open virt session_callbacks remote (conn_set_service_loop (connection_new p ()) l) L = Inr (c0, L0)"
    and "link_reachable (link_start cl c0 L0) k" "int (length (cl_sent (lk_client k))) \<le> INT_MAX"
  shows "cl_sent (lk_client k) =
    cl_received (lk_client k) @ lk_down k @ sb_to_string (cn_out (fst (lk_server k))) @ lk_up k"
proof -
  obtain c L1 heard given where s: "lk_server k = (c, L1, heard, given)" by (metis prod_cases4)
  have "cl_sent cl = []" "cl_received cl = []" using assms(1) by (auto simp: client_start_def bind_exec_eq_Inr)
  moreover have "cn_sent c0 = []" using echo_stream(1) [OF assms(2-5) stream_begin] by (simp add: INT_MAX_def)
  ultimately have "link_ok (link_start cl c0 L0)" by (simp add: link_ok_def link_start_def)
  from link_reachable_ok [OF assms(6) this] s
  have k: "cl_sent (lk_client k) = heard @ lk_up k" "cn_sent c = cl_received (lk_client k) @ lk_down k" by (simp_all add: link_ok_def)
  from link_server_reachable [OF assms(6)] s
  have r: "stream_reachable session_callbacks (c0, L0, [], []) (c, L1, heard, given)" by (simp add: link_start_def)
  have "int (length heard) \<le> INT_MAX" using k(1) assms(7) by simp
  from echo_stream(1) [OF assms(2-5) r this] k s show ?thesis by (simp add: sb_to_string_def flip: append_assoc)
qed

section \<open>A round over the network\<close>

datatype link_event = Client_Sends send_answer | Client_Receives nat | Client_Wakes | Server_Event stream_event

fun run_link_event :: "link_event \<Rightarrow> link \<Rightarrow> link exec" where
  "run_link_event (Client_Sends a) k =
     (if cl_pc (lk_client k) = Cl_Send \<and> send_within (length hello + 1) a
      then bind_exec (client_send a (lk_client k)) (\<lambda>cl'.
             Inr (k\<lparr>lk_client := cl', lk_up := lk_up k @ drop (length (cl_sent (lk_client k))) (cl_sent cl')\<rparr>))
      else Inl Pending)"
| "run_link_event (Client_Receives n) k =
     (if cl_pc (lk_client k) = Cl_Recv \<and> int n \<le> int CLIENT_BUF
      then bind_exec (client_recv (Recv_Data (take n (lk_down k))) (lk_client k)) (\<lambda>cl'.
             Inr (k\<lparr>lk_client := cl', lk_down := drop n (lk_down k)\<rparr>))
      else Inl Pending)"
| "run_link_event Client_Wakes k =
     (if cl_pc (lk_client k) = Cl_Sleep then Inr (k\<lparr>lk_client := client_wake (lk_client k)\<rparr>) else Inl Pending)"
| "run_link_event (Server_Event ev) k =
     (case lk_server k of (c, L, heard, given) \<Rightarrow>
        bind_exec (run_stream session_callbacks [ev] (c, L, heard, given)) (\<lambda>(c', L', heard', given').
          let h = drop (length heard) heard' in
          if take (length h) (lk_up k) = h
          then Inr (k\<lparr>lk_server := (c', L', heard', given'), lk_up := drop (length h) (lk_up k),
            lk_down := lk_down k @ drop (length (cn_sent c)) (cn_sent c')\<rparr>)
          else Inl Pending))"

fun run_link :: "link_event list \<Rightarrow> link \<Rightarrow> link exec" where
  "run_link [] k = Inr k"
| "run_link (ev # evs) k = bind_exec (run_link_event ev k) (run_link evs)"

lemma run_one_stream_event:
  "run_stream cb [ev] x = Inr y \<Longrightarrow> stream_step cb x y"
  by (cases x; cases ev)
    (auto simp: bind_exec_eq_Inr watches_def split: if_splits option.splits intro: stream_read stream_write stream_error)

lemma run_link_event_step:
  assumes "run_link_event ev k = Inr k'"
  shows "link_step k k'"
proof (cases ev)
  case (Client_Sends a)
  with assms show ?thesis by (auto simp: bind_exec_eq_Inr split: if_splits intro: link_send)
next
  case (Client_Receives n)
  with assms obtain cl' where c: "cl_pc (lk_client k) = Cl_Recv" "int n \<le> int CLIENT_BUF"
    "client_recv (Recv_Data (take n (lk_down k))) (lk_client k) = Inr cl'" "k' = k\<lparr>lk_client := cl', lk_down := drop n (lk_down k)\<rparr>"
    by (auto simp: bind_exec_eq_Inr split: if_splits)
  then show ?thesis using link_recv [OF c(1) append_take_drop_id [symmetric] _ c(3)] by simp
next
  case Client_Wakes
  with assms show ?thesis by (auto split: if_splits intro: link_wake)
next
  case (Server_Event e)
  obtain c L heard given where s: "lk_server k = (c, L, heard, given)" by (metis prod_cases4)
  with assms Server_Event obtain c' L' heard' given' where r: "run_stream session_callbacks [e] (c, L, heard, given) = Inr (c', L', heard', given')"
    and up: "take (length (drop (length heard) heard')) (lk_up k) = drop (length heard) heard'"
    and k': "k' = k\<lparr>lk_server := (c', L', heard', given'), lk_up := drop (length (drop (length heard) heard')) (lk_up k),
      lk_down := lk_down k @ drop (length (cn_sent c)) (cn_sent c')\<rparr>"
    by (auto simp: bind_exec_eq_Inr Let_def split: if_splits)
  have "lk_up k = drop (length heard) heard' @ drop (length (drop (length heard) heard')) (lk_up k)"
    by (metis append_take_drop_id up)
  from link_server [OF s run_one_stream_event [OF r] this] k' show ?thesis by simp
qed

lemma run_link_reachable: "run_link evs k = Inr k' \<Longrightarrow> link_reachable k0 k \<Longrightarrow> link_reachable k0 k'"
proof (induction evs arbitrary: k)
  case (Cons ev evs)
  then obtain k1 where "run_link_event ev k = Inr k1" "run_link evs k1 = Inr k'" by (auto simp: bind_exec_eq_Inr)
  with Cons link_next run_link_event_step show ?case by blast
qed simp

text \<open>
  A round in which the reply is cut in two: the client prints the first five bytes completed from its
  own text, and the rest of the reply is what its next round receives.
\<close>

definition client_os :: sock_os where
  "client_os = sample_net_os\<lparr>so_connect := (\<lambda>fd a. Inr ())\<rparr>"

definition started_link :: "link exec" where
  "started_link =
     bind_exec (client_start (\<lambda>s. Some 16777343) (\<lambda>s. Inl 1) True client_os zero_sockaddr sample_net) (\<lambda>(cl, st).
     bind_exec (opened_session epoll_empty) (\<lambda>(c, L, heard, given). Inr (link_start cl c L)))"

definition cut_round :: "link_event list" where
  "cut_round = [Client_Sends (Send_Count 13), Server_Event (Ev_Recv [Recv_Data (hello @ [0])]),
     Server_Event (Ev_Send [Send_Count 13]), Client_Receives 5, Client_Wakes]"

lemma cut_round_obtain:
  obtains cl st c0 L0 k where
    "client_start (\<lambda>s. Some 16777343) (\<lambda>s. Inl 1) True client_os zero_sockaddr sample_net = Inr (cl, st)"
    "conn_open virt session_callbacks peer_address new_session (empty_loop epoll_empty) = Inr (c0, L0)"
    "run_link cut_round (link_start cl c0 L0) = Inr k" "cl_received (lk_client k) = text_bytes ''hello''"
    "lk_down k = text_bytes '' server'' @ [0]" "int (length (cl_sent (lk_client k))) = 13" "lk_up k = []"
proof -
  have "case bind_exec started_link (run_link cut_round) of Inl e \<Rightarrow> False
    | Inr k \<Rightarrow> cl_received (lk_client k) = text_bytes ''hello'' \<and> lk_down k = text_bytes '' server'' @ [0] \<and>
        int (length (cl_sent (lk_client k))) = 13 \<and> lk_up k = []"
    by code_simp
  then show ?thesis using that
    by (fastforce simp: started_link_def opened_session_def bind_exec_def split: sum.splits prod.splits)
qed

theorem client_server_conserve_witness:
  "\<exists>cl c0 L0 k. link_reachable (link_start cl c0 L0) k \<and> cl_received (lk_client k) = text_bytes ''hello'' \<and>
     cl_sent (lk_client k) = text_bytes ''hello'' @ text_bytes '' server'' @ 0 # sb_to_string (cn_out (fst (lk_server k)))"
proof -
  obtain cl st c0 L0 k where k:
    "client_start (\<lambda>s. Some 16777343) (\<lambda>s. Inl 1) True client_os zero_sockaddr sample_net = Inr (cl, st)"
    "conn_open virt session_callbacks peer_address new_session (empty_loop epoll_empty) = Inr (c0, L0)"
    "run_link cut_round (link_start cl c0 L0) = Inr k" "cl_received (lk_client k) = text_bytes ''hello''"
    "lk_down k = text_bytes '' server'' @ [0]" "int (length (cl_sent (lk_client k))) = 13" "lk_up k = []"
    by (rule cut_round_obtain)
  from run_link_reachable [OF k(3) link_begin] have r: "link_reachable (link_start cl c0 L0) k" .
  from client_server_conserve [OF k(1) epoll_empty_loop k(2) [unfolded new_session_def] r] k(4-7) r
  show ?thesis by (fastforce simp: INT_MAX_def)
qed

end
