(* ===== verification/Connection_Progress.thy ===== *)
theory Connection_Progress
  imports Connection_Stream
begin

text \<open>
  Output makes progress: as long as the kernel takes at least one byte per reported event, the output of a
  connection is out after as many events as it has bytes, and the connection is read again.
\<close>

section \<open>Events of a connection that waits for the write direction\<close>

text \<open>The answers of \<^verbatim>\<open>send\<close> during one event take at least a byte, possibly after interruptions.\<close>

fun takes_some :: "send_answer list \<Rightarrow> bool" where
  "takes_some [] = False"
| "takes_some (Send_Error e # as) = (e = EINTR \<and> takes_some as)"
| "takes_some (Send_Count n # as) = (0 < n)"

text \<open>The dispatcher accepts a modification of any handle it watches.\<close>

definition mods_accepted :: "(dispatcher, 'f, 'z) service_loop_scheme \<Rightarrow> bool" where
  "mods_accepted L \<longleftrightarrow>
     (\<forall>d h. sl_dispatcher L = Some d \<longrightarrow> h \<in> disp_watched d \<longrightarrow> (\<exists>d'. virt_mod d h True False = Inr (True, d')))"

text \<open>
  \<open>n\<close> rounds of the loop from the \<open>i\<close>-th on: what happens to the loop for its other handlers
  (\<open>others i\<close>), then the connection's \<^verbatim>\<open>do_handle_write\<close> when its write direction is watched, with
  the answers of the system for the bytes it offers.
\<close>

fun write_rounds ::
  "(nat \<Rightarrow> nat \<Rightarrow> send_answer list) \<Rightarrow>
   (nat \<Rightarrow> (dispatcher, 'f, 'z) service_loop_scheme \<Rightarrow> (dispatcher, 'f, 'z) service_loop_scheme) \<Rightarrow> nat \<Rightarrow> nat \<Rightarrow>
   'u connection \<Rightarrow> (dispatcher, 'f, 'z) service_loop_scheme \<Rightarrow>
     ('u connection \<times> (dispatcher, 'f, 'z) service_loop_scheme) exec" where
  "write_rounds answers others i 0 c L = Inr (c, L)"
| "write_rounds answers others i (Suc n) c L =
     (let L1 = others i L in
      if watches disp_writes c L1
      then bind_exec (conn_handle_write virt (answers i (sb_length (cn_out c))) c L1) (\<lambda>(c', L').
             write_rounds answers others (Suc i) n c' L')
      else write_rounds answers others (Suc i) n c L1)"

section \<open>One event\<close>

lemma conn_write_loop_takes:
  assumes "takes_some as" "msg \<noteq> []" "conn_write_loop V msg as c L = Inr (c', L')"
  shows "cn_sent c' \<noteq> cn_sent c"
  using assms
proof (induction as)
  case (Cons a as)
  show ?case
  proof (cases a)
    case (Send_Error e)
    with Cons show ?thesis by (simp split: if_splits)
  next
    case (Send_Count n)
    let ?c = "c\<lparr>cn_out := sb_ignore (cn_out c) (c_int (int n)), cn_sent := cn_sent c @ take n msg\<rparr>"
    from Send_Count Cons.prems obtain L1 where "conn_write_loop V (sb_to_string (cn_out ?c)) as ?c L1 = Inr (c', L')"
      by (auto simp: Let_def bind_exec_eq_Inr)
    from conn_write_loop_adds [OF this] obtain x where "cn_sent c' = cn_sent c @ take n msg @ x" by auto
    moreover have "take n msg \<noteq> []" using Send_Count Cons.prems(1,2) by simp
    ultimately show ?thesis by simp
  qed
qed simp

text \<open>What a round starts from.\<close>

definition waiting_ok :: "'u connection \<Rightarrow> (dispatcher, 'f, 'z) service_loop_scheme \<Rightarrow> bool" where
  "waiting_ok c L \<longleftrightarrow> in_sync L \<and> conn_ready c L \<and> conn_wired c \<and> conn_interest c L \<and>
     int (sb_length (cn_out c)) \<le> INT_MAX"

lemma waiting_ok_others:
  "waiting_ok c L \<Longrightarrow> in_sync L' \<Longrightarrow> same_watch (conn_handle c) L L' \<Longrightarrow> waiting_ok c L'"
  using same_watch_interest [of c L L'] by (simp add: waiting_ok_def conn_ready_def) (simp add: same_watch_def)

lemma waiting_watches: "waiting_ok c L \<Longrightarrow> watches disp_writes c L \<longleftrightarrow> sb_to_string (cn_out c) \<noteq> []"
  by (auto simp: waiting_ok_def conn_interest_def watches_def)

lemma write_event:
  assumes ok: "waiting_ok c L" and m: "mods_accepted L" and ne: "sb_to_string (cn_out c) \<noteq> []"
    and as: "send_script (sb_length (cn_out c)) as" "takes_some as"
  obtains c' L' where "conn_handle_write virt as c L = Inr (c', L')" "waiting_ok c' L'"
    "cn_sent c' @ sb_to_string (cn_out c') = cn_sent c @ sb_to_string (cn_out c)"
    "sb_length (cn_out c') < sb_length (cn_out c)" "conn_handle c' = conn_handle c"
    "sb_to_string (cn_out c') \<noteq> [] \<Longrightarrow> mods_accepted L'"
proof -
  from ok have c: "in_sync L" "conn_ready c L" "conn_wired c" "conn_interest c L" "int (sb_length (cn_out c)) \<le> INT_MAX"
    by (simp_all add: waiting_ok_def)
  then obtain d where d: "sl_dispatcher L = Some d" "conn_handle c \<in> disp_watched d"
    using conn_ready_live [of c L] by (auto simp: loop_sync_def)
  with m obtain d' where "virt_mod d (conn_handle c) True False = Inr (True, d')" by (auto simp: mods_accepted_def)
  then have d': "mod_event virt d (conn_handle c) True False = Inr (True, d')" by simp
  from conn_write_loop_delivers [OF d(1) d' c(3) c(5) [unfolded sb_length_def] as(1) [unfolded sb_length_def]]
  obtain out sent L' where w: "conn_write_loop virt (ss_str (cn_out c)) as c L = Inr (c\<lparr>cn_out := out, cn_sent := sent\<rparr>, L')"
    and str: "sent @ ss_str out = cn_sent c @ ss_str (cn_out c)"
    and L': "L' = (if ss_str out = [] \<and> ss_str (cn_out c) \<noteq> []
          then L\<lparr>sl_dispatcher := Some d', sl_handlers := (sl_handlers L)(conn_handle c \<mapsto> cn_self c)\<rparr> else L)"
    by blast
  let ?c = "c\<lparr>cn_out := out, cn_sent := sent\<rparr>"
  have cs: "conn_sync disp_watched disp_invar c L" "cn_live c" using c(1,2) by (auto simp: conn_sync_def conn_ready_def)
  from any.conn_write_loop_sync [OF cs w] conn_write_loop_interest [OF cs c(4) _ w] cs(2)
  have after: "in_sync L'" "conn_ready ?c L'" "conn_interest ?c L'" by (simp_all add: conn_sync_def sb_to_string_def)
  from conn_write_loop_adds [OF w] obtain x where x: "sent = cn_sent c @ x" by auto
  with conn_write_loop_takes [OF as(2) _ w] ne have "x \<noteq> []" by (simp add: sb_to_string_def)
  with str x have less: "sb_length out < sb_length (cn_out c)"
    by (simp add: sb_length_def) (metis append_assoc append_same_eq length_append length_greater_0_conv less_add_same_cancel2 same_append_eq)
  show thesis
  proof (rule that)
    show "conn_handle_write virt as c L = Inr (?c, L')" using w by (simp add: conn_handle_write_def sb_to_string_def)
    show "waiting_ok ?c L'" using after less c(3,5) by (simp add: waiting_ok_def conn_wired_def)
    show "mods_accepted L'" if "sb_to_string (cn_out ?c) \<noteq> []" using that L' m by (simp add: sb_to_string_def)
  qed (use str less in \<open>simp_all add: sb_to_string_def\<close>)
qed

section \<open>Property\<close>

lemma write_rounds_idle:
  assumes "sb_to_string (cn_out c) = []"
    and "\<And>i L. in_sync L \<Longrightarrow> in_sync (others i L) \<and> same_watch (conn_handle c) L (others i L)"
  shows "waiting_ok c L \<Longrightarrow> \<exists>L'. write_rounds answers others i n c L = Inr (c, L') \<and> waiting_ok c L'"
proof (induction n arbitrary: i L)
  case (Suc n)
  have "in_sync L" using Suc.prems by (simp add: waiting_ok_def)
  with assms(2) Suc.prems have ok: "waiting_ok c (others i L)" by (blast intro: waiting_ok_others)
  with waiting_watches [OF ok] assms(1) Suc.IH [OF ok] show ?case by simp
qed simp

lemma write_rounds_drain:
  assumes "\<And>i L. in_sync L \<Longrightarrow> in_sync (others i L) \<and> same_watch h L (others i L)"
    and "\<And>i L. in_sync L \<Longrightarrow> mods_accepted L \<Longrightarrow> mods_accepted (others i L)"
    and "\<And>i k. 0 < k \<Longrightarrow> send_script k (answers i k) \<and> takes_some (answers i k)"
  shows "waiting_ok c L \<Longrightarrow> mods_accepted L \<Longrightarrow> conn_handle c = h \<Longrightarrow> sb_length (cn_out c) \<le> n \<Longrightarrow>
    \<exists>c' L'. write_rounds answers others i n c L = Inr (c', L') \<and> waiting_ok c' L' \<and> conn_handle c' = h \<and>
      cn_sent c' = cn_sent c @ sb_to_string (cn_out c) \<and> sb_to_string (cn_out c') = []"
proof (induction n arbitrary: i c L)
  case 0
  then show ?case by (auto simp: sb_length_def sb_to_string_def)
next
  case (Suc n)
  show ?case
  proof (cases "sb_to_string (cn_out c) = []")
    case True
    from write_rounds_idle [OF True _ Suc.prems(1), of others answers i "Suc n"] assms(1) Suc.prems(3) True
    show ?thesis by fastforce
  next
    case False
    have s: "in_sync L" using Suc.prems(1) by (simp add: waiting_ok_def)
    with assms(1,2) Suc.prems have ok: "waiting_ok c (others i L)" "mods_accepted (others i L)"
      by (blast intro: waiting_ok_others)+
    have "0 < sb_length (cn_out c)" using False by (simp add: sb_length_def sb_to_string_def)
    from assms(3) [OF this] obtain c1 L1 where w: "conn_handle_write virt (answers i (sb_length (cn_out c))) c (others i L) = Inr (c1, L1)"
      and c1: "waiting_ok c1 L1" "cn_sent c1 @ sb_to_string (cn_out c1) = cn_sent c @ sb_to_string (cn_out c)"
        "sb_length (cn_out c1) < sb_length (cn_out c)" "conn_handle c1 = conn_handle c"
        "sb_to_string (cn_out c1) \<noteq> [] \<Longrightarrow> mods_accepted L1"
      using write_event [OF ok False] by metis
    have step: "write_rounds answers others i (Suc n) c L = write_rounds answers others (Suc i) n c1 L1"
      using w False waiting_watches [OF ok(1)] by (simp add: Let_def)
    show ?thesis
    proof (cases "sb_to_string (cn_out c1) = []")
      case True
      from write_rounds_idle [OF True _ c1(1), of others answers "Suc i" n] assms(1) c1(2,4) Suc.prems(3) True
      show ?thesis unfolding step by fastforce
    next
      case ne: False
      have "sb_length (cn_out c1) \<le> n" using c1(3) Suc.prems(4) by simp
      from Suc.IH [OF c1(1) c1(5) [OF ne] _ this, of "Suc i"] c1(2,4) Suc.prems(3) show ?thesis unfolding step by fastforce
    qed
  qed
qed

text \<open>
  Claim C9. Output drains, on any of the three dispatchers: a registered connection with \<open>n\<close> bytes waiting, whatever the
  loop does for its other handlers in between, has after \<open>n\<close> rounds returned from every
  \<^verbatim>\<open>do_handle_write\<close>, handed all the bytes to the kernel in order, and waits for reading only, as long as the kernel takes
  at least one byte whenever it reports the connection writable and the dispatcher accepts modifications of what it watches.
\<close>

theorem output_drains:
  assumes "in_sync L" "conn_ready c L" "conn_wired c" "conn_interest c L" "int (sb_length (cn_out c)) \<le> INT_MAX" "mods_accepted L"
    and "\<And>i L. in_sync L \<Longrightarrow> in_sync (others i L) \<and> same_watch (conn_handle c) L (others i L) \<and> (mods_accepted L \<longrightarrow> mods_accepted (others i L))"
    and "\<And>i k. 0 < k \<Longrightarrow> send_script k (answers i k) \<and> takes_some (answers i k)"
  shows "\<exists>c' L' d. write_rounds answers others 0 (sb_length (cn_out c)) c L = Inr (c', L') \<and>
    cn_sent c' = cn_sent c @ sb_to_string (cn_out c) \<and> sb_to_string (cn_out c') = [] \<and>
    sl_dispatcher L' = Some d \<and> disp_reads d (conn_handle c) \<and> \<not> disp_writes d (conn_handle c)"
proof -
  have "waiting_ok c L" using assms(1-5) by (simp add: waiting_ok_def)
  from write_rounds_drain [of others "conn_handle c" answers, OF _ _ assms(8) this assms(6) refl order_refl, of 0] assms(7)
  obtain c' L' where r: "write_rounds answers others 0 (sb_length (cn_out c)) c L = Inr (c', L')" "conn_interest c' L'"
    "conn_handle c' = conn_handle c" "cn_sent c' = cn_sent c @ sb_to_string (cn_out c)" "sb_to_string (cn_out c') = []"
    by (auto simp: waiting_ok_def)
  from r(2,3,5) obtain d where "sl_dispatcher L' = Some d" "disp_reads d (conn_handle c)" "\<not> disp_writes d (conn_handle c)"
    by (auto simp: conn_interest_def)
  with r(1,4,5) show ?thesis by blast
qed

text \<open>The kernel is interrupted, takes one byte and then no more in every round.\<close>

theorem output_drains_witness:
  "\<exists>c' L'. write_rounds (\<lambda>i k. [Send_Error EINTR, Send_Count 1, Send_Error EWOULDBLOCK]) (\<lambda>i L. L) 0 3 sample_conn conn_loop = Inr (c', L') \<and>
     cn_sent c' = [1, 2, 3] \<and> sb_to_string (cn_out c') = []"
proof -
  let ?as = "[Send_Error EINTR, Send_Count 1, Send_Error EWOULDBLOCK]"
  have "mods_accepted conn_loop"
    by (simp add: mods_accepted_def conn_loop_simps(1) epoll_watched_def epoll_mod_event_def epoll_events_cases sample_ctl_def
        wrap_result_def sample_epoll_def)
  moreover have "in_sync L \<and> same_watch h L L \<and> (mods_accepted L \<longrightarrow> mods_accepted L)" if "in_sync L"
    for h and L :: "(dispatcher, nat) service_loop"
    using that by (auto simp: same_watch_def loop_sync_def)
  moreover have "send_script k ?as \<and> takes_some ?as" if "0 < k" for k using that by (simp add: errno_defs)
  moreover have len: "sb_length (cn_out sample_conn) = 3" "sb_to_string (cn_out sample_conn) = [1, 2, 3]" "cn_sent sample_conn = []"
    by (simp_all add: sb_length_def ss_str_def sb_to_string_def)
  moreover have "int (sb_length (cn_out sample_conn)) \<le> INT_MAX" by (simp add: sb_length_def ss_str_def INT_MAX_def)
  ultimately obtain c' L' where "write_rounds (\<lambda>i k. ?as) (\<lambda>i L. L) 0 (sb_length (cn_out sample_conn)) sample_conn conn_loop = Inr (c', L')"
    "cn_sent c' = cn_sent sample_conn @ sb_to_string (cn_out sample_conn)" "sb_to_string (cn_out c') = []"
    using output_drains [OF conn_loop_sync conn_loop_ready sample_conn_simps(8) conn_loop_interest, of "\<lambda>i L. L" "\<lambda>i k. ?as"] by blast
  with len show ?thesis by auto
qed

end
