(* ===== verification/Echo_Progress.thy ===== *)
theory Echo_Progress
  imports Test_Client Connection_Progress
begin

text \<open>
  The echo server answers: from any state of client and server on epoll in which the connection is alive, each round of
  the server's loop moves bytes towards the client, until everything sent is on its way back.
\<close>

section \<open>An epoll instance that accepts modifications\<close>

definition mods_reliable :: "(dispatcher, 'f, 'z) service_loop_scheme \<Rightarrow> bool" where
  "mods_reliable L \<longleftrightarrow> (\<exists>e. sl_dispatcher L = Some (D_Epoll e) \<and>
     (\<forall>m h. m h \<noteq> None \<longrightarrow> ep_ctl e m EPOLL_CTL_MOD h = 0))"

lemma mods_reliable_virt:
  assumes "mods_reliable L" "sl_dispatcher L = Some d" "h \<in> disp_watched d" "r \<or> w"
  shows "\<exists>d'. virt_mod d h r w = Inr (True, d')"
  using assms by (auto simp: mods_reliable_def epoll_watched_def epoll_mod_event_def epoll_events_def)

lemma mods_reliable_accepted: "mods_reliable L \<Longrightarrow> mods_accepted L"
  by (simp add: mods_accepted_def mods_reliable_virt)

lemma conn_modify_reliable:
  assumes "conn_modify virt r w c L = Inr L'" "mods_reliable L"
  shows "mods_reliable L'"
proof -
  from assms(1) have "modify_event virt L (conn_handle c) r w (cn_self c) = Inr (0, L')" by (simp add: conn_modify_result)
  from modify_event_handlers [OF this] obtain d d' ok where
    d: "sl_dispatcher L = Some d" "virt_mod d (conn_handle c) r w = Inr (ok, d')" "sl_dispatcher L' = Some d'"
    by (auto split: if_splits)
  with assms(2) show ?thesis
    by (auto simp: mods_reliable_def epoll_mod_event_def bind_exec_eq_Inr Let_def split: if_splits)
qed

lemma conn_write_loop_reliable:
  "conn_write_loop virt msg as c L = Inr (c', L') \<Longrightarrow> mods_reliable L \<Longrightarrow> mods_reliable L'"
proof (induction as arbitrary: msg c L)
  case (Cons a as)
  then show ?case
    by (cases a) (auto simp: Let_def bind_exec_eq_Inr split: if_splits dest: conn_modify_reliable)
qed (simp split: if_splits)

section \<open>One read of the echo server\<close>

text \<open>
  The answers of \<^verbatim>\<open>recv\<close> during one event: a non-empty piece of what has arrived, the last answer a short one
  (an error after full pieces closes the connection, see \<open>exact_chunk_closes\<close>).
\<close>

definition delivers :: "recv_answer list \<Rightarrow> bytes \<Rightarrow> bool" where
  "delivers rcv arrived \<longleftrightarrow> (\<exists>a\<in>set rcv. last_answer a) \<and> \<not> recv_fails rcv \<and> recv_prefix rcv \<noteq> [] \<and>
     (\<exists>rest. arrived = recv_prefix rcv @ rest)"

lemma echo_read_event:
  assumes ok: "waiting_ok c L" "input_used c" and idle: "sb_to_string (cn_out c) = []" "ss_ok (cn_out c)" and m: "mods_reliable L"
    and rcv: "delivers rcv arrived" "int (length (recv_prefix rcv)) \<le> INT_MAX"
  obtains c' L' where "conn_handle_read virt session_callbacks rcv c L = Inr (c', L')" "heard_by rcv c = recv_prefix rcv"
    "cn_sent c' = cn_sent c" "same_conn c c'" "cn_live c'" "mods_reliable L'" "sb_to_string (cn_out c') = recv_prefix rcv"
proof -
  let ?pre = "recv_prefix rcv"
  from ok have c: "conn_wired c" "conn_ready c L" "in_sync L" "at_end (cn_in c)" "ss_str (cn_in c) = []"
    by (simp_all add: waiting_ok_def input_used_def)
  from rcv(1) have d: "\<exists>a\<in>set rcv. last_answer a" "\<not> recv_fails rcv" "?pre \<noteq> []" by (auto simp: delivers_def)
  from isb_read_result [OF c(4) d(1) rcv(2)] d(2) c(5) obtain e s rest where
    r: "isb_read (cn_in c) rcv = Inr (int (length ?pre), e, s, rest)" "ss_str s = ?pre" by auto
  let ?c1 = "c\<lparr>cn_in := s, cn_user := cn_user c\<rparr>"
  let ?c2 = "?c1\<lparr>cn_out := osb_put (cn_out c) ?pre\<rparr>"
  have w2: "conn_wired ?c2" using c(1) by (simp add: conn_wired_def)
  from c(2,3) conn_ready_live [of c L] obtain dd where dd: "sl_dispatcher L = Some dd" "conn_handle c \<in> disp_watched dd"
    by (auto simp: loop_sync_def)
  from mods_reliable_virt [OF m this, of True True] obtain d' where
    "mod_event virt dd (conn_handle ?c2) True True = Inr (True, d')" by auto
  from conn_modify_ok [OF dd(1) w2 this] obtain L' where L': "conn_modify virt True True ?c2 L = Inr L'" by blast
  have live: "cn_live c" using c(1) by (simp add: conn_wired_def)
  have snd: "conn_send virt ?pre ?c1 L = Inr (?c2, L')"
    using L' live idle(1) by (simp add: conn_send_def osb_empty_def sb_to_string_def)
  let ?c3 = "?c2\<lparr>cn_in := sb_ignore s (int (length ?pre))\<rparr>"
  have read: "conn_handle_read virt session_callbacks rcv c L = Inr (?c3, L')"
    using r d(3) snd live by (simp add: conn_handle_read_def session_callbacks_def sb_to_string_def)
  show thesis
  proof (rule that [OF read])
    show "heard_by rcv c = ?pre" using r(1) d(3) by (simp add: heard_by_def)
    show "mods_reliable L'" by (rule conn_modify_reliable [OF L' m])
    have "at_end (cn_out c)" using idle by (simp add: empty_at_end sb_to_string_def)
    from osb.view_put [OF this] idle(1) show "sb_to_string (cn_out ?c3) = ?pre" by (simp add: sb_to_string_def)
  qed (use live in \<open>simp_all add: same_conn_def\<close>)
qed

section \<open>Rounds of the server\<close>

text \<open>
  What a state of client and server needs for its server to go on: the connection is alive and registered for what it
  waits for, and the accounts of both ends agree.
\<close>

definition serving :: "link \<Rightarrow> bool" where
  "serving k \<longleftrightarrow> link_ok k \<and> int (length (cl_sent (lk_client k))) \<le> INT_MAX \<and>
     (case lk_server k of (c, L, heard, given) \<Rightarrow>
        conn_wired c \<and> stream_ok (c, L, heard, given) \<and> echo_ok (c, L, heard, given) \<and> mods_reliable L)"

text \<open>A byte not yet handed to the server counts two, one in its output buffer counts one.\<close>

definition weight :: "link \<Rightarrow> nat" where
  "weight k = 2 * length (lk_up k) + sb_length (cn_out (fst (lk_server k)))"

lemma servingD:
  assumes "serving k" "lk_server k = (c, L, heard, given)"
  shows "waiting_ok c L" "input_used c" "ss_ok (cn_out c)" "mods_reliable L" "given = heard"
    "cl_sent (lk_client k) = heard @ lk_up k" "cn_sent c @ sb_to_string (cn_out c) = heard"
    "stream_ok (c, L, heard, given)" "echo_ok (c, L, heard, given)" "int (length heard) \<le> INT_MAX" "conn_ready c L"
proof -
  from assms have s: "link_ok k" "int (length (cl_sent (lk_client k))) \<le> INT_MAX" "conn_wired c"
    "stream_ok (c, L, heard, given)" "echo_ok (c, L, heard, given)" "mods_reliable L" by (simp_all add: serving_def)
  then show "stream_ok (c, L, heard, given)" "echo_ok (c, L, heard, given)" "mods_reliable L" by simp_all
  have live: "cn_live c" using s(3) by (simp add: conn_wired_def)
  show up: "cl_sent (lk_client k) = heard @ lk_up k" using s(1) assms(2) by (simp add: link_ok_def)
  show "given = heard" "input_used c" using s(5) live by (simp_all add: echo_ok_def)
  from s(4) this(1) have st: "cn_sent c @ ss_str (cn_out c) = heard" "ss_ok (cn_out c)" "conn_sync disp_watched disp_invar c L"
    "conn_interest c L" using live by (simp_all add: stream_ok_def)
  then show "cn_sent c @ sb_to_string (cn_out c) = heard" "ss_ok (cn_out c)" by (simp_all add: sb_to_string_def)
  show "conn_ready c L" using st(3) live by (simp add: conn_sync_def)
  show len: "int (length heard) \<le> INT_MAX" using up s(2) by simp
  have "length (ss_str (cn_out c)) \<le> length heard" using st(1) by auto
  with len have "int (sb_length (cn_out c)) \<le> INT_MAX" by (simp add: sb_length_def)
  with st(3,4) s(3) live show "waiting_ok c L" by (simp add: waiting_ok_def conn_sync_def)
qed

lemma serve_write:
  assumes k: "serving k" "lk_server k = (c, L, heard, given)" and ne: "sb_to_string (cn_out c) \<noteq> []"
    and as: "send_script (sb_length (cn_out c)) as" "takes_some as"
  obtains k' where "run_link_event (Server_Event (Ev_Send as)) k = Inr k'" "serving k'" "weight k' < weight k" "lk_client k' = lk_client k"
proof -
  note s = servingD [OF k]
  obtain c' L' where w: "conn_handle_write virt as c L = Inr (c', L')" "waiting_ok c' L'" "sb_length (cn_out c') < sb_length (cn_out c)"
    by (rule write_event [OF s(1) mods_reliable_accepted [OF s(4)] ne as])
  have run: "run_stream session_callbacks [Ev_Send as] (c, L, heard, given) = Inr (c', L', heard, given)"
    using w(1) s(11) waiting_watches [OF s(1)] ne as(1) by simp
  let ?k = "k\<lparr>lk_server := (c', L', heard, given), lk_down := lk_down k @ drop (length (cn_sent c)) (cn_sent c')\<rparr>"
  have ev: "run_link_event (Server_Event (Ev_Send as)) k = Inr ?k" using run k(2) by (simp add: Let_def del: run_stream.simps)
  have "link_ok ?k" by (rule link_step_ok [OF run_link_event_step [OF ev]]) (use k(1) in \<open>simp add: serving_def\<close>)
  moreover have "int (length given) \<le> INT_MAX" using s(5,10) by simp
  from stream_write_ok [OF s(8,11) as(1) w(1) this] have "stream_ok (c', L', heard, given)" .
  moreover from echo_step_ok [OF run_one_stream_event [OF run] s(9)] have "echo_ok (c', L', heard, given)" .
  moreover have "mods_reliable L'"
    using conn_write_loop_reliable [OF w(1) [unfolded conn_handle_write_def] s(4)] .
  moreover have "conn_wired c'" using w(2) by (simp add: waiting_ok_def)
  ultimately have "serving ?k" using k by (simp add: serving_def)
  moreover have "weight ?k < weight k" using w(3) k(2) by (simp add: weight_def)
  ultimately show thesis using that [OF ev] by simp
qed

lemma serve_read:
  assumes k: "serving k" "lk_server k = (c, L, heard, given)" and idle: "sb_to_string (cn_out c) = []"
    and rcv: "delivers rcv (lk_up k)"
  obtains k' where "run_link_event (Server_Event (Ev_Recv rcv)) k = Inr k'" "serving k'" "weight k' < weight k" "lk_client k' = lk_client k"
proof -
  note s = servingD [OF k]
  let ?pre = "recv_prefix rcv"
  from rcv obtain rest where up: "lk_up k = ?pre @ rest" and ne: "?pre \<noteq> []" by (auto simp: delivers_def)
  have len: "int (length (heard @ ?pre)) \<le> INT_MAX" using k(1) s(6) up by (simp add: serving_def)
  then have "int (length ?pre) \<le> INT_MAX" by simp
  then obtain c' L' where r: "conn_handle_read virt session_callbacks rcv c L = Inr (c', L')" "heard_by rcv c = ?pre"
    "cn_sent c' = cn_sent c" "same_conn c c'" "cn_live c'" "mods_reliable L'" "sb_to_string (cn_out c') = ?pre"
    by (rule echo_read_event [OF s(1,2) idle s(3,4) rcv])
  have given: "given_by session_callbacks rcv c = ?pre"
    using reply_given [OF session_replies s(2), of rcv] r(2) by simp
  from waiting_watches [OF s(1)] idle s(1) have reads: "watches disp_reads c L"
    by (auto simp: waiting_ok_def conn_interest_def watches_def)
  have run: "run_stream session_callbacks [Ev_Recv rcv] (c, L, heard, given) = Inr (c', L', heard @ ?pre, given @ ?pre)"
    using r(1,2) s(11) reads given by simp
  let ?k = "k\<lparr>lk_server := (c', L', heard @ ?pre, given @ ?pre), lk_up := rest\<rparr>"
  have ev: "run_link_event (Server_Event (Ev_Recv rcv)) k = Inr ?k"
    using run k(2) up r(3) by (simp add: Let_def del: run_stream.simps)
  have "link_ok ?k" by (rule link_step_ok [OF run_link_event_step [OF ev]]) (use k(1) in \<open>simp add: serving_def\<close>)
  moreover from reads obtain d where "sl_dispatcher L = Some d" "disp_reads d (conn_handle c)" by (auto simp: watches_def split: option.splits)
  from stream_read_ok [OF session_sends s(8,11) this r(1)] given r(2) have "stream_ok (c', L', heard @ ?pre, given @ ?pre)" by simp
  moreover from echo_step_ok [OF run_one_stream_event [OF run] s(9)] have "echo_ok (c', L', heard @ ?pre, given @ ?pre)" .
  moreover have "conn_wired c'" using s(1) r(4,5) by (simp add: waiting_ok_def conn_wired_def same_conn_def conn_handle_def)
  ultimately have "serving ?k" using k(1) r(6) by (simp add: serving_def)
  moreover have "sb_length (cn_out c) = 0" "sb_length (cn_out c') = length ?pre"
    using idle r(7) by (simp_all add: sb_length_def sb_to_string_def)
  then have "weight ?k < weight k" using up ne k(2) by (simp add: weight_def)
  ultimately show thesis using that [OF ev] by simp
qed

text \<open>
  \<open>n\<close> rounds of the server from the \<open>i\<close>-th on: the event its epoll instance reports for the connection, with
  the answers of the kernel: to \<^verbatim>\<open>send\<close> for the bytes offered, to \<^verbatim>\<open>recv\<close> for the bytes that have arrived.
\<close>

fun serve ::
  "(nat \<Rightarrow> bytes \<Rightarrow> recv_answer list) \<Rightarrow> (nat \<Rightarrow> nat \<Rightarrow> send_answer list) \<Rightarrow> nat \<Rightarrow> nat \<Rightarrow> link \<Rightarrow> link exec" where
  "serve deliver take_out i 0 k = Inr k"
| "serve deliver take_out i (Suc n) k =
     (case lk_server k of (c, L, heard, given) \<Rightarrow>
        if watches disp_writes c L
        then bind_exec (run_link_event (Server_Event (Ev_Send (take_out i (sb_length (cn_out c))))) k) (serve deliver take_out (Suc i) n)
        else if watches disp_reads c L \<and> lk_up k \<noteq> []
        then bind_exec (run_link_event (Server_Event (Ev_Recv (deliver i (lk_up k)))) k) (serve deliver take_out (Suc i) n)
        else serve deliver take_out (Suc i) n k)"

lemma serve_completes:
  assumes "\<And>i up. up \<noteq> [] \<Longrightarrow> delivers (deliver i up) up"
    and "\<And>i m. 0 < m \<Longrightarrow> send_script m (take_out i m) \<and> takes_some (take_out i m)"
  shows "serving k \<Longrightarrow> weight k \<le> n \<Longrightarrow>
    \<exists>k'. serve deliver take_out i n k = Inr k' \<and> serving k' \<and> weight k' = 0 \<and> lk_client k' = lk_client k"
proof (induction n arbitrary: i k)
  case (Suc n)
  obtain c L heard given where srv: "lk_server k = (c, L, heard, given)" by (metis prod_cases4)
  note s = servingD [OF Suc.prems(1) srv]
  show ?case
  proof (cases "sb_to_string (cn_out c) = []")
    case False
    then have "0 < sb_length (cn_out c)" by (simp add: sb_length_def sb_to_string_def)
    from assms(2) [OF this] obtain k1 where k1: "run_link_event (Server_Event (Ev_Send (take_out i (sb_length (cn_out c))))) k = Inr k1"
      "serving k1" "weight k1 < weight k" "lk_client k1 = lk_client k" using serve_write [OF Suc.prems(1) srv False] by metis
    have "weight k1 \<le> n" using k1(3) Suc.prems(2) by simp
    from Suc.IH [OF k1(2) this, of "Suc i"] k1(1,4) waiting_watches [OF s(1)] False srv show ?thesis by (simp del: run_link_event.simps)
  next
    case True
    with waiting_watches [OF s(1)] s(1) have dir: "\<not> watches disp_writes c L" "watches disp_reads c L"
      by (auto simp: waiting_ok_def conn_interest_def watches_def)
    show ?thesis
    proof (cases "lk_up k = []")
      case no: False
      obtain k1 where k1: "run_link_event (Server_Event (Ev_Recv (deliver i (lk_up k)))) k = Inr k1"
        "serving k1" "weight k1 < weight k" "lk_client k1 = lk_client k"
        by (rule serve_read [OF Suc.prems(1) srv True assms(1) [OF no]])
      have "weight k1 \<le> n" using k1(3) Suc.prems(2) by simp
      from Suc.IH [OF k1(2) this, of "Suc i"] k1(1,4) dir no srv show ?thesis by (simp del: run_link_event.simps)
    next
      case empty: True
      with empty True srv have "weight k = 0" by (simp add: weight_def sb_length_def sb_to_string_def)
      then have "weight k \<le> n" by simp
      from Suc.IH [OF Suc.prems(1) this, of "Suc i"] dir empty srv show ?thesis by (simp del: run_link_event.simps)
    qed
  qed
qed simp

section \<open>Every reachable state\<close>

text \<open>A live connection keeps its loop, its address and its handle.\<close>

lemma stream_step_wired:
  assumes "stream_step session_callbacks (c, L, heard, given) (c', L', heard', given')"
    and "stream_ok (c, L, heard, given)" "cn_live c \<Longrightarrow> conn_wired c" "cn_live c'"
  shows "conn_wired c'"
proof -
  have keep: "conn_wired c'" if "same_conn c c'" "cn_live c" using assms(3,4) that by (simp add: conn_wired_def same_conn_def conn_handle_def)
  show ?thesis
    using assms(1)
  proof (cases rule: stream_step.cases)
    case (stream_read d rcv)
    then have live: "cn_live c" by (simp add: conn_ready_def)
    with assms(2,3) have "in_sync L" "conn_handle c > 0" by (simp_all add: stream_ok_def conn_sync_def conn_wired_def)
    from conn_read_outcome_once [OF stream_read(6) replies_once [OF session_replies] stream_read(3) this(2,1)] keep live
    show ?thesis by (simp add: conn_outcome_def)
  next
    case (stream_write d sent)
    with conn_write_loop_frame [of virt "sb_to_string (cn_out c)" sent c L c' L'] keep show ?thesis
      by (simp add: conn_handle_write_def conn_ready_def)
  next
    case stream_error
    with conn_close_stream [of session_callbacks c L c' L'] assms(4) show ?thesis by (simp add: conn_handle_error_def)
  next
    case stream_other
    with assms(3,4) show ?thesis by simp
  qed
qed

lemma stream_reachable_wired:
  "stream_reachable session_callbacks x y \<Longrightarrow> stream_ok x \<Longrightarrow> (cn_live (fst x) \<Longrightarrow> conn_wired (fst x)) \<Longrightarrow>
   int (length (snd (snd (snd y)))) \<le> INT_MAX \<Longrightarrow> cn_live (fst y) \<Longrightarrow> conn_wired (fst y)"
proof (induction rule: stream_reachable.induct)
  case (stream_next y z)
  obtain c L heard given where y: "y = (c, L, heard, given)" by (metis prod_cases4)
  obtain c' L' heard' given' where z: "z = (c', L', heard', given')" by (metis prod_cases4)
  from stream_step_grows [OF stream_next.hyps(2)] stream_next.prems(3) have len: "int (length (snd (snd (snd y)))) \<le> INT_MAX" by linarith
  from stream_reachable_ok [OF stream_next.hyps(1) stream_next.prems(1) session_sends len] have "stream_ok (c, L, heard, given)"
    by (simp add: y)
  moreover have "cn_live c \<Longrightarrow> conn_wired c" using stream_next.IH [OF stream_next.prems(1,2) len] by (simp add: y)
  ultimately show ?case
    using stream_step_wired [OF stream_next.hyps(2) [unfolded y z]] stream_next.prems(4) by (simp add: z)
qed simp

lemma conn_open_wired:
  assumes "conn_open virt session_callbacks remote (conn_set_service_loop (connection_new p ()) l) L = Inr (c, L')"
  shows "conn_wired c"
  using assms
  by (auto simp: conn_open_def session_callbacks_def Let_def bind_exec_eq_Inr register_event_def conn_wired_def)

text \<open>
  Claim C12. Every message comes back: from any state of client and echo server on epoll in which the connection is alive, once
  the client pauses, the server has after finitely many rounds of its loop (two for every byte not yet handed to it, one for every
  byte in its buffer) put everything the client sent, and nothing else, on the way back; no call aborts. It holds for any pieces in
  which the network delivers and the kernel takes the bytes, as long as each reported event moves at least
  one and no full piece is followed by an error.
\<close>

theorem echo_completes:
  assumes "client_start aton resolve le os junk st = Inr (cl, st')"
    and "in_sync L" "on_epoll L" "get_fd remote \<notin> live_keys (sl_handlers L)"
    and "conn_open virt session_callbacks remote (conn_set_service_loop (connection_new p ()) l) L = Inr (c0, L0)"
    and "link_reachable (link_start cl c0 L0) k" "int (length (cl_sent (lk_client k))) \<le> INT_MAX"
    and "lk_server k = (c, L1, heard, given)" "cn_live c" "mods_reliable L1"
    and "\<And>i up. up \<noteq> [] \<Longrightarrow> delivers (deliver i up) up"
    and "\<And>i m. 0 < m \<Longrightarrow> send_script m (take_out i m) \<and> takes_some (take_out i m)"
  shows "\<exists>k'. serve deliver take_out 0 (2 * length (lk_up k) + sb_length (cn_out c)) k = Inr k' \<and>
    lk_client k' = lk_client k \<and> lk_up k' = [] \<and> sb_to_string (cn_out (fst (lk_server k'))) = [] \<and>
    cl_sent (lk_client k) = cl_received (lk_client k) @ lk_down k'"
proof -
  have "cn_sent (conn_set_service_loop (connection_new p ()) l) = []" by (simp add: conn_set_service_loop_def connection_new_def)
  note o = opened_stream_ok [OF session_quiet assms(2-4) this assms(5)]
  have "cl_sent cl = []" "cl_received cl = []" using assms(1) by (auto simp: client_start_def bind_exec_eq_Inr)
  moreover have "cn_sent c0 = []" using o(1) by (simp add: stream_ok_def)
  ultimately have "link_ok (link_start cl c0 L0)" by (simp add: link_ok_def link_start_def)
  from link_reachable_ok [OF assms(6) this] have link: "link_ok k" .
  from link_server_reachable [OF assms(6)] assms(8)
  have r: "stream_reachable session_callbacks (c0, L0, [], []) (c, L1, heard, given)" by (simp add: link_start_def)
  have "echo_ok (c0, L0, [], [])" using o(2) by (simp add: echo_ok_def)
  from echo_reachable_ok [OF r this] have e: "echo_ok (c, L1, heard, given)" .
  have len: "int (length given) \<le> INT_MAX" using link e assms(7,8) by (simp add: link_ok_def echo_ok_def)
  from stream_reachable_ok [OF r o(1) session_sends] len have "stream_ok (c, L1, heard, given)" by simp
  moreover from stream_reachable_wired [OF r o(1)] conn_open_wired [OF assms(5)] len assms(9) have "conn_wired c" by simp
  ultimately have "serving k" using link assms(7,8,10) e by (simp add: serving_def)
  moreover have "weight k \<le> 2 * length (lk_up k) + sb_length (cn_out c)" by (simp add: weight_def assms(8))
  ultimately obtain k' where k': "serve deliver take_out 0 (2 * length (lk_up k) + sb_length (cn_out c)) k = Inr k'"
    "serving k'" "weight k' = 0" "lk_client k' = lk_client k"
    using serve_completes [of deliver take_out, OF assms(11,12)] by blast
  obtain c' L' heard' given' where srv: "lk_server k' = (c', L', heard', given')" by (metis prod_cases4)
  have none: "lk_up k' = []" "sb_to_string (cn_out c') = []"
    using k'(3) srv by (simp_all add: weight_def sb_length_def sb_to_string_def)
  note s = servingD [OF k'(2) srv]
  have "link_ok k'" using k'(2) by (simp add: serving_def)
  with s(6,7) none srv k'(4) have "cl_sent (lk_client k) = cl_received (lk_client k) @ lk_down k'" by (simp add: link_ok_def)
  with k'(1,4) none srv show ?thesis by auto
qed

text \<open>
  The client has sent its message; the network delivers it in pieces of at most five bytes, and the kernel takes
  one byte per event.
\<close>

lemma conn_open_reliable:
  assumes "conn_open virt session_callbacks remote c0 L = Inr (c, L')" "mods_reliable L"
  shows "mods_reliable L'"
proof -
  from assms(1) obtain h p where "register_event virt L h True False p = Inr (0, L')"
    by (auto simp: conn_open_def session_callbacks_def Let_def bind_exec_eq_Inr)
  from register_event_handlers [OF this] obtain d d' ok where
    "sl_dispatcher L = Some d" "virt_add d h True False = Inr (ok, d')" "sl_dispatcher L' = Some d'" by (auto split: if_splits)
  with assms(2) show ?thesis
    by (auto simp: mods_reliable_def epoll_add_event_def epoll_count_inc_def bind_exec_eq_Inr Let_def split: if_splits)
qed

lemma epoll_empty_reliable: "mods_reliable (empty_loop epoll_empty)"
  by (simp add: mods_reliable_def empty_loop_def epoll_empty_def sample_ctl_def)

definition sent_round :: "link_event list" where
  "sent_round = [Client_Sends (Send_Count 13)]"

lemma sent_round_obtain:
  obtains cl st c0 L0 k where
    "client_start (\<lambda>s. Some 16777343) (\<lambda>s. Inl 1) True client_os zero_sockaddr sample_net = Inr (cl, st)"
    "conn_open virt session_callbacks peer_address new_session (empty_loop epoll_empty) = Inr (c0, L0)"
    "run_link sent_round (link_start cl c0 L0) = Inr k" "cl_sent (lk_client k) = hello @ [0]" "cl_received (lk_client k) = []"
    "lk_up k = hello @ [0]" "cn_live c0" "sb_length (cn_out c0) = 0"
proof -
  have "case started_link of Inl e \<Rightarrow> False
    | Inr k0 \<Rightarrow> cn_live (fst (lk_server k0)) \<and> sb_length (cn_out (fst (lk_server k0))) = 0 \<and> (case run_link sent_round k0 of Inl e \<Rightarrow> False
    | Inr k \<Rightarrow> cl_sent (lk_client k) = hello @ [0] \<and> cl_received (lk_client k) = [] \<and> lk_up k = hello @ [0])"
    by code_simp
  then show ?thesis using that
    by (fastforce simp: started_link_def opened_session_def link_start_def bind_exec_def split: sum.splits prod.splits)
qed

theorem echo_completes_witness:
  "\<exists>k k'. serve (\<lambda>i up. [Recv_Data (take 5 up)]) (\<lambda>i m. [Send_Count 1, Send_Error EWOULDBLOCK]) 0 26 k = Inr k' \<and>
     cl_received (lk_client k') = [] \<and> lk_down k' = hello @ [0]"
proof -
  let ?deliver = "\<lambda>i up. [Recv_Data (take 5 up)]" and ?take_out = "\<lambda>i m. [Send_Count 1, Send_Error EWOULDBLOCK]"
  obtain cl st c0 L0 k where k:
    "client_start (\<lambda>s. Some 16777343) (\<lambda>s. Inl 1) True client_os zero_sockaddr sample_net = Inr (cl, st)"
    "conn_open virt session_callbacks peer_address new_session (empty_loop epoll_empty) = Inr (c0, L0)"
    "run_link sent_round (link_start cl c0 L0) = Inr k" "cl_sent (lk_client k) = hello @ [0]" "cl_received (lk_client k) = []"
    "lk_up k = hello @ [0]" "cn_live c0" "sb_length (cn_out c0) = 0" by (rule sent_round_obtain)
  have r: "link_reachable (link_start cl c0 L0) k" by (rule run_link_reachable [OF k(3) link_begin])
  have srv: "lk_server k = (c0, L0, [], [])"
    using k(3) by (auto simp: sent_round_def link_start_def bind_exec_eq_Inr split: if_splits)
  have len: "int (length (cl_sent (lk_client k))) \<le> INT_MAX" by (simp add: k(4) hello_facts INT_MAX_def)
  have dl: "delivers (?deliver i up) up" if "up \<noteq> []" for i :: nat and up :: bytes
  proof -
    have "up = take 5 up @ drop 5 up" by simp
    then show ?thesis using that unfolding delivers_def by (auto simp: RECV_LEN_def intro!: exI [of _ "drop 5 up"])
  qed
  have tk: "send_script m (?take_out i m) \<and> takes_some (?take_out i m)" if "0 < m" for i m :: nat
    using that by (simp add: errno_defs)
  from echo_completes [OF k(1) epoll_empty_loop k(2) [unfolded new_session_def] r len srv k(7)
      conn_open_reliable [OF k(2) epoll_empty_reliable] dl tk]
  obtain k' where "serve ?deliver ?take_out 0 (2 * length (lk_up k) + sb_length (cn_out c0)) k = Inr k'"
    "lk_client k' = lk_client k" "cl_sent (lk_client k) = cl_received (lk_client k) @ lk_down k'" by blast
  with k(4-6,8) show ?thesis by (intro exI [of _ k] exI [of _ k']) (simp add: hello_facts)
qed

end
