(* ===== verification/Loop_Thread.thy ===== *)
theory Loop_Thread
  imports Thread_Queue
begin

text \<open>
  \<^verbatim>\<open>src/net/service_loop_thread.cc\<close> over \<^verbatim>\<open>src/base/posix_thread.h\<close> and the condition variable of
  \<^verbatim>\<open>src/base/mutex_lock.h\<close>: the thread that owns a \<^verbatim>\<open>ServiceLoop\<close>, as the interleaving of the
  thread that calls \<^verbatim>\<open>start_loop\<close> (and later the destructor) with \<^verbatim>\<open>thread_routine\<close>.
\<close>

section \<open>Creating and joining threads\<close>

text \<open>
  \<^verbatim>\<open>pthread_create\<close> answers a code, and the thread's id when the code is 0. The heap-allocated
  \<^verbatim>\<open>ThreadHelper\<close> carries the object and the member function into the new thread, which frees
  it before the call.
\<close>

record ('o, 'm) thread_helper =
  th_obj :: 'o
  th_mf :: 'm

definition create_thread :: "int \<Rightarrow> nat \<Rightarrow> nat exec" where
  "create_thread rc thread_id = bind_exec (check (rc = 0) Process_Exit) (\<lambda>_. Inr thread_id)"

definition thread_create ::
  "int \<Rightarrow> nat \<Rightarrow> 'o \<Rightarrow> 'm \<Rightarrow> (nat \<times> ('o, 'm) thread_helper) exec" where
  "thread_create rc thread_id obj mf =
     (let p = \<lparr>th_obj = obj, th_mf = mf\<rparr> in
      bind_exec (check (rc = 0) Process_Exit) (\<lambda>_. Inr (thread_id, p)))"

definition thread_function :: "('o \<Rightarrow> 'm \<Rightarrow> 's \<Rightarrow> 's exec) \<Rightarrow> ('o, 'm) thread_helper \<Rightarrow> 's \<Rightarrow> 's exec" where
  "thread_function call p s = (let obj = th_obj p; mf = th_mf p in call obj mf s)"

text \<open>\<^verbatim>\<open>pthread_join\<close> returns when the thread has ended.\<close>

definition join_thread :: "bool \<Rightarrow> unit exec" where
  "join_thread ended = (if ended then Inr () else Inl Pending)"

lemma join_thread_eq [simp]: "join_thread ended = Inr u \<longleftrightarrow> ended"
  by (simp add: join_thread_def)

section \<open>The two threads of a ServiceLoopThread\<close>

text \<open>
  The caller: inside \<^verbatim>\<open>start_loop\<close> (before the creation, at the \<^verbatim>\<open>while\<close> test, between the test and
  the wait, inside \<^verbatim>\<open>pthread_cond_wait\<close>, woken and taking the mutex), after it returned, and
  inside the destructor (\<^verbatim>\<open>quit\<close> has stored its flag; \<^verbatim>\<open>quit\<close> is done; the join returned).
\<close>

datatype caller_pc =
    C_Start
  | C_Test
  | C_Enter_Wait
  | C_Waiting
  | C_Woken
  | C_Returned ptr
  | C_Quit_Stored
  | C_Joining
  | C_Destroyed

text \<open>\<^verbatim>\<open>thread_routine\<close>: before each of its actions.\<close>

datatype routine_pc =
    R_None
  | R_Construct
  | R_Lock
  | R_Store
  | R_Notify
  | R_Unlock
  | R_Run
  | R_Ended

datatype owner = Caller | Routine

text \<open>
  \<open>lt_alive\<close>: the loop object, a local of \<^verbatim>\<open>thread_routine\<close>, exists. Ghosts: \<open>lt_unowned_wait\<close>
  records a \<^verbatim>\<open>pthread_cond_wait\<close> by a thread that does not hold the mutex (undefined by POSIX),
  \<open>lt_bad_access\<close> a use of the loop object while it does not exist.
\<close>

record loop_thread =
  lt_loop :: ptr
  lt_caller :: caller_pc
  lt_routine :: routine_pc
  lt_mutex :: "owner option"
  lt_alive :: bool
  lt_quit :: bool
  lt_unowned_wait :: bool
  lt_bad_access :: bool

definition loop_thread_new :: loop_thread where
  "loop_thread_new = \<lparr>lt_loop = NULL, lt_caller = C_Start, lt_routine = R_None, lt_mutex = None, lt_alive = False,
     lt_quit = False, lt_unowned_wait = False, lt_bad_access = False\<rparr>"

text \<open>
  One step of either thread; \<open>p\<close> is the address of the local loop. A notification wakes the
  caller only when it is already waiting; \<^verbatim>\<open>pthread_cond_wait\<close> returns with the mutex held, and
  \<^verbatim>\<open>start_loop\<close> never releases it. \<^verbatim>\<open>run\<close> returns once it sees the quit flag, and the loop object
  dies with \<^verbatim>\<open>thread_routine\<close>.
\<close>

inductive lt_step :: "ptr \<Rightarrow> loop_thread \<Rightarrow> loop_thread \<Rightarrow> bool" for p where
  lt_create: "lt_caller s = C_Start \<Longrightarrow> lt_step p s (s\<lparr>lt_caller := C_Test, lt_routine := R_Construct\<rparr>)"
| lt_test_set: "lt_caller s = C_Test \<Longrightarrow> lt_loop s \<noteq> NULL \<Longrightarrow> lt_step p s (s\<lparr>lt_caller := C_Returned (lt_loop s)\<rparr>)"
| lt_test_null: "lt_caller s = C_Test \<Longrightarrow> lt_loop s = NULL \<Longrightarrow> lt_step p s (s\<lparr>lt_caller := C_Enter_Wait\<rparr>)"
| lt_wait: "lt_caller s = C_Enter_Wait \<Longrightarrow>
    lt_step p s (s\<lparr>lt_caller := C_Waiting, lt_unowned_wait := (lt_unowned_wait s \<or> lt_mutex s \<noteq> Some Caller),
      lt_mutex := (if lt_mutex s = Some Caller then None else lt_mutex s)\<rparr>)"
| lt_relock: "lt_caller s = C_Woken \<Longrightarrow> lt_mutex s = None \<Longrightarrow>
    lt_step p s (s\<lparr>lt_caller := C_Test, lt_mutex := Some Caller\<rparr>)"
| lt_construct: "lt_routine s = R_Construct \<Longrightarrow> lt_step p s (s\<lparr>lt_routine := R_Lock, lt_alive := True\<rparr>)"
| lt_lock: "lt_routine s = R_Lock \<Longrightarrow> lt_mutex s = None \<Longrightarrow>
    lt_step p s (s\<lparr>lt_routine := R_Store, lt_mutex := Some Routine\<rparr>)"
| lt_store: "lt_routine s = R_Store \<Longrightarrow> lt_step p s (s\<lparr>lt_routine := R_Notify, lt_loop := p\<rparr>)"
| lt_notify: "lt_routine s = R_Notify \<Longrightarrow>
    lt_step p s (s\<lparr>lt_routine := R_Unlock, lt_caller := (if lt_caller s = C_Waiting then C_Woken else lt_caller s)\<rparr>)"
| lt_unlock: "lt_routine s = R_Unlock \<Longrightarrow> lt_step p s (s\<lparr>lt_routine := R_Run, lt_mutex := None\<rparr>)"
| lt_run_ends: "lt_routine s = R_Run \<Longrightarrow> lt_quit s \<Longrightarrow> lt_step p s (s\<lparr>lt_routine := R_Ended, lt_alive := False\<rparr>)"
| lt_quit_store: "lt_caller s = C_Returned q \<Longrightarrow>
    lt_step p s (s\<lparr>lt_caller := C_Quit_Stored, lt_quit := True, lt_bad_access := (lt_bad_access s \<or> \<not> lt_alive s)\<rparr>)"
| lt_quit_wakeup: "lt_caller s = C_Quit_Stored \<Longrightarrow>
    lt_step p s (s\<lparr>lt_caller := C_Joining, lt_bad_access := (lt_bad_access s \<or> \<not> lt_alive s)\<rparr>)"
| lt_join: "lt_caller s = C_Joining \<Longrightarrow> join_thread (lt_routine s = R_Ended) = Inr () \<Longrightarrow> lt_step p s (s\<lparr>lt_caller := C_Destroyed\<rparr>)"

text \<open>
  The steps that use the mutex and the condition variable are the operations of the theory \<open>Mutex_Lock\<close>: the
  caller is thread 0, the routine thread 1, and the woken caller is the thread that is chosen.
\<close>

fun thread_number :: "owner \<Rightarrow> nat" where
  "thread_number Caller = 0"
| "thread_number Routine = 1"

definition lt_monitor :: "loop_thread \<Rightarrow> condition_var \<times> pthread_mutex" where
  "lt_monitor s =
     (\<lparr>cv_waiting = (if lt_caller s = C_Waiting then [0] else []), cv_woken = (if lt_caller s = C_Woken then [0] else [])\<rparr>,
      \<lparr>pm_alive = True, pm_owner = map_option thread_number (lt_mutex s)\<rparr>)"

lemma thread_number_inject [simp]: "thread_number a = 0 \<longleftrightarrow> a = Caller" "thread_number a = Suc 0 \<longleftrightarrow> a = Routine"
  by (cases a; simp)+

lemma lt_step_monitor:
  assumes "lt_step p s t" "lt_caller t = C_Waiting \<and> lt_caller s \<noteq> C_Waiting \<or> lt_caller s = C_Woken \<and> lt_caller t = C_Test \<or>
    lt_routine s \<in> {R_Lock, R_Notify, R_Unlock} \<and> lt_routine t \<noteq> lt_routine s"
  shows "(case (lt_monitor s, lt_monitor t) of ((c, m), (c', m')) \<Rightarrow>
    (c', m') = cond_wait_begin 0 (c, m) \<or> cond_wait_end 0 0 (c, m) = Inr (c', m') \<or>
    mutex_lock 0 1 m = Inr m' \<and> c' = c \<or> cond_notify 0 0 c = Inr c' \<and> m' = m \<or> mutex_unlock 0 m = Inr m' \<and> c' = c)"
  using assms
  by cases (auto simp: lt_monitor_def cond_wait_begin_def cond_wait_end_def mutex_lock_def mutex_unlock_def cond_notify_def)

text \<open>POSIX also lets a wait return for no reason.\<close>

inductive lt_spurious :: "loop_thread \<Rightarrow> loop_thread \<Rightarrow> bool" where
  lt_wake_up: "lt_caller s = C_Waiting \<Longrightarrow> lt_spurious s (s\<lparr>lt_caller := C_Woken\<rparr>)"

inductive lt_reachable :: "ptr \<Rightarrow> loop_thread \<Rightarrow> bool" for p where
  lt_begin: "lt_reachable p loop_thread_new"
| lt_next: "lt_reachable p s \<Longrightarrow> lt_step p s t \<Longrightarrow> lt_reachable p t"
| lt_spur: "lt_reachable p s \<Longrightarrow> lt_spurious s t \<Longrightarrow> lt_reachable p t"

text \<open>Steps of the program alone.\<close>

inductive lt_steps :: "ptr \<Rightarrow> loop_thread \<Rightarrow> loop_thread \<Rightarrow> bool" for p s where
  lt_refl: "lt_steps p s s"
| lt_more: "lt_steps p s t \<Longrightarrow> lt_step p t u \<Longrightarrow> lt_steps p s u"

inductive_cases lt_stepE: "lt_step p s t"

lemma lt_steps_reachable: "lt_steps p s t \<Longrightarrow> lt_reachable p s \<Longrightarrow> lt_reachable p t"
  by (induction rule: lt_steps.induct) (auto intro: lt_next)

section \<open>The invariant\<close>

fun in_start_loop :: "caller_pc \<Rightarrow> bool" where
  "in_start_loop (C_Returned q) = False"
| "in_start_loop C_Quit_Stored = False"
| "in_start_loop C_Joining = False"
| "in_start_loop C_Destroyed = False"
| "in_start_loop _ = True"

fun caller_ok :: "ptr \<Rightarrow> loop_thread \<Rightarrow> caller_pc \<Rightarrow> bool" where
  "caller_ok p s C_Start = (lt_routine s = R_None \<and> lt_mutex s = None)"
| "caller_ok p s C_Waiting = lt_unowned_wait s"
| "caller_ok p s C_Woken = lt_unowned_wait s"
| "caller_ok p s (C_Returned q) = (q = p \<and> lt_loop s = p)"
| "caller_ok p s C_Quit_Stored = (lt_loop s = p)"
| "caller_ok p s C_Joining = (lt_loop s = p)"
| "caller_ok p s C_Destroyed = (lt_loop s = p)"
| "caller_ok p s _ = True"

definition lt_inv :: "ptr \<Rightarrow> loop_thread \<Rightarrow> bool" where
  "lt_inv p s \<longleftrightarrow> caller_ok p s (lt_caller s) \<and>
     (lt_loop s = (if lt_routine s \<in> {R_None, R_Construct, R_Lock, R_Store} then NULL else p)) \<and>
     (lt_alive s = (lt_routine s \<notin> {R_None, R_Construct, R_Ended})) \<and>
     (lt_quit s \<longrightarrow> \<not> in_start_loop (lt_caller s)) \<and>
     (\<not> in_start_loop (lt_caller s) \<and> \<not> lt_quit s \<longrightarrow> (\<exists>q. lt_caller s = C_Returned q)) \<and>
     (lt_quit s \<longrightarrow> (\<forall>q. lt_caller s \<noteq> C_Returned q)) \<and>
     (lt_routine s = R_Ended \<longrightarrow> lt_quit s) \<and>
     (lt_mutex s = Some Caller \<longrightarrow> lt_unowned_wait s \<and> lt_caller s \<noteq> C_Start)"

lemma lt_inv_step: "lt_step p s t \<Longrightarrow> lt_inv p s \<Longrightarrow> lt_inv p t"
  by (erule lt_stepE; cases "lt_caller s"; auto simp: lt_inv_def split: if_splits)

lemma lt_inv_spurious: "lt_spurious s t \<Longrightarrow> lt_inv p s \<Longrightarrow> lt_inv p t"
  by (erule lt_spurious.cases) (auto simp: lt_inv_def)

lemma lt_reachable_inv: "lt_reachable p s \<Longrightarrow> lt_inv p s"
proof (induction rule: lt_reachable.induct)
  case lt_begin
  then show ?case by (simp add: lt_inv_def loop_thread_new_def)
qed (auto dest: lt_inv_step lt_inv_spurious)

section \<open>Properties\<close>

text \<open>
  Claim C22. In every interleaving, when \<^verbatim>\<open>start_loop\<close> returns it returns the address of the thread's loop,
  and the loop object stays alive until the destructor asks it to quit.
\<close>

theorem start_loop_returns_live_loop:
  assumes "lt_reachable p s" "p \<noteq> NULL" "lt_caller s = C_Returned q"
  shows "q = p \<and> lt_alive s \<and> \<not> lt_quit s"
  using lt_reachable_inv [OF assms(1)] assms(2,3) by (auto simp: lt_inv_def)

text \<open>The states of two schedules: the notification first, or the test first.\<close>

definition lt_running :: "ptr \<Rightarrow> loop_thread" where
  "lt_running p = loop_thread_new\<lparr>lt_loop := p, lt_caller := C_Test, lt_routine := R_Run, lt_alive := True\<rparr>"

definition lt_missed :: "ptr \<Rightarrow> loop_thread" where
  "lt_missed p = loop_thread_new\<lparr>lt_loop := p, lt_caller := C_Waiting, lt_routine := R_Run, lt_alive := True,
     lt_unowned_wait := True\<rparr>"

lemma lt_routine_runs:
  assumes "lt_reachable p s" "lt_routine s = R_Construct" "lt_mutex s = None" "lt_caller s \<noteq> C_Waiting"
  shows "lt_reachable p (s\<lparr>lt_routine := R_Run, lt_alive := True, lt_loop := p, lt_mutex := None\<rparr>)"
proof -
  let ?s1 = "s\<lparr>lt_routine := R_Lock, lt_alive := True\<rparr>"
  let ?s2 = "?s1\<lparr>lt_routine := R_Store, lt_mutex := Some Routine\<rparr>"
  let ?s3 = "?s2\<lparr>lt_routine := R_Notify, lt_loop := p\<rparr>"
  let ?s4 = "?s3\<lparr>lt_routine := R_Unlock, lt_caller := (if lt_caller ?s3 = C_Waiting then C_Woken else lt_caller ?s3)\<rparr>"
  have 1: "lt_reachable p ?s1" by (rule lt_next [OF assms(1) lt_construct [OF assms(2)]])
  have 2: "lt_reachable p ?s2" by (rule lt_next [OF 1 lt_lock]) (simp_all add: assms(3))
  have 3: "lt_reachable p ?s3" by (rule lt_next [OF 2 lt_store]) simp
  have 4: "lt_reachable p ?s4" by (rule lt_next [OF 3 lt_notify]) simp
  have 5: "lt_reachable p (?s4\<lparr>lt_routine := R_Run, lt_mutex := None\<rparr>)" by (rule lt_next [OF 4 lt_unlock]) simp
  have "?s4\<lparr>lt_routine := R_Run, lt_mutex := None\<rparr> = s\<lparr>lt_routine := R_Run, lt_alive := True, lt_loop := p, lt_mutex := None\<rparr>"
    using assms(4) by simp
  with 5 show ?thesis by simp
qed

lemma lt_created: "lt_reachable p (loop_thread_new\<lparr>lt_caller := C_Test, lt_routine := R_Construct\<rparr>)"
  by (rule lt_next [OF lt_begin lt_create]) (simp add: loop_thread_new_def)

lemma lt_running_reachable: "lt_reachable p (lt_running p)"
  using lt_routine_runs [OF lt_created] by (simp add: lt_running_def loop_thread_new_def)

lemma lt_missed_reachable: "lt_reachable p (lt_missed p)"
proof -
  have "lt_reachable p (loop_thread_new\<lparr>lt_caller := C_Enter_Wait, lt_routine := R_Construct\<rparr>)"
    using lt_next [OF lt_created lt_test_null] by (simp add: loop_thread_new_def)
  from lt_routine_runs [OF this]
  have "lt_reachable p (loop_thread_new\<lparr>lt_caller := C_Enter_Wait, lt_routine := R_Run, lt_alive := True, lt_loop := p\<rparr>)"
    by (simp add: loop_thread_new_def)
  from lt_next [OF this lt_wait] show ?thesis by (simp add: lt_missed_def loop_thread_new_def)
qed

theorem start_loop_returns_live_loop_witness:
  "lt_alive (lt_running 9\<lparr>lt_caller := C_Returned 9\<rparr>)"
proof -
  have "lt_reachable 9 (lt_running 9\<lparr>lt_caller := C_Returned 9\<rparr>)"
    using lt_next [OF lt_running_reachable lt_test_set, of 9] by (simp add: lt_running_def loop_thread_new_def)
  from start_loop_returns_live_loop [OF this] show ?thesis by simp
qed

text \<open>
  Claim C37. \<^verbatim>\<open>start_loop\<close> can hang for ever: it waits on the condition variable without holding the
  mutex (every wait is such a wait, which POSIX leaves undefined), so the notification can fall
  between its test and its wait; from then on no step of the program wakes it.
\<close>

theorem start_loop_lost_wakeup:
  "lt_reachable p (lt_missed p) \<and> lt_caller (lt_missed p) = C_Waiting \<and>
   (\<forall>s. lt_steps p (lt_missed p) s \<longrightarrow> lt_caller s = C_Waiting) \<and>
   (\<forall>s. lt_reachable p s \<and> lt_caller s = C_Waiting \<longrightarrow> lt_unowned_wait s)"
proof (intro conjI allI impI)
  fix s
  assume "lt_steps p (lt_missed p) s"
  then have "lt_caller s = C_Waiting \<and> lt_routine s = R_Run \<and> \<not> lt_quit s"
  proof (induction rule: lt_steps.induct)
    case lt_refl
    show ?case by (simp add: lt_missed_def loop_thread_new_def)
  next
    case (lt_more t u)
    from lt_more.hyps(2) lt_more.IH show ?case by cases auto
  qed
  then show "lt_caller s = C_Waiting" by simp
next
  fix s
  assume "lt_reachable p s \<and> lt_caller s = C_Waiting"
  with lt_reachable_inv [of p s] show "lt_unowned_wait s" by (auto simp: lt_inv_def)
qed (simp_all add: lt_missed_reachable, simp add: lt_missed_def)

theorem start_loop_lost_wakeup_witness:
  "lt_reachable 9 (lt_missed 9) \<and> lt_unowned_wait (lt_missed 9)"
  using start_loop_lost_wakeup [of 9] by auto

text \<open>
  The destructor races with the thread it stops: \<^verbatim>\<open>quit\<close> stores the flag and then uses the
  loop's wakeup handler, but the thread may already have seen the flag, returned from \<^verbatim>\<open>run\<close> and
  destroyed the loop. When the thread is slower than that, the destructor uses a live loop.
\<close>

theorem quit_races_with_loop_destruction:
  assumes "p \<noteq> NULL"
  shows "(\<exists>s. lt_reachable p s \<and> lt_caller s = C_Joining \<and> lt_routine s = R_Ended \<and> lt_bad_access s) \<and>
    (\<exists>s. lt_reachable p s \<and> lt_caller s = C_Destroyed \<and> \<not> lt_bad_access s)"
proof -
  let ?s0 = "lt_running p"
  let ?s1 = "?s0\<lparr>lt_caller := C_Returned p\<rparr>"
  let ?s2 = "?s1\<lparr>lt_caller := C_Quit_Stored, lt_quit := True\<rparr>"
  let ?bad = "?s2\<lparr>lt_routine := R_Ended, lt_alive := False, lt_caller := C_Joining, lt_bad_access := True\<rparr>"
  let ?good = "?s2\<lparr>lt_caller := C_Joining, lt_routine := R_Ended, lt_alive := False\<rparr>"
  note d = lt_running_def loop_thread_new_def
  have 1: "lt_reachable p ?s1" using lt_next [OF lt_running_reachable lt_test_set] assms by (simp add: d)
  have 2: "lt_reachable p ?s2" using lt_next [OF 1 lt_quit_store] by (simp add: d)
  have "lt_reachable p (?s2\<lparr>lt_routine := R_Ended, lt_alive := False\<rparr>)" using lt_next [OF 2 lt_run_ends] by (simp add: d)
  from lt_next [OF this lt_quit_wakeup] have bad: "lt_reachable p ?bad" by (simp add: d)
  have "lt_reachable p (?s2\<lparr>lt_caller := C_Joining\<rparr>)" using lt_next [OF 2 lt_quit_wakeup] by (simp add: d)
  from lt_next [OF this lt_run_ends] have "lt_reachable p ?good" by (simp add: d)
  from lt_next [OF this lt_join] have good: "lt_reachable p (?good\<lparr>lt_caller := C_Destroyed\<rparr>)" by (simp add: d)
  have "\<exists>s. lt_reachable p s \<and> lt_caller s = C_Joining \<and> lt_routine s = R_Ended \<and> lt_bad_access s"
    using bad by (intro exI [of _ ?bad]) simp
  moreover have "\<exists>s. lt_reachable p s \<and> lt_caller s = C_Destroyed \<and> \<not> lt_bad_access s"
    using good by (intro exI [of _ "?good\<lparr>lt_caller := C_Destroyed\<rparr>"]) (simp add: d)
  ultimately show ?thesis by blast
qed

theorem quit_races_with_loop_destruction_witness:
  "\<exists>s. lt_reachable 9 s \<and> lt_caller s = C_Joining \<and> lt_bad_access s"
  using quit_races_with_loop_destruction [of 9] by auto

end
