(* ===== verification/Thpool.thy ===== *)
theory Thpool
  imports Loop_Thread
begin

text \<open>
  \<^verbatim>\<open>src/net/thpool_service_loop.cc\<close> and \<^verbatim>\<open>.h\<close>: the pool of loop threads and its round-robin
  choice. A pool's threads are their addresses; \<open>start i\<close> is the \<open>i\<close>-th new \<^verbatim>\<open>ServiceLoopThread\<close>
  with the loop its \<^verbatim>\<open>start_loop\<close> returned (see \<open>Loop_Thread\<close>).
\<close>

record thpool =
  tp_thread_num :: int
  tp_base_loop :: ptr
  tp_loop_threads :: "ptr list"
  tp_ev_loops :: "ptr list"

definition thpool_new :: "ptr \<Rightarrow> thpool" where
  "thpool_new baseloop = \<lparr>tp_thread_num = 0, tp_base_loop = baseloop, tp_loop_threads = [], tp_ev_loops = []\<rparr>"

definition set_thread_num :: "thpool \<Rightarrow> int \<Rightarrow> thpool" where
  "set_thread_num tp n = (if n > 0 then tp\<lparr>tp_thread_num := n\<rparr> else tp)"

text \<open>The loop of \<^verbatim>\<open>open\<close>, \<open>k\<close> rounds before its end.\<close>

fun thpool_open_loop :: "(nat \<Rightarrow> ptr \<times> ptr) \<Rightarrow> nat \<Rightarrow> nat \<Rightarrow> thpool \<Rightarrow> thpool" where
  "thpool_open_loop start i 0 tp = tp"
| "thpool_open_loop start i (Suc k) tp =
     (let (obj, loop) = start i;
          tp1 = tp\<lparr>tp_ev_loops := tp_ev_loops tp @ [loop]\<rparr>;
          tp2 = tp1\<lparr>tp_loop_threads := tp_loop_threads tp1 @ [obj]\<rparr>
      in thpool_open_loop start (i + 1) k tp2)"

definition thpool_open :: "(nat \<Rightarrow> ptr \<times> ptr) \<Rightarrow> thpool \<Rightarrow> thpool" where
  "thpool_open start tp = thpool_open_loop start 0 (nat (tp_thread_num tp)) tp"

text \<open>\<^verbatim>\<open>close\<close> destroys the threads in order; the first component lists them.\<close>

definition thpool_close :: "thpool \<Rightarrow> ptr list \<times> thpool" where
  "thpool_close tp = (tp_loop_threads tp, tp\<lparr>tp_loop_threads := [], tp_ev_loops := []\<rparr>)"

definition thpool_delete :: "thpool \<Rightarrow> ptr list \<times> thpool" where
  "thpool_delete tp = thpool_close tp"

text \<open>
  \<open>index\<close> is the function's static variable, one for all pools of the process; its increment
  overflows at \<^verbatim>\<open>INT_MAX\<close>. It is never negative, so its conversion to \<^verbatim>\<open>size_t\<close> is its value.
\<close>

definition get_loop :: "thpool \<Rightarrow> int \<Rightarrow> (ptr \<times> int) exec" where
  "get_loop tp index =
     (if tp_ev_loops tp = [] then Inr (tp_base_loop tp, index)
      else
        let loop_count = length (tp_ev_loops tp) in
        bind_exec (check (index < INT_MAX) Signed_Overflow) (\<lambda>_.
          Inr (tp_ev_loops tp ! (nat index mod loop_count), index + 1)))"

text \<open>Successive calls.\<close>

fun get_loops :: "nat \<Rightarrow> thpool \<Rightarrow> int \<Rightarrow> (ptr list \<times> int) exec" where
  "get_loops 0 tp index = Inr ([], index)"
| "get_loops (Suc k) tp index =
     bind_exec (get_loop tp index) (\<lambda>(p, index1).
     bind_exec (get_loops k tp index1) (\<lambda>(ps, index2). Inr (p # ps, index2)))"

section \<open>Facts\<close>

lemma thpool_open_loop_result:
  "thpool_open_loop start i k tp =
     tp\<lparr>tp_ev_loops := tp_ev_loops tp @ map (snd \<circ> start) [i..<i + k],
        tp_loop_threads := tp_loop_threads tp @ map (fst \<circ> start) [i..<i + k]\<rparr>"
proof (induction k arbitrary: i tp)
  case (Suc k)
  have "[i..<i + Suc k] = i # [i + 1..<i + 1 + k]" by (simp add: upt_conv_Cons)
  with Suc show ?case by (simp add: case_prod_beta Let_def)
qed simp

lemma get_loops_result:
  assumes "tp_ev_loops tp \<noteq> []"
  shows "0 \<le> i \<Longrightarrow> i + int k \<le> INT_MAX \<Longrightarrow> get_loops k tp i =
    Inr (map (\<lambda>j. tp_ev_loops tp ! (j mod length (tp_ev_loops tp))) [nat i..<nat i + k], i + int k)"
proof (induction k arbitrary: i)
  case (Suc k)
  have "[nat i..<nat i + Suc k] = nat i # [nat (i + 1)..<nat (i + 1) + k]"
    using Suc.prems by (simp add: upt_conv_Cons nat_add_distrib)
  with Suc assms show ?case by (simp add: get_loop_def)
qed simp

text \<open>How often each residue occurs among the first \<open>k\<close> numbers.\<close>

lemma residue_count:
  assumes "0 < n" "r < n"
  shows "length (filter (\<lambda>j. j mod n = r) [0..<k]) = k div n + (if r < k mod n then 1 else 0)"
proof (induction k)
  case (Suc k)
  show ?case
  proof (cases "Suc (k mod n) = n")
    case True
    then have "Suc k div n = Suc (k div n)" "Suc k mod n = 0" by (simp_all add: div_Suc mod_Suc)
    with Suc True assms show ?thesis by auto
  next
    case False
    then have "Suc k div n = k div n" "Suc k mod n = Suc (k mod n)" by (simp_all add: div_Suc mod_Suc)
    with Suc show ?thesis by auto
  qed
qed simp

section \<open>Properties\<close>

text \<open>
  Claim C33. \<^verbatim>\<open>get_loop\<close> is a fair round robin: the first \<open>k\<close> calls (up to \<open>2\<^sup>3\<^sup>1 - 1\<close> of them)
  walk through the pool's loops cyclically, so the loops get \<open>k div n\<close> calls each, one more for the
  first \<open>k mod n\<close>; a pool without threads always answers the base loop.
\<close>

theorem get_loop_round_robin:
  assumes "int k \<le> INT_MAX" "n = length (tp_ev_loops tp)" "0 < n" "r < n"
  shows "get_loops k tp 0 = Inr (map (\<lambda>j. tp_ev_loops tp ! (j mod n)) [0..<k], int k) \<and>
    length (filter (\<lambda>j. j mod n = r) [0..<k]) = k div n + (if r < k mod n then 1 else 0) \<and>
    get_loop (tp\<lparr>tp_ev_loops := []\<rparr>) i = Inr (tp_base_loop tp, i)"
proof -
  from assms(2,3) have "tp_ev_loops tp \<noteq> []" by auto
  from get_loops_result [OF this, of 0 k] assms(1,2) residue_count [OF assms(3,4)] show ?thesis
    by (simp add: get_loop_def)
qed

theorem get_loop_round_robin_witness:
  "get_loops 5 ((thpool_new 50)\<lparr>tp_ev_loops := [61, 62]\<rparr>) 0 = Inr ([61, 62, 61, 62, 61], 5)"
  using get_loop_round_robin [of 5 2 "(thpool_new 50)\<lparr>tp_ev_loops := [61, 62]\<rparr>" 0]
  by (simp add: INT_MAX_def upt_rec)

text \<open>
  The counter of \<^verbatim>\<open>get_loop\<close> is never reset: after \<open>2\<^sup>3\<^sup>1 - 1\<close> calls the next call
  overflows a signed \<^verbatim>\<open>int\<close>.
\<close>

theorem get_loop_overflows:
  assumes "tp_ev_loops tp \<noteq> []"
  shows "(\<exists>ps. get_loops (nat INT_MAX) tp 0 = Inr (ps, INT_MAX)) \<and> get_loop tp INT_MAX = Inl Signed_Overflow"
  using get_loops_result [OF assms, of 0 "nat INT_MAX"] assms by (simp add: get_loop_def INT_MAX_def)

theorem get_loop_overflows_witness:
  "get_loop ((thpool_new 50)\<lparr>tp_ev_loops := [61, 62]\<rparr>) INT_MAX = Inl Signed_Overflow"
  using get_loop_overflows [of "(thpool_new 50)\<lparr>tp_ev_loops := [61, 62]\<rparr>"] by simp

text \<open>
  Opening a new pool starts exactly the requested number of threads and keeps one loop per thread,
  in the same order (none when the number was not positive); closing destroys every started thread
  exactly once and leaves the pool as it was before.
\<close>

theorem thpool_open_close:
  "tp_loop_threads (thpool_open start (set_thread_num (thpool_new base) n)) = map (fst \<circ> start) [0..<nat n] \<and>
   tp_ev_loops (thpool_open start (set_thread_num (thpool_new base) n)) = map (snd \<circ> start) [0..<nat n] \<and>
   thpool_close (thpool_open start (set_thread_num (thpool_new base) n)) =
     (map (fst \<circ> start) [0..<nat n], set_thread_num (thpool_new base) n)"
  by (simp add: thpool_open_def thpool_open_loop_result thpool_close_def set_thread_num_def thpool_new_def)

end
