(* ===== verification/Acceptor_Server.thy ===== *)
theory Acceptor_Server
  imports Connection Acceptor Thpool
begin

text \<open>
  The acceptor of the multi-threaded server, \<^verbatim>\<open>src/example/acceptor_server.cc\<close>, and the callbacks of
  its connections, \<^verbatim>\<open>src/example/service_handler.cc\<close>, each as one thread executes it alone; the
  theory \<open>Thread_Server\<close> interleaves them.
\<close>

section \<open>The acceptor and its clients\<close>

text \<open>
  \<^verbatim>\<open>acceptor_server\<close>. A task \<open>(p, addr)\<close> in the queue of a loop is the bound call
  \<^verbatim>\<open>p->open(addr)\<close> (see \<open>bind_class_call\<close> of the theory \<open>Functor\<close>); \<open>as_handlers\<close> are the
  \<^verbatim>\<open>service_handler\<close> objects created, \<open>as_index\<close> the static counter of \<^verbatim>\<open>get_loop\<close>.
\<close>

definition MAX_CLIENT_COUNT :: nat where
  "MAX_CLIENT_COUNT = 1024"

record acceptor_server =
  as_clients :: "ptr list"
  as_pool :: thpool
  as_index :: int
  as_next :: ptr
  as_handlers :: "ptr \<rightharpoonup> unit connection"
  as_queue :: "ptr \<Rightarrow> (ptr \<times> socket_address) list"

text \<open>The constructor: the base class's part, the clients and the pool.\<close>

definition acceptor_server_new :: "ptr \<Rightarrow> ptr \<Rightarrow> acceptor \<times> ptr list \<times> thpool" where
  "acceptor_server_new self loop = (acceptor_new self loop, [], thpool_new loop)"

definition start_thread_pool :: "(nat \<Rightarrow> ptr \<times> ptr) \<Rightarrow> int \<Rightarrow> acceptor_server \<Rightarrow> acceptor_server" where
  "start_thread_pool start thread_num s =
     (let s1 = s\<lparr>as_pool := set_thread_num (as_pool s) thread_num\<rparr> in s1\<lparr>as_pool := thpool_open start (as_pool s1)\<rparr>)"

definition stop_thread_pool :: "acceptor_server \<Rightarrow> ptr list \<times> acceptor_server" where
  "stop_thread_pool s = (let (threads, tp) = thpool_close (as_pool s) in (threads, s\<lparr>as_pool := tp\<rparr>))"

definition server_on_accept :: "socket_address \<Rightarrow> acceptor_server \<Rightarrow> (bool \<times> acceptor_server) exec" where
  "server_on_accept addr s =
     (if length (as_clients s) \<ge> MAX_CLIENT_COUNT then Inr (False, s)
      else
        let p = as_next s; s1 = s\<lparr>as_next := p + 1\<rparr> in
        bind_exec (get_loop (as_pool s1) (as_index s1)) (\<lambda>(loop, index).
          let c = conn_set_service_loop (connection_new p ()) loop;
              s2 = s1\<lparr>as_index := index, as_handlers := (as_handlers s1)(p \<mapsto> c)\<rparr>;
              s3 = s2\<lparr>as_queue := (as_queue s2)(loop := tq_push (as_queue s2 loop) (p, addr))\<rparr>
          in Inr (True, s3\<lparr>as_clients := as_clients s3 @ [p]\<rparr>)))"

text \<open>The scan of \<^verbatim>\<open>remove_handler\<close>, which erases the first match.\<close>

fun erase_client :: "ptr \<Rightarrow> ptr list \<Rightarrow> ptr list" where
  "erase_client p [] = []"
| "erase_client p (q # qs) = (if q = p then qs else q # erase_client p qs)"

definition remove_handler :: "ptr \<Rightarrow> acceptor_server \<Rightarrow> acceptor_server" where
  "remove_handler p s = s\<lparr>as_clients := erase_client p (as_clients s)\<rparr>"

text \<open>
  \<^verbatim>\<open>service_handler\<close>: it answers with a newline appended, uses all its input, and \<^verbatim>\<open>on_close\<close> removes
  it from its acceptor, which is the subclass data here.
\<close>

definition service_callbacks :: "ptr \<Rightarrow> acceptor_server callbacks" where
  "service_callbacks this = \<lparr>on_connect = (\<lambda>remote u. (u, [])),
     on_read = (\<lambda>input u. (u, [Cmd_Send (input @ [10])], int (length input))),
     on_close = (\<lambda>u. remove_handler this u)\<rparr>"

inductive acceptor_server_step :: "acceptor_server \<Rightarrow> acceptor_server \<Rightarrow> bool" where
  as_accept: "server_on_accept addr s = Inr (b, s') \<Longrightarrow> acceptor_server_step s s'"
| as_remove: "acceptor_server_step s (remove_handler p s)"
| as_start: "acceptor_server_step s (start_thread_pool start n s)"
| as_stop: "stop_thread_pool s = (ts, s') \<Longrightarrow> acceptor_server_step s s'"

inductive acceptor_server_reachable :: "acceptor_server \<Rightarrow> bool" where
  as_new: "acceptor_server_reachable \<lparr>as_clients = [], as_pool = thpool_new base, as_index = i, as_next = heap,
     as_handlers = Map.empty, as_queue = (\<lambda>_. [])\<rparr>"
| as_next_step: "acceptor_server_reachable s \<Longrightarrow> acceptor_server_step s t \<Longrightarrow> acceptor_server_reachable t"

lemma erase_client_remove1: "erase_client p qs = remove1 p qs"
  by (induction qs) auto

text \<open>The clients are distinct objects that were created, and there are never more than the limit.\<close>

definition clients_ok :: "acceptor_server \<Rightarrow> bool" where
  "clients_ok s \<longleftrightarrow> length (as_clients s) \<le> MAX_CLIENT_COUNT \<and> distinct (as_clients s) \<and>
     (\<forall>p\<in>set (as_clients s). p < as_next s)"

lemma server_on_accept_facts:
  assumes "server_on_accept addr s = Inr (b, s')"
  shows "if length (as_clients s) \<ge> MAX_CLIENT_COUNT then \<not> b \<and> s' = s
    else b \<and> as_clients s' = as_clients s @ [as_next s] \<and> as_next s' = as_next s + 1 \<and>
      (\<exists>loop. cn_srv_loop (the (as_handlers s' (as_next s))) = loop \<and>
        as_queue s' loop = as_queue s loop @ [(as_next s, addr)] \<and>
        (loop = tp_base_loop (as_pool s) \<or> loop \<in> set (tp_ev_loops (as_pool s))))"
proof (cases "length (as_clients s) \<ge> MAX_CLIENT_COUNT")
  case True
  with assms show ?thesis by (simp add: server_on_accept_def)
next
  case False
  with assms obtain loop index where g: "get_loop (as_pool s) (as_index s) = Inr (loop, index)"
    and s': "b" "s' = s\<lparr>as_next := as_next s + 1, as_index := index,
      as_handlers := (as_handlers s)(as_next s \<mapsto> conn_set_service_loop (connection_new (as_next s) ()) loop),
      as_queue := (as_queue s)(loop := tq_push (as_queue s loop) (as_next s, addr)),
      as_clients := as_clients s @ [as_next s]\<rparr>"
    by (auto simp: server_on_accept_def Let_def bind_exec_eq_Inr)
  from g have "loop = tp_base_loop (as_pool s) \<or> loop \<in> set (tp_ev_loops (as_pool s))"
    by (auto simp: get_loop_def Let_def bind_exec_eq_Inr split: if_splits)
  with s' False show ?thesis by (simp add: conn_set_service_loop_def tq_push_def)
qed

lemma acceptor_server_step_ok: "acceptor_server_step s t \<Longrightarrow> clients_ok s \<Longrightarrow> clients_ok t"
proof (induction rule: acceptor_server_step.induct)
  case (as_accept addr s b s')
  show ?case
  proof (cases "length (as_clients s) \<ge> MAX_CLIENT_COUNT")
    case True
    with server_on_accept_facts [OF as_accept(1)] as_accept(2) show ?thesis by simp
  next
    case False
    with server_on_accept_facts [OF as_accept(1)] as_accept(2) show ?thesis
      by (auto simp: clients_ok_def less_Suc_eq)
  qed
next
  case (as_remove s p)
  have "length (remove1 p (as_clients s)) \<le> length (as_clients s)" by (simp add: length_remove1)
  with as_remove show ?case
    by (auto simp: clients_ok_def remove_handler_def erase_client_remove1 dest: notin_set_remove1 set_remove1_subset [THEN subsetD])
qed (auto simp: clients_ok_def start_thread_pool_def stop_thread_pool_def Let_def thpool_close_def)

lemma acceptor_server_clients_ok: "acceptor_server_reachable s \<Longrightarrow> clients_ok s"
proof (induction rule: acceptor_server_reachable.induct)
  case (as_new base i heap)
  show ?case by (simp add: clients_ok_def)
next
  case (as_next_step s t)
  then show ?case using acceptor_server_step_ok by blast
qed

section \<open>Properties\<close>

text \<open>
  Claim C31. The multi-threaded server never holds more than 1024 clients, all distinct objects it
  created; a connection beyond that is refused (which makes the acceptor close it), any other is
  handed, as a task, to the loop its handler was given; and removing a client removes it only.
\<close>

theorem clients_bounded:
  assumes "acceptor_server_reachable s"
  shows "clients_ok s \<and>
    (server_on_accept addr s = Inr (b, s') \<longrightarrow>
      b = (length (as_clients s) < MAX_CLIENT_COUNT) \<and>
      (b \<longrightarrow> as_clients s' = as_clients s @ [as_next s] \<and>
        (\<exists>loop. as_queue s' loop = as_queue s loop @ [(as_next s, addr)] \<and>
          cn_srv_loop (the (as_handlers s' (as_next s))) = loop))) \<and>
    set (as_clients (remove_handler p s)) = set (as_clients s) - {p}"
proof -
  have ok: "clients_ok s" by (rule acceptor_server_clients_ok [OF assms])
  moreover have "set (as_clients (remove_handler p s)) = set (as_clients s) - {p}"
    using ok by (simp add: clients_ok_def remove_handler_def erase_client_remove1)
  moreover have "b = (length (as_clients s) < MAX_CLIENT_COUNT) \<and>
      (b \<longrightarrow> as_clients s' = as_clients s @ [as_next s] \<and>
        (\<exists>loop. as_queue s' loop = as_queue s loop @ [(as_next s, addr)] \<and>
          cn_srv_loop (the (as_handlers s' (as_next s))) = loop))" if "server_on_accept addr s = Inr (b, s')"
    using server_on_accept_facts [OF that] by (cases "length (as_clients s) \<ge> MAX_CLIENT_COUNT") auto
  ultimately show ?thesis by blast
qed

definition two_loop_server :: acceptor_server where
  "two_loop_server = \<lparr>as_clients = [], as_pool = thpool_open (\<lambda>i. (71 + i, 61 + i)) (set_thread_num (thpool_new 50) 2),
     as_index = 0, as_next = 1000, as_handlers = Map.empty, as_queue = (\<lambda>_. [])\<rparr>"

theorem clients_bounded_witness:
  "\<exists>s'. server_on_accept socket_address_new two_loop_server = Inr (True, s') \<and> as_clients s' = [1000] \<and>
     set (as_clients (remove_handler 7 two_loop_server)) = {}"
proof -
  have "acceptor_server_reachable (start_thread_pool (\<lambda>i. (71 + i, 61 + i)) 2 \<lparr>as_clients = [], as_pool = thpool_new 50,
      as_index = 0, as_next = 1000, as_handlers = Map.empty, as_queue = (\<lambda>_. [])\<rparr>)"
    by (rule as_next_step [OF as_new as_start])
  then have r: "acceptor_server_reachable two_loop_server" by (simp add: start_thread_pool_def two_loop_server_def Let_def)
  have "case server_on_accept socket_address_new two_loop_server of Inl e \<Rightarrow> False | Inr (b, s') \<Rightarrow> b"
    by code_simp
  then obtain s' where s': "server_on_accept socket_address_new two_loop_server = Inr (True, s')"
    by (auto split: sum.splits)
  have "as_clients two_loop_server = []" "as_next two_loop_server = 1000" by (simp_all add: two_loop_server_def)
  with clients_bounded [OF r, of socket_address_new True s' 7] s' show ?thesis by simp
qed

end
