(* ===== verification/Thread_Server.thy ===== *)
theory Thread_Server
  imports Connection_Effects Acceptor_Server
begin

text \<open>
  The multi-threaded server of \<^verbatim>\<open>src/example/example-2.cc\<close> and \<^verbatim>\<open>example-3.cc\<close> as one system: the
  thread of the base loop, which accepts, and the threads of the pool's loops, which run the
  connections, interleaved action by action. What the threads share is the acceptor's client list, the
  pool, the queues of the loops and the heap of the connection objects; an action is a piece of
  code between two accesses to shared data (the queues are locked, see \<open>Thread_Queue\<close>).
\<close>

section \<open>The state\<close>

text \<open>
  \<^verbatim>\<open>acceptor_server::on_accept\<close>, before each of its accesses to shared data: \<^verbatim>\<open>clients_.size()\<close>, the
  creation of the handler, \<^verbatim>\<open>get_loop\<close> (and \<^verbatim>\<open>set_service_loop\<close>), \<^verbatim>\<open>add_run\<close>, \<^verbatim>\<open>push_back\<close>.
\<close>

datatype accept_pc =
    A_Size socket_address
  | A_New socket_address
  | A_Choose socket_address ptr
  | A_Add socket_address ptr ptr
  | A_Push ptr

text \<open>
  A thread inside \<^verbatim>\<open>ServiceLoop::run\<close>: before the test of \<^verbatim>\<open>quit_\<close> and the wait, with the events
  still to be dispatched, inside the acceptor's \<^verbatim>\<open>on_accept\<close>, inside a connection's \<^verbatim>\<open>on_close\<close>
  (before \<^verbatim>\<open>remove_handler\<close>) and before its \<^verbatim>\<open>delete this\<close>, running tasks, at its end. The number is
  the timeout of the next wait.
\<close>

datatype loop_pc =
    L_Wait int
  | L_Dispatch int ready_event_t
  | L_Accept int ready_event_t accept_pc
  | L_Remove int ready_event_t ptr
  | L_Delete int ready_event_t ptr
  | L_Tasks int
  | L_Ended

text \<open>
  \<open>mt_loops\<close> are the loop objects that exist, \<open>mt_handlers\<close> the \<^verbatim>\<open>service_handler\<close> objects, \<open>mt_heap\<close>
  the next address \<^verbatim>\<open>new\<close> returns. A task \<open>(p, addr)\<close> is the bound call \<^verbatim>\<open>p->open(addr)\<close> (see
  \<open>bind_class_call\<close> of the theory \<open>Functor\<close>).
\<close>

type_synonym open_task = "ptr \<times> socket_address"

record mt_server =
  mt_clients :: "ptr list"
  mt_pool :: thpool
  mt_index :: int
  mt_heap :: ptr
  mt_handlers :: "ptr \<rightharpoonup> unit connection"
  mt_loops :: "ptr \<rightharpoonup> (dispatcher, open_task) service_loop"
  mt_pc :: "ptr \<Rightarrow> loop_pc"
  mt_net :: net_state
  mt_acceptor :: acceptor

text \<open>What the system answers during one action.\<close>

record mt_io =
  mo_wait :: os_wait
  mo_accept :: "int + int \<times> sockaddr_in"
  mo_recv :: "recv_answer list"
  mo_send :: "send_answer list"
  mo_eventfd :: "nat list \<Rightarrow> int + nat"

section \<open>Dispatching an event\<close>

text \<open>
  \<^verbatim>\<open>service_handler\<close>: \<^verbatim>\<open>on_read\<close> answers with a newline appended; the body of \<^verbatim>\<open>on_close\<close>, which uses
  shared data, is the action \<open>L_Remove\<close> of the thread.
\<close>

definition service_session :: "unit callbacks" where
  "service_session = \<lparr>on_connect = (\<lambda>remote u. (u, [])),
     on_read = (\<lambda>input u. (u, [Cmd_Send (input @ [10])], int (length input))), on_close = (\<lambda>u. u)\<rparr>"

text \<open>
  What a thread sees of the system while it dispatches: its own loop, the handler objects, the open
  descriptors; and how it goes on after the call.
\<close>

datatype after_call = Go_On | Accepting socket_address | Closing ptr

record loop_view = "(dispatcher, open_task) service_loop" +
  lv_handlers :: "ptr \<rightharpoonup> unit connection"
  lv_net :: net_state
  lv_after :: after_call

definition view_of :: "mt_server \<Rightarrow> (dispatcher, open_task) service_loop \<Rightarrow> loop_view" where
  "view_of s L = \<lparr>sl_quit = sl_quit L, sl_dispatcher = sl_dispatcher L, sl_handlers = sl_handlers L,
     sl_functors = sl_functors L, sl_wakeup = sl_wakeup L,
     lv_handlers = mt_handlers s, lv_net = mt_net s, lv_after = Go_On\<rparr>"

definition loop_of :: "loop_view \<Rightarrow> (dispatcher, open_task) service_loop" where
  "loop_of W = \<lparr>sl_quit = sl_quit W, sl_dispatcher = sl_dispatcher W, sl_handlers = sl_handlers W,
     sl_functors = sl_functors W, sl_wakeup = sl_wakeup W\<rparr>"

text \<open>The acceptor's \<^verbatim>\<open>do_handle_read\<close> up to its call of \<^verbatim>\<open>on_accept\<close>.\<close>

definition accept_begin :: "int + int \<times> sockaddr_in \<Rightarrow> loop_view \<Rightarrow> loop_view" where
  "accept_begin answer W =
     (case answer of
        Inl e \<Rightarrow> W
      | Inr (fd, peer) \<Rightarrow>
          let W1 = W\<lparr>lv_net := (lv_net W)\<lparr>ns_open := insert fd (ns_open (lv_net W))\<rparr>\<rparr> in
          if fd > 0 then W1\<lparr>lv_after := Accepting (set_fd (socket_address_new\<lparr>sa_addr := peer\<rparr>) fd)\<rparr> else W1)"

text \<open>The virtual call on the object at \<open>p\<close>.\<close>

definition mt_invoke :: "mt_io \<Rightarrow> acceptor \<Rightarrow> ptr \<Rightarrow> int \<Rightarrow> loop_view \<Rightarrow> loop_view exec" where
  "mt_invoke io acc p ev W =
     (case sl_wakeup W of
        None \<Rightarrow> Inl Null_Deref
      | Some wk \<Rightarrow>
          if p = wk_self wk then
            (if ev = EVENT_READ
             then bind_exec (wakeup_handle_read (mo_eventfd io) wk) (\<lambda>wk'. Inr (W\<lparr>sl_wakeup := Some wk'\<rparr>))
             else Inr W)
          else if p = ac_self acc then (if ev = EVENT_READ then Inr (accept_begin (mo_accept io) W) else Inr W)
          else (case lv_handlers W p of
                  None \<Rightarrow> Inl Use_After_Free
                | Some c \<Rightarrow> bind_exec (conn_event service_session (mo_recv io) (mo_send io) ev c W) (\<lambda>(c', W1).
                    Inr (W1\<lparr>lv_handlers := (lv_handlers W1)(p \<mapsto> c'),
                            lv_after := (if cn_live c' then Go_On else Closing p)\<rparr>))))"

section \<open>The actions of a thread\<close>

definition set_pc :: "ptr \<Rightarrow> loop_pc \<Rightarrow> mt_server \<Rightarrow> mt_server" where
  "set_pc l pc s = s\<lparr>mt_pc := (mt_pc s)(l := pc)\<rparr>"

definition set_loop :: "ptr \<Rightarrow> (dispatcher, open_task) service_loop \<Rightarrow> mt_server \<Rightarrow> mt_server" where
  "set_loop l L s = s\<lparr>mt_loops := (mt_loops s)(l \<mapsto> L)\<rparr>"

fun after_pc :: "int \<Rightarrow> ready_event_t \<Rightarrow> after_call \<Rightarrow> loop_pc" where
  "after_pc t ready Go_On = L_Dispatch t ready"
| "after_pc t ready (Accepting addr) = L_Accept t ready (A_Size addr)"
| "after_pc t ready (Closing p) = L_Remove t ready p"

text \<open>
  The wait, or the end of the loop. The loop of a \<^verbatim>\<open>ServiceLoopThread\<close> is a local variable of its
  thread and is destroyed with it; the base loop is not.
\<close>

definition do_wait :: "mt_io \<Rightarrow> ptr \<Rightarrow> (dispatcher, open_task) service_loop \<Rightarrow> int \<Rightarrow> mt_server \<Rightarrow> mt_server exec" where
  "do_wait io l L t s =
     (if sl_quit L then
        (if l = tp_base_loop (mt_pool s) then Inr (set_pc l L_Ended s)
         else bind_exec (service_loop_delete virt L (mt_net s)) (\<lambda>(st, _).
           Inr (set_pc l L_Ended (s\<lparr>mt_loops := (mt_loops s)(l := None), mt_net := st\<rparr>))))
      else
        bind_exec (the_dispatcher L) (\<lambda>d.
        bind_exec (handle_events virt d (mo_wait io) [] t) (\<lambda>(ret, ready, d').
          Inr (set_pc l (L_Dispatch (next_timeout ret) ready) (set_loop l (L\<lparr>sl_dispatcher := Some d'\<rparr>) s)))))"

definition do_dispatch ::
  "mt_io \<Rightarrow> ptr \<Rightarrow> (dispatcher, open_task) service_loop \<Rightarrow> int \<Rightarrow> ready_event_t \<Rightarrow> int \<Rightarrow> int \<Rightarrow> mt_server \<Rightarrow> mt_server exec" where
  "do_dispatch io l L t ready fd ev s =
     bind_exec (dispatch_event (mt_invoke io (mt_acceptor s)) fd ev (view_of s L)) (\<lambda>W.
       Inr (set_pc l (after_pc t ready (lv_after W))
         (set_loop l (loop_of W) (s\<lparr>mt_handlers := lv_handlers W, mt_net := lv_net W\<rparr>))))"

text \<open>
  \<^verbatim>\<open>on_accept\<close>. A refused connection is closed by \<^verbatim>\<open>do_handle_read\<close>. \<^verbatim>\<open>add_run\<close> goes through the pointer
  \<^verbatim>\<open>get_loop\<close> returned.
\<close>

fun do_accept :: "ptr \<Rightarrow> int \<Rightarrow> ready_event_t \<Rightarrow> accept_pc \<Rightarrow> mt_server \<Rightarrow> mt_server exec" where
  "do_accept l t ready (A_Size addr) s =
     (if length (mt_clients s) \<ge> MAX_CLIENT_COUNT
      then Inr (set_pc l (L_Dispatch t ready) (s\<lparr>mt_net := net_close (get_fd addr) (mt_net s)\<rparr>))
      else Inr (set_pc l (L_Accept t ready (A_New addr)) s))"
| "do_accept l t ready (A_New addr) s =
     (let p = mt_heap s in
      Inr (set_pc l (L_Accept t ready (A_Choose addr p))
        (s\<lparr>mt_heap := p + 1, mt_handlers := (mt_handlers s)(p \<mapsto> connection_new p ())\<rparr>)))"
| "do_accept l t ready (A_Choose addr p) s =
     bind_exec (get_loop (mt_pool s) (mt_index s)) (\<lambda>(k, index).
       case mt_handlers s p of
         None \<Rightarrow> Inl Use_After_Free
       | Some c \<Rightarrow> Inr (set_pc l (L_Accept t ready (A_Add addr p k))
           (s\<lparr>mt_index := index, mt_handlers := (mt_handlers s)(p \<mapsto> conn_set_service_loop c k)\<rparr>)))"
| "do_accept l t ready (A_Add addr p k) s =
     (case mt_loops s k of
        None \<Rightarrow> Inl Use_After_Free
      | Some K \<Rightarrow> Inr (set_pc l (L_Accept t ready (A_Push p)) (set_loop k (add_run K (p, addr)) s)))"
| "do_accept l t ready (A_Push p) s =
     Inr (set_pc l (L_Dispatch t ready) (s\<lparr>mt_clients := mt_clients s @ [p]\<rparr>))"

text \<open>One round of \<^verbatim>\<open>while (functors_.pop(fun)) fun();\<close>.\<close>

definition do_task :: "ptr \<Rightarrow> (dispatcher, open_task) service_loop \<Rightarrow> int \<Rightarrow> mt_server \<Rightarrow> mt_server exec" where
  "do_task l L t s =
     (case tq_pop (sl_functors L) of
        (None, q) \<Rightarrow> Inr (set_pc l (L_Wait t) (set_loop l (L\<lparr>sl_functors := q\<rparr>) s))
      | (Some (p, addr), q) \<Rightarrow>
          (case mt_handlers s p of
             None \<Rightarrow> Inl Use_After_Free
           | Some c \<Rightarrow>
               bind_exec (conn_open virt service_session addr c (L\<lparr>sl_functors := q\<rparr>)) (\<lambda>(c', L').
                 Inr (set_loop l L' (s\<lparr>mt_handlers := (mt_handlers s)(p \<mapsto> c')\<rparr>)))))"

text \<open>The next action of the thread that runs the loop at \<open>l\<close>; an ended thread does nothing.\<close>

definition loop_action :: "mt_io \<Rightarrow> ptr \<Rightarrow> mt_server \<Rightarrow> mt_server exec" where
  "loop_action io l s =
     (case mt_loops s l of
        None \<Rightarrow> Inr s
      | Some L \<Rightarrow>
          (case mt_pc s l of
             L_Wait t \<Rightarrow> do_wait io l L t s
           | L_Dispatch t [] \<Rightarrow> Inr (set_pc l (L_Tasks t) s)
           | L_Dispatch t ((fd, ev) # ready) \<Rightarrow> do_dispatch io l L t ready fd ev s
           | L_Accept t ready pc \<Rightarrow> do_accept l t ready pc s
           | L_Remove t ready p \<Rightarrow>
               Inr (set_pc l (L_Delete t ready p) (s\<lparr>mt_clients := erase_client p (mt_clients s)\<rparr>))
           | L_Delete t ready p \<Rightarrow>
               Inr (set_pc l (L_Dispatch t ready) (s\<lparr>mt_handlers := (mt_handlers s)(p := None)\<rparr>))
           | L_Tasks t \<Rightarrow> do_task l L t s
           | L_Ended \<Rightarrow> Inr s))"

text \<open>
  The interleaving. The documented behaviour of \<^verbatim>\<open>accept\<close> is that a new descriptor is one that is not
  open.
\<close>

definition accept_new :: "mt_io \<Rightarrow> mt_server \<Rightarrow> bool" where
  "accept_new io s \<longleftrightarrow> (case mo_accept io of Inl e \<Rightarrow> True | Inr (fd, peer) \<Rightarrow> fd \<notin> ns_open (mt_net s))"

inductive mt_step :: "mt_server \<Rightarrow> mt_server \<Rightarrow> bool" where
  mt_act: "accept_new io s \<Longrightarrow> loop_action io l s = Inr s' \<Longrightarrow> mt_step s s'"

inductive mt_reachable :: "mt_server \<Rightarrow> mt_server \<Rightarrow> bool" for s0 where
  mt_begin: "mt_reachable s0 s0"
| mt_next: "mt_reachable s0 s \<Longrightarrow> mt_step s t \<Longrightarrow> mt_reachable s0 t"

end
