(* ===== verification/Thread_Server_Safety.thy ===== *)
theory Thread_Server_Safety
  imports Thread_Server
begin

text \<open>
  The invariant of the multi-threaded server: who may use which connection object, and that no
  thread ever uses a deleted one.
\<close>

section \<open>Where an address, or an object, is held\<close>

text \<open>
  \<open>accept_addr\<close> and \<open>accept_obj\<close>: the accepted descriptor, and the new object, still in the hands of
  \<^verbatim>\<open>on_accept\<close>; \<open>closing_obj\<close>: the object inside its \<^verbatim>\<open>close\<close>; \<open>pending\<close>: the calls of \<^verbatim>\<open>open\<close> in some
  loop's queue.
\<close>

fun accept_addr :: "loop_pc \<Rightarrow> socket_address option" where
  "accept_addr (L_Accept t ready (A_Size addr)) = Some addr"
| "accept_addr (L_Accept t ready (A_New addr)) = Some addr"
| "accept_addr (L_Accept t ready (A_Choose addr p)) = Some addr"
| "accept_addr (L_Accept t ready (A_Add addr p k)) = Some addr"
| "accept_addr _ = None"

fun accept_obj :: "loop_pc \<Rightarrow> ptr option" where
  "accept_obj (L_Accept t ready (A_Choose addr p)) = Some p"
| "accept_obj (L_Accept t ready (A_Add addr p k)) = Some p"
| "accept_obj _ = None"

fun closing_obj :: "loop_pc \<Rightarrow> ptr option" where
  "closing_obj (L_Remove t ready p) = Some p"
| "closing_obj (L_Delete t ready p) = Some p"
| "closing_obj _ = None"

definition pending :: "mt_server \<Rightarrow> open_task set" where
  "pending s = {x. \<exists>k K. mt_loops s k = Some K \<and> x \<in> set (sl_functors K)}"

definition registered :: "('d, 'f, 'z) service_loop_scheme \<Rightarrow> ptr \<Rightarrow> bool" where
  "registered L p \<longleftrightarrow> (\<exists>h. sl_handlers L h = Some p)"

text \<open>A descriptor that is open and that no loop watches yet.\<close>

definition fd_free :: "mt_server \<Rightarrow> socket_address \<Rightarrow> bool" where
  "fd_free s addr \<longleftrightarrow> get_fd addr > 0 \<and> get_fd addr \<in> ns_open (mt_net s) \<and>
     (\<forall>k K. mt_loops s k = Some K \<longrightarrow> get_fd addr \<notin> live_keys (sl_handlers K))"

section \<open>The invariant\<close>

definition mt_known :: "mt_server \<Rightarrow> ptr \<Rightarrow> ptr \<Rightarrow> int \<Rightarrow> ptr \<Rightarrow> bool" where
  "mt_known s l wk h p \<longleftrightarrow> p = wk \<or> p = ac_self (mt_acceptor s) \<and> l = tp_base_loop (mt_pool s) \<or>
     (\<exists>c. mt_handlers s p = Some c \<and> cn_live c \<and> conn_handle c = h \<and> h > 0 \<and> cn_srv_loop c = l)"

definition loop_ok :: "mt_server \<Rightarrow> ptr \<Rightarrow> (dispatcher, open_task) service_loop \<Rightarrow> bool" where
  "loop_ok s l L \<longleftrightarrow> in_sync L \<and> \<not> sl_quit L \<and> live_keys (sl_handlers L) \<subseteq> ns_open (mt_net s) \<and>
     (\<exists>wk. sl_wakeup L = Some wk \<and> wk_self wk < mt_heap s \<and> mt_handlers s (wk_self wk) = None \<and>
       (\<forall>h p. sl_handlers L h = Some p \<longrightarrow> p \<noteq> NULL \<longrightarrow> mt_known s l (wk_self wk) h p))"

definition tasks_ok :: "mt_server \<Rightarrow> ptr \<Rightarrow> (dispatcher, open_task) service_loop \<Rightarrow> bool" where
  "tasks_ok s l L \<longleftrightarrow> distinct (map fst (sl_functors L)) \<and>
     (\<forall>p\<in>fst ` set (sl_functors L). \<not> registered L p \<and>
        (\<exists>c. mt_handlers s p = Some c \<and> cn_live c \<and> cn_srv_loop c = l))"

definition fds_ok :: "mt_server \<Rightarrow> bool" where
  "fds_ok s \<longleftrightarrow> (\<forall>x\<in>pending s. fd_free s (snd x)) \<and>
     (\<forall>x\<in>pending s. \<forall>y\<in>pending s. get_fd (snd x) = get_fd (snd y) \<longrightarrow> fst x = fst y)"

text \<open>\<open>accepting_ok\<close> is about the base loop's thread, the only one that accepts.\<close>

definition accepting_ok :: "mt_server \<Rightarrow> bool" where
  "accepting_ok s \<longleftrightarrow>
     (\<forall>l addr. accept_addr (mt_pc s l) = Some addr \<longrightarrow> l = tp_base_loop (mt_pool s) \<and> fd_free s addr \<and>
        (\<forall>x\<in>pending s. get_fd (snd x) \<noteq> get_fd addr)) \<and>
     (\<forall>l p. accept_obj (mt_pc s l) = Some p \<longrightarrow> p \<notin> fst ` pending s \<and>
        (\<forall>k K. mt_loops s k = Some K \<longrightarrow> \<not> registered K p) \<and>
        (\<exists>c. mt_handlers s p = Some c \<and> cn_live c)) \<and>
     (\<forall>l t ready addr p k. mt_pc s l = L_Accept t ready (A_Add addr p k) \<longrightarrow>
        mt_loops s k \<noteq> None \<and> cn_srv_loop (the (mt_handlers s p)) = k)"

definition closing_ok :: "mt_server \<Rightarrow> bool" where
  "closing_ok s \<longleftrightarrow> (\<forall>l p. closing_obj (mt_pc s l) = Some p \<longrightarrow>
     (\<exists>c. mt_handlers s p = Some c \<and> \<not> cn_live c \<and> cn_srv_loop c = l))"

definition objects_ok :: "mt_server \<Rightarrow> bool" where
  "objects_ok s \<longleftrightarrow> (\<forall>p c. mt_handlers s p = Some c \<longrightarrow> 0 < p \<and> p < mt_heap s \<and> cn_self c = p) \<and>
     ac_self (mt_acceptor s) < mt_heap s \<and> mt_handlers s (ac_self (mt_acceptor s)) = None"

definition pool_ok :: "mt_server \<Rightarrow> bool" where
  "pool_ok s \<longleftrightarrow> mt_loops s (tp_base_loop (mt_pool s)) \<noteq> None \<and>
     (\<forall>l\<in>set (tp_ev_loops (mt_pool s)). mt_loops s l \<noteq> None)"

definition mt_ok :: "mt_server \<Rightarrow> bool" where
  "mt_ok s \<longleftrightarrow> (\<forall>l L. mt_loops s l = Some L \<longrightarrow> loop_ok s l L \<and> tasks_ok s l L) \<and>
     fds_ok s \<and> accepting_ok s \<and> closing_ok s \<and> objects_ok s \<and> pool_ok s"

lemma mt_okI:
  assumes "\<And>l L. mt_loops s l = Some L \<Longrightarrow> loop_ok s l L" "\<And>l L. mt_loops s l = Some L \<Longrightarrow> tasks_ok s l L"
    and "fds_ok s" "accepting_ok s" "closing_ok s" "objects_ok s" "pool_ok s"
  shows "mt_ok s"
  using assms by (simp add: mt_ok_def)

lemma mt_okD:
  assumes "mt_ok s"
  shows "mt_loops s l = Some L \<Longrightarrow> loop_ok s l L" "mt_loops s l = Some L \<Longrightarrow> tasks_ok s l L"
    and "fds_ok s" "accepting_ok s" "closing_ok s" "objects_ok s" "pool_ok s"
  using assms by (simp_all add: mt_ok_def)

lemma fds_ok_free: "fds_ok s \<Longrightarrow> x \<in> pending s \<Longrightarrow> fd_free s (snd x)"
  by (simp add: fds_ok_def)

lemma fds_ok_eq:
  "fds_ok s \<Longrightarrow> x \<in> pending s \<Longrightarrow> y \<in> pending s \<Longrightarrow> get_fd (snd x) = get_fd (snd y) \<Longrightarrow> fst x = fst y"
  unfolding fds_ok_def by blast

lemma accepting_addr:
  assumes "accepting_ok s" "accept_addr (mt_pc s l) = Some addr"
  shows "l = tp_base_loop (mt_pool s)" "fd_free s addr" "x \<in> pending s \<Longrightarrow> get_fd (snd x) \<noteq> get_fd addr"
  using assms by (simp_all add: accepting_ok_def)

lemma accepting_obj:
  assumes "accepting_ok s" "accept_obj (mt_pc s l) = Some p"
  shows "p \<notin> fst ` pending s" "mt_loops s k = Some K \<Longrightarrow> \<not> registered K p"
    "\<exists>c. mt_handlers s p = Some c \<and> cn_live c"
  using assms by (simp_all add: accepting_ok_def)

lemma accepting_add:
  assumes "accepting_ok s" "mt_pc s l = L_Accept t ready (A_Add addr p k)"
  shows "mt_loops s k \<noteq> None" "cn_srv_loop (the (mt_handlers s p)) = k"
  using assms by (simp_all add: accepting_ok_def)

lemma accepting_okI:
  assumes "\<And>l addr. accept_addr (mt_pc s l) = Some addr \<Longrightarrow> l = tp_base_loop (mt_pool s) \<and> fd_free s addr"
    and "\<And>l addr x. accept_addr (mt_pc s l) = Some addr \<Longrightarrow> x \<in> pending s \<Longrightarrow> get_fd (snd x) \<noteq> get_fd addr"
    and "\<And>l p. accept_obj (mt_pc s l) = Some p \<Longrightarrow> p \<notin> fst ` pending s"
    and "\<And>l p k K. accept_obj (mt_pc s l) = Some p \<Longrightarrow> mt_loops s k = Some K \<Longrightarrow> \<not> registered K p"
    and "\<And>l p. accept_obj (mt_pc s l) = Some p \<Longrightarrow> \<exists>c. mt_handlers s p = Some c \<and> cn_live c"
    and "\<And>l t ready addr p k. mt_pc s l = L_Accept t ready (A_Add addr p k) \<Longrightarrow>
      mt_loops s k \<noteq> None \<and> cn_srv_loop (the (mt_handlers s p)) = k"
  shows "accepting_ok s"
  using assms by (simp add: accepting_ok_def)

lemma get_loop_member:
  "get_loop tp i = Inr (k, j) \<Longrightarrow> k = tp_base_loop tp \<or> k \<in> set (tp_ev_loops tp)"
  by (auto simp: get_loop_def Let_def bind_exec_eq_Inr split: if_splits)

text \<open>A registered object of a loop, other than its wakeup handler and the acceptor.\<close>

lemma registered_object:
  assumes "mt_ok s" "mt_loops s l = Some L" "sl_handlers L h = Some p" "mt_handlers s p = Some c"
    and "sl_wakeup L = Some wk" "p \<noteq> wk_self wk" "p \<noteq> ac_self (mt_acceptor s)"
  shows "conn_ready c L \<and> conn_handle c > 0 \<and> conn_handle c = h \<and> cn_srv_loop c = l"
proof -
  have "0 < p \<and> cn_self c = p" using mt_okD(6) [OF assms(1)] assms(4) by (auto simp: objects_ok_def)
  moreover have "mt_known s l (wk_self wk) h p"
    using mt_okD(1) [OF assms(1,2)] assms(3,5) calculation by (auto simp: loop_ok_def)
  ultimately show ?thesis using assms(3,4,6,7) by (auto simp: mt_known_def conn_ready_def)
qed

section \<open>A thread works on what is its own\<close>

lemma live_keysI: "(\<And>h p. m' h = Some p \<Longrightarrow> p \<noteq> NULL \<Longrightarrow> m h = Some p) \<Longrightarrow> live_keys m' \<subseteq> live_keys m"
  by (auto simp: live_keys_def)

lemma pending_upd:
  assumes "mt_loops s l = Some L" "mt_loops s' = (mt_loops s)(l \<mapsto> L')"
  shows "pending s' = {x. x \<in> set (sl_functors L') \<or> (\<exists>k K. k \<noteq> l \<and> mt_loops s k = Some K \<and> x \<in> set (sl_functors K))}"
    and "pending s = {x. x \<in> set (sl_functors L) \<or> (\<exists>k K. k \<noteq> l \<and> mt_loops s k = Some K \<and> x \<in> set (sl_functors K))}"
proof -
  have upd: "{x. \<exists>k K. (m(l \<mapsto> M)) k = Some K \<and> x \<in> set (sl_functors K)} =
      {x. x \<in> set (sl_functors M) \<or> (\<exists>k K. k \<noteq> l \<and> m k = Some K \<and> x \<in> set (sl_functors K))}"
    for m :: "ptr \<rightharpoonup> (dispatcher, open_task) service_loop" and M
    by (auto split: if_splits)
  show "pending s' = {x. x \<in> set (sl_functors L') \<or> (\<exists>k K. k \<noteq> l \<and> mt_loops s k = Some K \<and> x \<in> set (sl_functors K))}"
    unfolding pending_def assms(2) by (rule upd)
  have "(mt_loops s)(l \<mapsto> L) = mt_loops s" using assms(1) by (simp add: fun_upd_idem)
  with upd [of "mt_loops s" L]
  show "pending s = {x. x \<in> set (sl_functors L) \<or> (\<exists>k K. k \<noteq> l \<and> mt_loops s k = Some K \<and> x \<in> set (sl_functors K))}"
    unfolding pending_def by simp
qed

lemma pendingI: "mt_loops s l = Some L \<Longrightarrow> x \<in> set (sl_functors L) \<Longrightarrow> x \<in> pending s"
  unfolding pending_def by blast

text \<open>
  One lemma for every action between two accesses to shared data: the thread's loop may lose
  handlers, an object registered with that loop may change or be closed, and descriptors may be
  opened. \<open>thread_effect\<close> says so; what it keeps is shown part by part.
\<close>

definition thread_effect ::
  "mt_server \<Rightarrow> ptr \<Rightarrow> (dispatcher, open_task) service_loop \<Rightarrow> (dispatcher, open_task) service_loop \<Rightarrow>
     (ptr \<rightharpoonup> unit connection) \<Rightarrow> net_state \<Rightarrow> bool" where
  "thread_effect s l L L' H N \<longleftrightarrow> mt_ok s \<and> mt_loops s l = Some L \<and>
     in_sync L' \<and> sl_quit L' = sl_quit L \<and> sl_functors L' = sl_functors L \<and>
     sl_wakeup L' \<noteq> None \<and> wk_self (the (sl_wakeup L')) = wk_self (the (sl_wakeup L)) \<and>
     (\<forall>h p. sl_handlers L' h = Some p \<longrightarrow> p \<noteq> NULL \<longrightarrow> sl_handlers L h = Some p) \<and>
     (\<forall>q. H q = mt_handlers s q \<or> (\<exists>c c'. mt_handlers s q = Some c \<and> H q = Some c' \<and> same_conn c c' \<and>
        cn_live c \<and> registered L q \<and> cn_srv_loop c = l \<and> (cn_live c' \<or> \<not> registered L' q))) \<and>
     ns_open (mt_net s) \<subseteq> ns_open N"

abbreviation thread_result ::
  "mt_server \<Rightarrow> ptr \<Rightarrow> (dispatcher, open_task) service_loop \<Rightarrow> ptr list \<Rightarrow> (ptr \<rightharpoonup> unit connection) \<Rightarrow> net_state \<Rightarrow>
     loop_pc \<Rightarrow> mt_server" where
  "thread_result s l L' C H N pc' \<equiv> s\<lparr>mt_clients := C, mt_handlers := H, mt_net := N, mt_loops := (mt_loops s)(l \<mapsto> L'),
     mt_pc := (mt_pc s)(l := pc')\<rparr>"

lemma thread_effectD:
  assumes "thread_effect s l L L' H N"
  shows "mt_ok s" "mt_loops s l = Some L" "in_sync L'" "sl_quit L' = sl_quit L" "sl_functors L' = sl_functors L"
    "sl_wakeup L' \<noteq> None" "wk_self (the (sl_wakeup L')) = wk_self (the (sl_wakeup L))"
    "sl_handlers L' h = Some p \<Longrightarrow> p \<noteq> NULL \<Longrightarrow> sl_handlers L h = Some p"
    "H q = mt_handlers s q \<or> (\<exists>c c'. mt_handlers s q = Some c \<and> H q = Some c' \<and> same_conn c c' \<and>
      cn_live c \<and> registered L q \<and> cn_srv_loop c = l \<and> (cn_live c' \<or> \<not> registered L' q))"
    "ns_open (mt_net s) \<subseteq> ns_open N" "live_keys (sl_handlers L') \<subseteq> live_keys (sl_handlers L)"
proof -
  show keep: "sl_handlers L' h = Some p \<Longrightarrow> p \<noteq> NULL \<Longrightarrow> sl_handlers L h = Some p" for h p
    using assms by (simp add: thread_effect_def)
  show "live_keys (sl_handlers L') \<subseteq> live_keys (sl_handlers L)" by (rule live_keysI) (rule keep)
qed (use assms in \<open>simp_all add: thread_effect_def\<close>)

lemma effect_pending: "thread_effect s l L L' H N \<Longrightarrow> pending (thread_result s l L' C H N pc') = pending s"
  using pending_upd [of s l L "thread_result s l L' C H N pc'" L'] by (simp add: thread_effectD)

lemma effect_free: "thread_effect s l L L' H N \<Longrightarrow> fd_free s a \<Longrightarrow> fd_free (thread_result s l L' C H N pc') a"
  using thread_effectD(2,10,11) [of s l L L' H N] by (auto simp: fd_free_def)

lemma effect_unregistered:
  assumes "thread_effect s l L L' H N" "\<not> registered L q" "mt_handlers s q \<noteq> None"
  shows "\<not> registered L' q"
  using thread_effectD(8) [OF assms(1), of _ q] mt_okD(6) [OF thread_effectD(1) [OF assms(1)]] assms(2,3)
  by (auto simp: registered_def objects_ok_def)

lemma effect_same:
  assumes "thread_effect s l L L' H N"
    and "\<not> registered L q \<or> mt_handlers s q = None \<or> cn_srv_loop (the (mt_handlers s q)) \<noteq> l"
  shows "H q = mt_handlers s q"
  using thread_effectD(9) [OF assms(1), of q] assms(2) by auto

lemma effect_known:
  assumes "thread_effect s l L L' H N" "mt_known s k wk h p" "k = l \<Longrightarrow> registered L' p"
  shows "mt_known (thread_result s l L' C H N pc') k wk h p"
proof (cases "p = wk \<or> p = ac_self (mt_acceptor s) \<and> k = tp_base_loop (mt_pool s)")
  case True
  then show ?thesis by (auto simp: mt_known_def)
next
  case False
  with assms(2) obtain c where c: "mt_handlers s p = Some c" "cn_live c" "conn_handle c = h" "h > 0" "cn_srv_loop c = k"
    by (auto simp: mt_known_def)
  show ?thesis
  proof (cases "H p = mt_handlers s p")
    case True
    with c show ?thesis by (auto simp: mt_known_def)
  next
    case False
    with thread_effectD(9) [OF assms(1), of p] c obtain c' where
      c': "H p = Some c'" "same_conn c c'" "cn_srv_loop c = l" "cn_live c' \<or> \<not> registered L' p" by auto
    with c assms(3) same_conn_handle [OF c'(2)] show ?thesis by (auto simp: mt_known_def same_conn_def)
  qed
qed

lemma loop_okE:
  assumes "loop_ok s l L"
  obtains wk where "sl_wakeup L = Some wk" "wk_self wk < mt_heap s" "mt_handlers s (wk_self wk) = None"
    "\<And>h p. sl_handlers L h = Some p \<Longrightarrow> p \<noteq> NULL \<Longrightarrow> mt_known s l (wk_self wk) h p"
    "in_sync L" "\<not> sl_quit L" "live_keys (sl_handlers L) \<subseteq> ns_open (mt_net s)"
  using assms by (auto simp: loop_ok_def)

lemma effect_loop_ok:
  assumes e: "thread_effect s l L L' H N" and K: "mt_loops (thread_result s l L' C H N pc') k = Some K"
  shows "loop_ok (thread_result s l L' C H N pc') k K"
proof (cases "k = l")
  case True
  with K have K': "K = L'" by simp
  from mt_okD(1) [OF thread_effectD(1,2) [OF e]] obtain wk where wk: "sl_wakeup L = Some wk" "wk_self wk < mt_heap s"
    "mt_handlers s (wk_self wk) = None" "\<And>h p. sl_handlers L h = Some p \<Longrightarrow> p \<noteq> NULL \<Longrightarrow> mt_known s l (wk_self wk) h p"
    and o: "\<not> sl_quit L" "live_keys (sl_handlers L) \<subseteq> ns_open (mt_net s)" by (rule loop_okE) blast
  obtain wk' where wk': "sl_wakeup L' = Some wk'" "wk_self wk' = wk_self wk" using thread_effectD(6,7) [OF e] wk(1) by auto
  have "mt_known (thread_result s l L' C H N pc') l (wk_self wk') h p" if "sl_handlers L' h = Some p" "p \<noteq> NULL" for h p
    using effect_known [OF e wk(4) [OF thread_effectD(8) [OF e that] that(2)]] that wk'(2) by (auto simp: registered_def)
  with wk wk' o thread_effectD(3,4,10,11) [OF e] True K' effect_same [OF e, of "wk_self wk"] show ?thesis
    by (auto simp: loop_ok_def)
next
  case False
  with K have K': "mt_loops s k = Some K" by simp
  from mt_okD(1) [OF thread_effectD(1) [OF e] K'] obtain wk where wk: "sl_wakeup K = Some wk" "wk_self wk < mt_heap s"
    "mt_handlers s (wk_self wk) = None" "\<And>h p. sl_handlers K h = Some p \<Longrightarrow> p \<noteq> NULL \<Longrightarrow> mt_known s k (wk_self wk) h p"
    and o: "in_sync K" "\<not> sl_quit K" "live_keys (sl_handlers K) \<subseteq> ns_open (mt_net s)" by (rule loop_okE) blast
  with effect_same [OF e, of "wk_self wk"] effect_known [OF e wk(4)] False thread_effectD(10) [OF e] show ?thesis
    by (auto simp: loop_ok_def)
qed

lemma effect_tasks_ok:
  assumes e: "thread_effect s l L L' H N" and K: "mt_loops (thread_result s l L' C H N pc') k = Some K"
  shows "tasks_ok (thread_result s l L' C H N pc') k K"
proof (cases "k = l")
  case True
  with K have K': "K = L'" by simp
  from mt_okD(2) [OF thread_effectD(1,2) [OF e]] effect_same [OF e] effect_unregistered [OF e] True K' thread_effectD(5) [OF e]
  show ?thesis by (fastforce simp: tasks_ok_def)
next
  case False
  with K have K': "mt_loops s k = Some K" by simp
  from mt_okD(2) [OF thread_effectD(1) [OF e] K'] effect_same [OF e] False show ?thesis by (fastforce simp: tasks_ok_def)
qed

text \<open>What the thread may be doing afterwards: it accepts a descriptor just opened, or closes an object of its own.\<close>

definition pc_effect :: "mt_server \<Rightarrow> ptr \<Rightarrow> (ptr \<rightharpoonup> unit connection) \<Rightarrow> net_state \<Rightarrow> loop_pc \<Rightarrow> bool" where
  "pc_effect s l H N pc' \<longleftrightarrow> accept_obj pc' = None \<and>
     (\<forall>a. accept_addr pc' = Some a \<longrightarrow> l = tp_base_loop (mt_pool s) \<and> get_fd a > 0 \<and> get_fd a \<in> ns_open N \<and>
        get_fd a \<notin> ns_open (mt_net s)) \<and>
     (\<forall>p. closing_obj pc' = Some p \<longrightarrow> (\<exists>c. H p = Some c \<and> \<not> cn_live c \<and> cn_srv_loop c = l))"

lemma effect_new_address:
  assumes e: "thread_effect s l L L' H N" and p: "pc_effect s l H N pc'" "accept_addr pc' = Some a"
  shows "l = tp_base_loop (mt_pool s)" "fd_free (thread_result s l L' C H N pc') a" "x \<in> pending s \<Longrightarrow> get_fd (snd x) \<noteq> get_fd a"
proof -
  from p have a: "l = tp_base_loop (mt_pool s)" "get_fd a > 0" "get_fd a \<in> ns_open N" "get_fd a \<notin> ns_open (mt_net s)"
    by (simp_all add: pc_effect_def)
  show "l = tp_base_loop (mt_pool s)" by fact
  have "get_fd a \<notin> live_keys (sl_handlers K)" if "mt_loops s k = Some K" for k K
    using mt_okD(1) [OF thread_effectD(1) [OF e] that] a by (auto simp: loop_ok_def)
  then show "fd_free (thread_result s l L' C H N pc') a" using a thread_effectD(2,11) [OF e] by (auto simp: fd_free_def)
  show "get_fd (snd x) \<noteq> get_fd a" if "x \<in> pending s"
    using fds_ok_free [OF mt_okD(3) [OF thread_effectD(1) [OF e]] that] a by (auto simp: fd_free_def)
qed

lemma effect_accepting_ok:
  assumes e: "thread_effect s l L L' H N" and p: "pc_effect s l H N pc'"
  shows "accepting_ok (thread_result s l L' C H N pc')" (is "accepting_ok ?s")
proof (rule accepting_okI, unfold effect_pending [OF e])
  note acc = mt_okD(4) [OF thread_effectD(1) [OF e]]
  have obj: "accept_obj (mt_pc s k) = Some q" if "accept_obj (mt_pc ?s k) = Some q" for k q
    using that p by (auto simp: pc_effect_def split: if_splits)
  have keep: "H q = mt_handlers s q" if "accept_obj (mt_pc ?s k) = Some q" for k q
    using effect_same [OF e, of q] accepting_obj(2) [OF acc obj [OF that] thread_effectD(2) [OF e]] by simp
  {
    fix k a assume a: "accept_addr (mt_pc ?s k) = Some a"
    show "k = tp_base_loop (mt_pool ?s) \<and> fd_free ?s a"
      using a effect_new_address(1,2) [OF e p, of a] accepting_addr(1,2) [OF acc, of k a] effect_free [OF e] by (cases "k = l") auto
    show "get_fd (snd x) \<noteq> get_fd a" if "x \<in> pending s" for x
      using a that effect_new_address(3) [OF e p, of a x] accepting_addr(3) [OF acc, of k a x] by (cases "k = l") auto
  next
    fix k q assume q: "accept_obj (mt_pc ?s k) = Some q"
    note o = obj [OF q]
    show "q \<notin> fst ` pending s" by (rule accepting_obj(1) [OF acc o])
    show "\<exists>c. mt_handlers ?s q = Some c \<and> cn_live c" using accepting_obj(3) [OF acc o] keep [OF q] by simp
    show "\<not> registered J q" if "mt_loops ?s j = Some J" for j J
      using that accepting_obj(2) [OF acc o] accepting_obj(3) [OF acc o] effect_unregistered [OF e, of q] thread_effectD(2) [OF e]
      by (auto split: if_splits)
  next
    fix k t ready a q j assume a: "mt_pc ?s k = L_Accept t ready (A_Add a q j)"
    then have q: "accept_obj (mt_pc ?s k) = Some q" by simp
    from a p have "mt_pc s k = L_Accept t ready (A_Add a q j)" by (auto simp: pc_effect_def split: if_splits)
    from accepting_add [OF acc this] keep [OF q] show "mt_loops ?s j \<noteq> None \<and> cn_srv_loop (the (mt_handlers ?s q)) = j" by simp
  }
qed

lemma effect_closing_ok:
  assumes e: "thread_effect s l L L' H N" and p: "pc_effect s l H N pc'"
  shows "closing_ok (thread_result s l L' C H N pc')" (is "closing_ok ?s")
  unfolding closing_ok_def
proof (intro allI impI)
  fix k q
  assume q: "closing_obj (mt_pc ?s k) = Some q"
  show "\<exists>c. mt_handlers ?s q = Some c \<and> \<not> cn_live c \<and> cn_srv_loop c = k"
  proof (cases "k = l")
    case True
    with q p show ?thesis by (simp add: pc_effect_def)
  next
    case False
    with q mt_okD(5) [OF thread_effectD(1) [OF e]] obtain c where "mt_handlers s q = Some c" "\<not> cn_live c" "cn_srv_loop c = k"
      by (auto simp: closing_ok_def)
    with False effect_same [OF e, of q] show ?thesis by simp
  qed
qed

lemma mt_ok_effect:
  assumes e: "thread_effect s l L L' H N" and p: "pc_effect s l H N pc'"
  shows "mt_ok (thread_result s l L' C H N pc')" (is "mt_ok ?s")
proof (rule mt_okI)
  note ok = thread_effectD(1) [OF e]
  note objs = mt_okD(6) [OF ok, unfolded objects_ok_def]
  show "fds_ok ?s" using mt_okD(3) [OF ok] effect_free [OF e] unfolding fds_ok_def effect_pending [OF e] by blast
  have "0 < q \<and> q < mt_heap s \<and> cn_self c = q" if "H q = Some c" for q c
    using thread_effectD(9) [OF e, of q] that objs by (cases "H q = mt_handlers s q") (auto simp: same_conn_def)
  moreover have "H (ac_self (mt_acceptor s)) = None" using thread_effectD(9) [OF e, of "ac_self (mt_acceptor s)"] objs by auto
  ultimately show "objects_ok ?s" using objs by (simp add: objects_ok_def)
  show "pool_ok ?s" using mt_okD(7) [OF ok] by (simp add: pool_ok_def)
qed (fact effect_loop_ok [OF e] effect_tasks_ok [OF e] effect_accepting_ok [OF e p] effect_closing_ok [OF e p])+

lemma mt_ok_thread:
  assumes "mt_ok s" "mt_loops s l = Some L"
    and "in_sync L'" "sl_quit L' = sl_quit L" "sl_functors L' = sl_functors L"
      "sl_wakeup L' \<noteq> None" "wk_self (the (sl_wakeup L')) = wk_self (the (sl_wakeup L))"
      "\<And>h p. sl_handlers L' h = Some p \<Longrightarrow> p \<noteq> NULL \<Longrightarrow> sl_handlers L h = Some p"
    and "\<And>q. H q = mt_handlers s q \<or> (\<exists>c c'. mt_handlers s q = Some c \<and> H q = Some c' \<and> same_conn c c' \<and>
      cn_live c \<and> registered L q \<and> cn_srv_loop c = l \<and> (cn_live c' \<or> \<not> registered L' q))"
    and "ns_open (mt_net s) \<subseteq> ns_open N"
    and "accept_obj pc' = None"
      "\<And>a. accept_addr pc' = Some a \<Longrightarrow> l = tp_base_loop (mt_pool s) \<and> get_fd a > 0 \<and> get_fd a \<in> ns_open N \<and>
        get_fd a \<notin> ns_open (mt_net s)"
      "\<And>p. closing_obj pc' = Some p \<Longrightarrow> \<exists>c. H p = Some c \<and> \<not> cn_live c \<and> cn_srv_loop c = l"
  shows "mt_ok (thread_result s l L' C H N pc')"
proof (rule mt_ok_effect)
  show "thread_effect s l L L' H N" unfolding thread_effect_def by (intro conjI allI impI assms)
  show "pc_effect s l H N pc'" using assms(11-13) by (simp add: pc_effect_def)
qed

lemma mt_ok_frame:
  assumes "mt_ok s" "mt_loops s l = Some L"
    and "in_sync L'" "sl_quit L' = sl_quit L" "sl_functors L' = sl_functors L"
      "sl_wakeup L' \<noteq> None" "wk_self (the (sl_wakeup L')) = wk_self (the (sl_wakeup L))"
      "\<And>h p. sl_handlers L' h = Some p \<Longrightarrow> p \<noteq> NULL \<Longrightarrow> sl_handlers L h = Some p"
    and "accept_obj pc' = None" "accept_addr pc' = None" "closing_obj pc' = None"
  shows "mt_ok (set_pc l pc' (set_loop l L' s))"
proof -
  have "mt_ok (s\<lparr>mt_clients := mt_clients s, mt_handlers := mt_handlers s, mt_net := mt_net s,
      mt_loops := (mt_loops s)(l \<mapsto> L'), mt_pc := (mt_pc s)(l := pc')\<rparr>)"
    by (rule mt_ok_thread [OF assms(1-8)]) (use assms(9-11) in auto)
  then show ?thesis by (simp add: set_pc_def set_loop_def)
qed

lemma mt_ok_pc:
  assumes "mt_ok s" "mt_loops s l = Some L" "accept_obj pc' = None" "accept_addr pc' = None" "closing_obj pc' = None"
  shows "mt_ok (set_pc l pc' (s\<lparr>mt_clients := C\<rparr>))"
proof -
  have L: "in_sync L" "sl_wakeup L \<noteq> None" using mt_okD(1) [OF assms(1,2)] by (auto simp: loop_ok_def)
  have "mt_ok (s\<lparr>mt_clients := C, mt_handlers := mt_handlers s, mt_net := mt_net s,
      mt_loops := (mt_loops s)(l \<mapsto> L), mt_pc := (mt_pc s)(l := pc')\<rparr>)"
    by (rule mt_ok_thread [OF assms(1,2) L(1) refl refl L(2) refl]) (use assms(3-5) in auto)
  moreover have "(mt_loops s)(l \<mapsto> L) = mt_loops s" using assms(2) by (simp add: fun_upd_idem)
  ultimately show ?thesis by (simp add: set_pc_def)
qed

section \<open>Dispatching\<close>

lemma view_of_simps [simp]:
  "sl_quit (view_of s L) = sl_quit L" "sl_dispatcher (view_of s L) = sl_dispatcher L"
  "sl_handlers (view_of s L) = sl_handlers L" "sl_functors (view_of s L) = sl_functors L"
  "sl_wakeup (view_of s L) = sl_wakeup L" "lv_handlers (view_of s L) = mt_handlers s"
  "lv_net (view_of s L) = mt_net s" "lv_after (view_of s L) = Go_On"
  "loop_of (view_of s L) = L"
  by (cases L; simp add: view_of_def loop_of_def)+

lemma loop_of_simps [simp]:
  "sl_quit (loop_of W) = sl_quit W" "sl_dispatcher (loop_of W) = sl_dispatcher W"
  "sl_handlers (loop_of W) = sl_handlers W" "sl_functors (loop_of W) = sl_functors W"
  "sl_wakeup (loop_of W) = sl_wakeup W" "in_sync (loop_of W) = in_sync W"
  by (simp_all add: loop_of_def loop_sync_def)

lemma loop_of_view_handlers [simp]: "loop_of ((view_of s L)\<lparr>sl_handlers := m\<rparr>) = L\<lparr>sl_handlers := m\<rparr>"
  by (cases L) (simp add: loop_of_def view_of_def)

lemma in_sync_view [simp]: "in_sync (view_of s L) = in_sync L"
  by (simp add: loop_sync_def)

lemma service_once: "answers_once service_session"
  by (simp add: answers_once_def service_session_def)

lemma mt_invoke_cases:
  assumes "mt_invoke io acc p ev V = Inr W" "sl_wakeup V = Some wk"
  shows "(\<exists>wk'. W = V\<lparr>sl_wakeup := Some wk'\<rparr> \<and> wk_self wk' = wk_self wk) \<or>
    W = V \<or> p \<noteq> wk_self wk \<and> p = ac_self acc \<and> W = accept_begin (mo_accept io) V \<or>
    (\<exists>c c' W1. p \<noteq> wk_self wk \<and> p \<noteq> ac_self acc \<and> lv_handlers V p = Some c \<and>
       conn_event service_session (mo_recv io) (mo_send io) ev c V = Inr (c', W1) \<and>
       W = W1\<lparr>lv_handlers := (lv_handlers W1)(p \<mapsto> c'), lv_after := (if cn_live c' then Go_On else Closing p)\<rparr>)"
proof (cases "p = wk_self wk")
  case True
  with assms show ?thesis
    by (auto simp: mt_invoke_def wakeup_handle_read_def bind_exec_eq_Inr split: if_splits sum.splits)
next
  case p: False
  show ?thesis
  proof (cases "p = ac_self acc")
    case True
    with p assms show ?thesis by (auto simp: mt_invoke_def split: if_splits)
  next
    case False
    with p assms show ?thesis
      by (cases "lv_handlers V p") (auto simp: mt_invoke_def bind_exec_eq_Inr)
  qed
qed

text \<open>What one dispatched event does, from the thread's point of view: nothing, or one of three virtual calls.\<close>

abbreviation call_result :: "mt_server \<Rightarrow> ptr \<Rightarrow> int \<Rightarrow> ready_event_t \<Rightarrow> loop_view \<Rightarrow> mt_server" where
  "call_result s l t ready W \<equiv> thread_result s l (loop_of W) (mt_clients s) (lv_handlers W) (lv_net W) (after_pc t ready (lv_after W))"

lemma do_dispatch_idle:
  assumes ok: "mt_ok s" and L: "mt_loops s l = Some L" and run: "do_dispatch io l L t ready fd ev s = Inr s'"
    and idle: "fst (map_index (sl_handlers L) fd) = NULL \<or> ev \<notin> {EVENT_READ, EVENT_WRITE, EVENT_ERROR}"
  shows "mt_ok s'"
proof -
  let ?L = "L\<lparr>sl_handlers := snd (map_index (sl_handlers L) fd)\<rparr>"
  have "dispatch_event (mt_invoke io (mt_acceptor s)) fd ev (view_of s L) =
      Inr ((view_of s L)\<lparr>sl_handlers := snd (map_index (sl_handlers L) fd)\<rparr>)"
    using idle by (auto simp: dispatch_event_once Let_def)
  then have s': "s' = set_pc l (L_Dispatch t ready) (set_loop l ?L s)"
    using run by (simp add: do_dispatch_def set_pc_def set_loop_def)
  from mt_okD(1) [OF ok L] have "in_sync ?L" "sl_wakeup L \<noteq> None" by (auto simp: loop_ok_def loop_sync_def)
  then show ?thesis unfolding s'
    by (intro mt_ok_frame [OF ok L]) (auto simp: map_index_def split: option.splits if_splits)
qed

lemma do_dispatch_call:
  assumes "do_dispatch io l L t ready fd ev s = Inr s'" "sl_handlers L fd = Some p" "p \<noteq> NULL"
    and "ev \<in> {EVENT_READ, EVENT_WRITE, EVENT_ERROR}"
  obtains W where "mt_invoke io (mt_acceptor s) p ev (view_of s L) = Inr W" "s' = call_result s l t ready W"
proof -
  have V: "(view_of s L)\<lparr>sl_handlers := sl_handlers L\<rparr> = view_of s L" by (simp add: view_of_def)
  from assms obtain W where W: "mt_invoke io (mt_acceptor s) p ev (view_of s L) = Inr W"
    and s': "s' = set_pc l (after_pc t ready (lv_after W)) (set_loop l (loop_of W) (s\<lparr>mt_handlers := lv_handlers W, mt_net := lv_net W\<rparr>))"
    by (auto simp: do_dispatch_def dispatch_event_once Let_def bind_exec_eq_Inr map_index_def V)
  from W show thesis by (rule that) (simp add: s' set_pc_def set_loop_def)
qed

lemma accept_call_ok:
  assumes ok: "mt_ok s" and L: "mt_loops s l = Some L" and new: "accept_new io s" and base: "l = tp_base_loop (mt_pool s)"
  shows "mt_ok (call_result s l t ready (accept_begin (mo_accept io) (view_of s L)))" (is "mt_ok (call_result s l t ready ?W)")
proof -
  from mt_okD(1) [OF ok L] have "in_sync L" "sl_wakeup L \<noteq> None" by (auto simp: loop_ok_def)
  moreover have W: "loop_of ?W = L" "lv_handlers ?W = mt_handlers s" "ns_open (mt_net s) \<subseteq> ns_open (lv_net ?W)"
    by (auto simp: accept_begin_def Let_def split: sum.split)
  ultimately show ?thesis unfolding W(1,2)
    by (intro mt_ok_thread [OF ok L])
      (use base new W(3) in \<open>auto simp: accept_begin_def Let_def set_fd_def accept_new_def get_fd_def split: sum.splits if_splits\<close>)
qed

lemma conn_call_ok:
  assumes ok: "mt_ok s" and L: "mt_loops s l = Some L" and wk: "sl_wakeup L = Some wk" and p: "sl_handlers L fd = Some p"
    and conn: "p \<noteq> wk_self wk" "p \<noteq> ac_self (mt_acceptor s)" "mt_handlers s p = Some c"
      "conn_event service_session (mo_recv io) (mo_send io) ev c (view_of s L) = Inr (c', W1)"
  shows "mt_ok (call_result s l t ready (W1\<lparr>lv_handlers := (lv_handlers W1)(p \<mapsto> c'), lv_after := (if cn_live c' then Go_On else Closing p)\<rparr>))"
    (is "mt_ok (call_result s l t ready ?W)")
proof -
  let ?V = "view_of s L"
  from registered_object [OF ok L p conn(3) wk conn(1,2)]
  have c: "conn_ready c ?V" "conn_handle c > 0" "conn_handle c = fd" "cn_srv_loop c = l" by (auto simp: conn_ready_def)
  have "in_sync ?V" using mt_okD(1) [OF ok L] by (simp add: loop_ok_def)
  from conn_event_outcome [OF conn(4) service_once c(1,2) this]
  have o: "conn_outcome c ?V c' W1" "in_sync W1" by simp_all
  have sync: "in_sync (loop_of ?W)" using o(2) by (simp add: loop_sync_def)
  have only: "h = fd" if "sl_handlers L h = Some p" for h
    using registered_object [OF ok L that conn(3) wk conn(1,2)] c(3) by simp
  show ?thesis
  proof (cases "cn_live c'")
    case True
    with o obtain d where W1: "same_conn c c'" "W1 = ?V\<lparr>sl_dispatcher := d\<rparr>"
      by (auto simp: conn_outcome_def only_dispatcher_def)
    show ?thesis
      by (rule mt_ok_thread [OF ok L sync])
        (use True W1 wk p c conn(3) in \<open>auto simp: registered_def conn_ready_def\<close>)
  next
    case False
    with o c(3) obtain d where W1: "same_conn c c'" "W1 = ?V\<lparr>sl_dispatcher := d, sl_handlers := (sl_handlers L)(fd := None)\<rparr>"
      by (auto simp: conn_outcome_def)
    have "\<not> registered (loop_of ?W) p" using only by (auto simp: W1(2) registered_def)
    then show ?thesis
      by (intro mt_ok_thread [OF ok L sync])
        (use False W1 wk p c conn(3) in \<open>auto simp: registered_def conn_ready_def same_conn_def split: if_splits\<close>)
  qed
qed

lemma do_dispatch_ok:
  assumes ok: "mt_ok s" and L: "mt_loops s l = Some L" and new: "accept_new io s"
    and run: "do_dispatch io l L t ready fd ev s = Inr s'"
  shows "mt_ok s'"
proof (cases "fst (map_index (sl_handlers L) fd) = NULL \<or> ev \<notin> {EVENT_READ, EVENT_WRITE, EVENT_ERROR}")
  case True
  with do_dispatch_idle [OF ok L run] show ?thesis .
next
  case False
  then obtain p where p: "sl_handlers L fd = Some p" "p \<noteq> NULL" and ev: "ev \<in> {EVENT_READ, EVENT_WRITE, EVENT_ERROR}"
    by (auto simp: map_index_def split: option.splits)
  from mt_okD(1) [OF ok L] obtain wk where wk: "sl_wakeup L = Some wk" and sync: "in_sync L"
    and known: "mt_known s l (wk_self wk) fd p" using p by (auto simp: loop_ok_def)
  from do_dispatch_call [OF run p ev] obtain W where
    W: "mt_invoke io (mt_acceptor s) p ev (view_of s L) = Inr W" and s': "s' = call_result s l t ready W" .
  from mt_invoke_cases [OF W, of wk] wk consider
      (wakeup) wk' where "W = (view_of s L)\<lparr>sl_wakeup := Some wk'\<rparr>" "wk_self wk' = wk_self wk"
    | (idle) "W = view_of s L"
    | (acceptor) "p \<noteq> wk_self wk" "p = ac_self (mt_acceptor s)" "W = accept_begin (mo_accept io) (view_of s L)"
    | (conn) c c' W1 where "p \<noteq> wk_self wk" "p \<noteq> ac_self (mt_acceptor s)" "mt_handlers s p = Some c"
        "conn_event service_session (mo_recv io) (mo_send io) ev c (view_of s L) = Inr (c', W1)"
        "W = W1\<lparr>lv_handlers := (lv_handlers W1)(p \<mapsto> c'), lv_after := (if cn_live c' then Go_On else Closing p)\<rparr>"
    by fastforce
  then show ?thesis unfolding s'
  proof cases
    case wakeup
    have "in_sync (loop_of W)" using sync by (simp add: wakeup(1) loop_sync_def)
    then show "mt_ok (call_result s l t ready W)" by (rule mt_ok_thread [OF ok L]) (use wk wakeup in simp_all)
  next
    case idle
    have "in_sync (loop_of W)" using sync by (simp add: idle)
    then show "mt_ok (call_result s l t ready W)" by (rule mt_ok_thread [OF ok L]) (use wk idle in simp_all)
  next
    case acceptor
    have "l = tp_base_loop (mt_pool s)" using known acceptor(1,2) mt_okD(6) [OF ok] by (auto simp: mt_known_def objects_ok_def)
    from accept_call_ok [OF ok L new this] show "mt_ok (call_result s l t ready W)" unfolding acceptor(3) .
  next
    case conn
    from conn_call_ok [OF ok L wk p(1) conn(1-4)] show "mt_ok (call_result s l t ready W)" unfolding conn(5) .
  qed
qed

section \<open>Waiting and running tasks\<close>

lemma do_wait_ok:
  assumes ok: "mt_ok s" and L: "mt_loops s l = Some L" and run: "do_wait io l L t s = Inr s'"
  shows "mt_ok s'"
proof -
  from mt_okD(1) [OF ok L] have L': "in_sync L" "\<not> sl_quit L" "sl_wakeup L \<noteq> None" by (auto simp: loop_ok_def)
  from run L'(2) obtain d ret ready d' where d: "sl_dispatcher L = Some d"
    and w: "handle_events virt d (mo_wait io) [] t = Inr (ret, ready, d')"
    and s': "s' = set_pc l (L_Dispatch (next_timeout ret) ready) (set_loop l (L\<lparr>sl_dispatcher := Some d'\<rparr>) s)"
    by (auto simp: do_wait_def bind_exec_eq_Inr)
  have "in_sync (L\<lparr>sl_dispatcher := Some d'\<rparr>)"
    using L'(1) d any.wait_keeps [OF _ w] by (auto simp: loop_sync_def)
  then show ?thesis unfolding s' by (rule mt_ok_frame [OF ok L]) (use L' in simp_all)
qed

lemma service_quiet: "quiet_connect service_session"
  by (simp add: quiet_connect_def service_session_def)

lemma registered_bound:
  assumes "mt_ok s" "mt_loops s l = Some L" "registered L p"
  shows "p < mt_heap s"
proof (cases "p = NULL")
  case True
  with mt_okD(6) [OF assms(1)] show ?thesis by (auto simp: objects_ok_def)
next
  case False
  with assms mt_okD(1) [OF assms(1,2)] mt_okD(6) [OF assms(1)] show ?thesis
    by (fastforce simp: loop_ok_def registered_def mt_known_def objects_ok_def)
qed

text \<open>
  What a task does: the connection it is about is registered with the thread's loop under the descriptor it was
  handed over with. The parts of the invariant follow one by one.
\<close>

definition task_opens ::
  "mt_server \<Rightarrow> ptr \<Rightarrow> (dispatcher, open_task) service_loop \<Rightarrow> open_task \<Rightarrow> open_task list \<Rightarrow> unit connection \<Rightarrow>
     unit connection \<Rightarrow> (dispatcher, open_task) service_loop \<Rightarrow> bool" where
  "task_opens s l L x q c c' L' \<longleftrightarrow> mt_ok s \<and> mt_loops s l = Some L \<and> sl_functors L = x # q \<and>
     mt_handlers s (fst x) = Some c \<and> in_sync L' \<and>
     (\<exists>d. L' = L\<lparr>sl_functors := q, sl_dispatcher := d, sl_handlers := (sl_handlers L)(get_fd (snd x) \<mapsto> fst x)\<rparr>) \<and>
     cn_self c' = fst x \<and> conn_handle c' = get_fd (snd x) \<and> cn_live c' \<and> cn_srv_loop c' = l"

abbreviation task_result ::
  "mt_server \<Rightarrow> ptr \<Rightarrow> open_task \<Rightarrow> unit connection \<Rightarrow> (dispatcher, open_task) service_loop \<Rightarrow> mt_server" where
  "task_result s l x c' L' \<equiv> set_loop l L' (s\<lparr>mt_handlers := (mt_handlers s)(fst x \<mapsto> c')\<rparr>)"

lemma task_opensD:
  assumes "task_opens s l L x q c c' L'"
  shows "mt_ok s" "mt_loops s l = Some L" "sl_functors L = x # q" "mt_handlers s (fst x) = Some c" "in_sync L'"
    "sl_functors L' = q" "sl_quit L' = sl_quit L" "sl_wakeup L' = sl_wakeup L"
    "sl_handlers L' = (sl_handlers L)(get_fd (snd x) \<mapsto> fst x)"
    "cn_self c' = fst x" "conn_handle c' = get_fd (snd x)" "cn_live c'" "cn_srv_loop c' = l"
  using assms by (auto simp: task_opens_def)

lemma task_opens_object:
  assumes o: "task_opens s l L x q c c' L'"
  shows "x \<in> pending s" "cn_live c" "cn_srv_loop c = l" "\<not> registered L (fst x)" "fst x \<notin> fst ` set q"
    "distinct (map fst q)" "0 < fst x" "fd_free s (snd x)"
proof -
  note d = task_opensD [OF o]
  show x: "x \<in> pending s" using d(3) by (intro pendingI [OF d(2)]) simp
  from mt_okD(2) [OF d(1,2)] d(3,4) show "cn_live c" "cn_srv_loop c = l" "\<not> registered L (fst x)" "fst x \<notin> fst ` set q"
    "distinct (map fst q)" by (auto simp: tasks_ok_def)
  show "0 < fst x" using mt_okD(6) [OF d(1)] d(4) by (auto simp: objects_ok_def)
  show "fd_free s (snd x)" by (rule fds_ok_free [OF mt_okD(3) [OF d(1)] x])
qed

lemma set_loop_simps:
  "mt_loops (set_loop l K s) = (mt_loops s)(l \<mapsto> K)" "mt_pc (set_loop l K s) = mt_pc s" "mt_net (set_loop l K s) = mt_net s"
  "mt_pool (set_loop l K s) = mt_pool s" "mt_heap (set_loop l K s) = mt_heap s" "mt_acceptor (set_loop l K s) = mt_acceptor s"
  "mt_handlers (set_loop l K s) = mt_handlers s"
  by (simp_all add: set_loop_def)

lemma task_pending:
  assumes o: "task_opens s l L x q c c' L'" and y: "y \<in> pending (task_result s l x c' L')"
  shows "y \<in> pending s" "get_fd (snd y) \<noteq> get_fd (snd x)"
proof -
  note d = task_opensD [OF o] and p = task_opens_object [OF o]
  have loops: "mt_loops (task_result s l x c' L') = (mt_loops s)(l \<mapsto> L')" by (simp add: set_loop_def)
  note pend = pending_upd [OF d(2) loops]
  show sub: "y \<in> pending s" using y d(3,6) unfolding pend by auto
  show "get_fd (snd y) \<noteq> get_fd (snd x)"
  proof
    assume "get_fd (snd y) = get_fd (snd x)"
    with fds_ok_eq [OF mt_okD(3) [OF d(1)] sub p(1)] have fst: "fst y = fst x" by simp
    from y d(6) consider "y \<in> set q" | k K where "k \<noteq> l" "mt_loops s k = Some K" "y \<in> set (sl_functors K)"
      unfolding pend(1) by auto
    then show False
    proof cases
      case 1
      with fst p(5) show False by (metis imageI)
    next
      case 2
      then have "fst y \<in> fst ` set (sl_functors K)" by simp
      with mt_okD(2) [OF d(1) 2(2)] fst d(4) p(3) 2(1) show False by (auto simp: tasks_ok_def)
    qed
  qed
qed

lemma task_free:
  "task_opens s l L x q c c' L' \<Longrightarrow> fd_free s a \<Longrightarrow> get_fd a \<noteq> get_fd (snd x) \<Longrightarrow> fd_free (task_result s l x c' L') a"
  using task_opensD(2,9) [of s l L x q c c' L'] task_opens_object(7) [of s l L x q c c' L']
  by (auto simp: fd_free_def set_loop_simps)

lemma task_known:
  assumes o: "task_opens s l L x q c c' L'" and k: "mt_known s k wk h r" "r \<noteq> fst x \<or> k \<noteq> l"
  shows "mt_known (task_result s l x c' L') k wk h r"
  using k task_opensD(4) [OF o] task_opens_object(3) [OF o]
  by (cases "r = fst x") (auto simp: mt_known_def set_loop_simps)

lemma task_unregistered:
  "task_opens s l L x q c c' L' \<Longrightarrow> \<not> registered L r \<Longrightarrow> r \<noteq> fst x \<Longrightarrow> \<not> registered L' r"
  by (auto simp: registered_def task_opensD(9))

lemma task_loop_ok:
  assumes o: "task_opens s l L x q c c' L'" and K: "mt_loops (task_result s l x c' L') k = Some K"
  shows "loop_ok (task_result s l x c' L') k K"
proof (cases "k = l")
  case True
  note d = task_opensD [OF o] and p = task_opens_object [OF o]
  from True K have K': "K = L'" by (simp add: set_loop_def)
  from mt_okD(1) [OF d(1,2)] obtain wk where wk: "sl_wakeup L = Some wk" "wk_self wk < mt_heap s"
    "mt_handlers s (wk_self wk) = None" "\<And>h r. sl_handlers L h = Some r \<Longrightarrow> r \<noteq> NULL \<Longrightarrow> mt_known s l (wk_self wk) h r"
    and oth: "\<not> sl_quit L" "live_keys (sl_handlers L) \<subseteq> ns_open (mt_net s)" by (rule loop_okE) blast
  have "mt_known (task_result s l x c' L') l (wk_self wk) h r" if "sl_handlers L' h = Some r" "r \<noteq> NULL" for h r
  proof (cases "h = get_fd (snd x)")
    case True
    with that d(9-13) p(8) show ?thesis by (auto simp: mt_known_def set_loop_simps fd_free_def)
  next
    case False
    with that d(9) have r: "sl_handlers L h = Some r" by simp
    with p(4) have "r \<noteq> fst x" by (auto simp: registered_def)
    with task_known [OF o wk(4) [OF r that(2)]] show ?thesis by simp
  qed
  moreover have "wk_self wk \<noteq> fst x" using wk(3) d(4) by auto
  ultimately show ?thesis
    using wk oth d(5,7-9) p(7,8) True K' by (auto simp: loop_ok_def set_loop_simps fd_free_def)
next
  case False
  note d = task_opensD [OF o]
  from False K have K': "mt_loops s k = Some K" by (simp add: set_loop_def)
  from mt_okD(1) [OF d(1) K'] obtain wk where wk: "sl_wakeup K = Some wk" "wk_self wk < mt_heap s"
    "mt_handlers s (wk_self wk) = None" "\<And>h r. sl_handlers K h = Some r \<Longrightarrow> r \<noteq> NULL \<Longrightarrow> mt_known s k (wk_self wk) h r"
    and oth: "in_sync K" "\<not> sl_quit K" "live_keys (sl_handlers K) \<subseteq> ns_open (mt_net s)" by (rule loop_okE) blast
  have "wk_self wk \<noteq> fst x" using wk(3) d(4) by auto
  with wk oth task_known [OF o wk(4) disjI2 [OF False]] show ?thesis by (auto simp: loop_ok_def set_loop_simps)
qed

lemma task_tasks_ok:
  assumes o: "task_opens s l L x q c c' L'" and K: "mt_loops (task_result s l x c' L') k = Some K"
  shows "tasks_ok (task_result s l x c' L') k K"
proof (cases "k = l")
  case True
  note d = task_opensD [OF o] and p = task_opens_object [OF o]
  from True K have K': "K = L'" by (simp add: set_loop_def)
  have "\<not> registered L' r \<and> (\<exists>c. mt_handlers (task_result s l x c' L') r = Some c \<and> cn_live c \<and> cn_srv_loop c = l)"
    if "r \<in> fst ` set q" for r
    using mt_okD(2) [OF d(1,2)] d(3) that p(5) task_unregistered [OF o, of r]
    by (cases "r = fst x") (auto simp: tasks_ok_def set_loop_simps)
  with True K' p(6) d(6) show ?thesis by (auto simp: tasks_ok_def)
next
  case False
  note d = task_opensD [OF o]
  from False K have K': "mt_loops s k = Some K" by (simp add: set_loop_def)
  have "r \<noteq> fst x" if "r \<in> fst ` set (sl_functors K)" for r
    using mt_okD(2) [OF d(1) K'] that d(4) task_opens_object(3) [OF o] False by (auto simp: tasks_ok_def)
  with mt_okD(2) [OF d(1) K'] show ?thesis by (auto simp: tasks_ok_def set_loop_simps)
qed

lemma task_fds_ok:
  assumes o: "task_opens s l L x q c c' L'"
  shows "fds_ok (task_result s l x c' L')"
proof -
  note f = mt_okD(3) [OF task_opensD(1) [OF o]] and sub = task_pending [OF o]
  have "fd_free (task_result s l x c' L') (snd y)" if "y \<in> pending (task_result s l x c' L')" for y
    by (rule task_free [OF o fds_ok_free [OF f sub(1) [OF that]] sub(2) [OF that]])
  moreover have "fst y = fst z" if "y \<in> pending (task_result s l x c' L')" "z \<in> pending (task_result s l x c' L')"
    "get_fd (snd y) = get_fd (snd z)" for y z by (rule fds_ok_eq [OF f sub(1) [OF that(1)] sub(1) [OF that(2)] that(3)])
  ultimately show ?thesis unfolding fds_ok_def by blast
qed

lemma task_accepting_ok:
  assumes o: "task_opens s l L x q c c' L'"
  shows "accepting_ok (task_result s l x c' L')" (is "accepting_ok ?s")
proof -
  note d = task_opensD [OF o] and p = task_opens_object [OF o]
  note acc = mt_okD(4) [OF d(1)]
  have pc: "mt_pc ?s = mt_pc s" by (simp add: set_loop_simps)
  have obj: "r \<noteq> fst x" if "accept_obj (mt_pc s k) = Some r" for k r using accepting_obj(1) [OF acc that] p(1) by force
  show ?thesis
  proof (rule accepting_okI, unfold pc)
    fix k a
    assume a: "accept_addr (mt_pc s k) = Some a"
    have "get_fd a \<noteq> get_fd (snd x)" using accepting_addr(3) [OF acc a p(1)] by simp
    from task_free [OF o accepting_addr(2) [OF acc a] this] accepting_addr(1) [OF acc a]
    show "k = tp_base_loop (mt_pool ?s) \<and> fd_free ?s a" by (simp add: set_loop_simps(4))
    show "get_fd (snd y) \<noteq> get_fd a" if "y \<in> pending ?s" for y
      by (rule accepting_addr(3) [OF acc a task_pending(1) [OF o that]])
  next
    fix k r
    assume r: "accept_obj (mt_pc s k) = Some r"
    show "r \<notin> fst ` pending ?s" using accepting_obj(1) [OF acc r] task_pending(1) [OF o] by blast
    show "\<exists>c. mt_handlers ?s r = Some c \<and> cn_live c" using accepting_obj(3) [OF acc r] obj [OF r] by (simp add: set_loop_simps)
    show "\<not> registered J r" if "mt_loops ?s j = Some J" for j J
      using that accepting_obj(2) [OF acc r] obj [OF r] task_unregistered [OF o, of r] d(2) by (auto simp: set_loop_simps split: if_splits)
  next
    fix k t ready a r j
    assume a: "mt_pc s k = L_Accept t ready (A_Add a r j)"
    then have "accept_obj (mt_pc s k) = Some r" by simp
    from obj [OF this] accepting_add [OF acc a] show "mt_loops ?s j \<noteq> None \<and> cn_srv_loop (the (mt_handlers ?s r)) = j"
      by (auto simp: set_loop_simps)
  qed
qed

lemma mt_ok_task:
  assumes o: "task_opens s l L x q c c' L'"
  shows "mt_ok (task_result s l x c' L')" (is "mt_ok ?s")
proof (rule mt_okI)
  note d = task_opensD [OF o] and p = task_opens_object [OF o]
  show "closing_ok ?s" unfolding closing_ok_def set_loop_simps
  proof (intro allI impI)
    fix k r
    assume "closing_obj (mt_pc (s\<lparr>mt_handlers := (mt_handlers s)(fst x \<mapsto> c')\<rparr>) k) = Some r"
    with mt_okD(5) [OF d(1)] obtain c0 where "mt_handlers s r = Some c0" "\<not> cn_live c0" "cn_srv_loop c0 = k"
      by (auto simp: closing_ok_def)
    with d(4) p(2) show "\<exists>c. mt_handlers (s\<lparr>mt_handlers := (mt_handlers s)(fst x \<mapsto> c')\<rparr>) r = Some c \<and> \<not> cn_live c \<and> cn_srv_loop c = k"
      by auto
  qed
  show "objects_ok ?s" using mt_okD(6) [OF d(1)] d(4,10) p(7) by (auto simp: objects_ok_def set_loop_simps)
  show "pool_ok ?s" using mt_okD(7) [OF d(1)] by (simp add: pool_ok_def set_loop_simps)
qed (fact task_loop_ok [OF o] task_tasks_ok [OF o] task_fds_ok [OF o] task_accepting_ok [OF o])+

lemma do_task_ok:
  assumes ok: "mt_ok s" and L: "mt_loops s l = Some L" and pc: "mt_pc s l = L_Tasks t"
    and run: "do_task l L t s = Inr s'"
  shows "mt_ok s'"
proof (cases "sl_functors L")
  case Nil
  then have "L\<lparr>sl_functors := []\<rparr> = L" by (cases L) simp
  with run Nil have s': "s' = set_pc l (L_Wait t) (set_loop l L s)" by (simp add: do_task_def)
  from mt_okD(1) [OF ok L] have "in_sync L" "sl_wakeup L \<noteq> None" by (auto simp: loop_ok_def)
  then show ?thesis unfolding s' by (intro mt_ok_frame [OF ok L]) simp_all
next
  case (Cons x q)
  obtain p addr where x: "x = (p, addr)" by fastforce
  let ?L = "L\<lparr>sl_functors := q\<rparr>"
  have pendx: "x \<in> pending s" using Cons by (intro pendingI [OF L]) simp
  from mt_okD(2) [OF ok L] Cons x obtain c where c: "mt_handlers s p = Some c" "cn_srv_loop c = l" by (auto simp: tasks_ok_def)
  have self: "cn_self c = p" using mt_okD(6) [OF ok] c(1) by (auto simp: objects_ok_def)
  from run Cons x c(1) obtain c' L' where op: "conn_open virt service_session addr c ?L = Inr (c', L')"
    and s': "s' = set_loop l L' (s\<lparr>mt_handlers := (mt_handlers s)(p \<mapsto> c')\<rparr>)"
    by (auto simp: do_task_def bind_exec_eq_Inr)
  have "in_sync ?L" using mt_okD(1) [OF ok L] by (simp add: loop_ok_def loop_sync_def)
  moreover have "get_fd addr \<notin> live_keys (sl_handlers ?L)"
    using fds_ok_free [OF mt_okD(3) [OF ok] pendx] x L by (simp add: fd_free_def)
  ultimately have "task_opens s l L x q c c' L'"
    using conn_open_effect [OF op service_quiet] self ok L Cons c x by (auto simp: task_opens_def)
  from mt_ok_task [OF this] show ?thesis by (simp add: s' x)
qed

section \<open>Accepting and deleting\<close>

text \<open>An object no loop and no other thread knows.\<close>

definition private_obj :: "mt_server \<Rightarrow> ptr \<Rightarrow> ptr \<Rightarrow> bool" where
  "private_obj s l p \<longleftrightarrow> p \<notin> fst ` pending s \<and> (\<forall>k K. mt_loops s k = Some K \<longrightarrow> \<not> registered K p) \<and>
     (\<forall>k. k \<noteq> l \<longrightarrow> accept_obj (mt_pc s k) \<noteq> Some p \<and> closing_obj (mt_pc s k) \<noteq> Some p)"

lemma task_object:
  assumes "mt_ok s" "p \<in> fst ` pending s"
  shows "\<exists>c l L. mt_handlers s p = Some c \<and> cn_live c \<and> cn_srv_loop c = l \<and> mt_loops s l = Some L \<and> \<not> registered L p"
proof -
  from assms(2) obtain x l L where x: "mt_loops s l = Some L" "x \<in> set (sl_functors L)" "p = fst x"
    by (auto simp: pending_def)
  then have "p \<in> fst ` set (sl_functors L)" by simp
  with mt_okD(2) [OF assms(1) x(1)] x(1) show ?thesis unfolding tasks_ok_def by blast
qed

lemma closing_object:
  "mt_ok s \<Longrightarrow> closing_obj (mt_pc s l) = Some p \<Longrightarrow>
   \<exists>c. mt_handlers s p = Some c \<and> \<not> cn_live c \<and> cn_srv_loop c = l"
  using mt_okD(5) by (simp add: closing_ok_def)

lemma fresh_private: "mt_ok s \<Longrightarrow> private_obj s l (mt_heap s)"
proof -
  assume ok: "mt_ok s"
  have none: "mt_handlers s (mt_heap s) = None"
    using mt_okD(6) [OF ok] by (cases "mt_handlers s (mt_heap s)") (auto simp: objects_ok_def)
  have "\<not> registered K (mt_heap s)" if "mt_loops s k = Some K" for k K
    using registered_bound [OF ok that] by blast
  with none task_object [OF ok, of "mt_heap s"] accepting_obj(3) [OF mt_okD(4) [OF ok], of _ "mt_heap s"]
    closing_object [OF ok, of _ "mt_heap s"]
  show ?thesis by (auto simp: private_obj_def)
qed

text \<open>An action that creates, changes or deletes such an object.\<close>

definition object_effect :: "mt_server \<Rightarrow> ptr \<Rightarrow> ptr \<Rightarrow> (ptr \<rightharpoonup> unit connection) \<Rightarrow> ptr \<Rightarrow> loop_pc \<Rightarrow> bool" where
  "object_effect s l p H n pc' \<longleftrightarrow> mt_ok s \<and> private_obj s l p \<and>
     (\<forall>q. q \<noteq> p \<longrightarrow> H q = mt_handlers s q) \<and> H (ac_self (mt_acceptor s)) = None \<and>
     (\<forall>c. H p = Some c \<longrightarrow> 0 < p \<and> p < n \<and> cn_self c = p \<and> (p = mt_heap s \<or> mt_handlers s p \<noteq> None)) \<and> mt_heap s \<le> n \<and>
     (\<forall>a. accept_addr pc' = Some a \<longrightarrow> accept_addr (mt_pc s l) = Some a) \<and>
     (\<forall>q. accept_obj pc' = Some q \<longrightarrow> q = p \<and> (\<exists>c. H p = Some c \<and> cn_live c)) \<and>
     (\<forall>t r a q k. pc' = L_Accept t r (A_Add a q k) \<longrightarrow> mt_loops s k \<noteq> None \<and> cn_srv_loop (the (H q)) = k) \<and>
     (\<forall>q. closing_obj pc' = Some q \<longrightarrow> closing_obj (mt_pc s l) = Some q \<and> q \<noteq> p)"

abbreviation object_result ::
  "mt_server \<Rightarrow> ptr \<Rightarrow> ptr list \<Rightarrow> int \<Rightarrow> ptr \<Rightarrow> (ptr \<rightharpoonup> unit connection) \<Rightarrow> loop_pc \<Rightarrow> mt_server" where
  "object_result s l C i n H pc' \<equiv>
     s\<lparr>mt_clients := C, mt_index := i, mt_heap := n, mt_handlers := H, mt_pc := (mt_pc s)(l := pc')\<rparr>"

lemma object_effectD:
  assumes "object_effect s l p H n pc'"
  shows "mt_ok s" "private_obj s l p" "q \<noteq> p \<Longrightarrow> H q = mt_handlers s q" "H (ac_self (mt_acceptor s)) = None"
    "H p = Some c \<Longrightarrow> 0 < p \<and> p < n \<and> cn_self c = p \<and> (p = mt_heap s \<or> mt_handlers s p \<noteq> None)" "mt_heap s \<le> n"
    "accept_addr pc' = Some a \<Longrightarrow> accept_addr (mt_pc s l) = Some a"
    "accept_obj pc' = Some q \<Longrightarrow> q = p \<and> (\<exists>c. H p = Some c \<and> cn_live c)"
    "pc' = L_Accept t r (A_Add a q k) \<Longrightarrow> mt_loops s k \<noteq> None \<and> cn_srv_loop (the (H q)) = k"
    "closing_obj pc' = Some q \<Longrightarrow> closing_obj (mt_pc s l) = Some q \<and> q \<noteq> p"
  using assms unfolding object_effect_def by blast+

lemma private_objD:
  assumes "private_obj s l p"
  shows "p \<notin> fst ` pending s" "mt_loops s k = Some K \<Longrightarrow> \<not> registered K p"
    "k \<noteq> l \<Longrightarrow> accept_obj (mt_pc s k) \<noteq> Some p" "k \<noteq> l \<Longrightarrow> closing_obj (mt_pc s k) \<noteq> Some p"
  using assms by (simp_all add: private_obj_def)

lemma object_pending: "pending (object_result s l C i n H pc') = pending s"
  by (simp add: pending_def)

lemma object_free: "fd_free (object_result s l C i n H pc') a = fd_free s a"
  by (simp add: fd_free_def)

lemma object_loop_ok:
  assumes e: "object_effect s l p H n pc'" and K: "mt_loops s k = Some K"
  shows "loop_ok (object_result s l C i n H pc') k K" (is "loop_ok ?s k K")
proof -
  note d = object_effectD [OF e]
  have known: "mt_known ?s k wk h r" if "mt_known s k wk h r" "registered K r" for wk h r
    using that d(3) [of r] private_objD(2) [OF d(2) K] by (cases "r = p") (auto simp: mt_known_def)
  from mt_okD(1) [OF d(1) K] obtain wk where wk: "sl_wakeup K = Some wk" "wk_self wk < mt_heap s"
    "mt_handlers s (wk_self wk) = None" "\<And>h p. sl_handlers K h = Some p \<Longrightarrow> p \<noteq> NULL \<Longrightarrow> mt_known s k (wk_self wk) h p"
    and o: "in_sync K" "\<not> sl_quit K" "live_keys (sl_handlers K) \<subseteq> ns_open (mt_net s)" by (rule loop_okE) blast
  have "mt_known ?s k (wk_self wk) h r" if "sl_handlers K h = Some r" "r \<noteq> NULL" for h r
    using known [OF wk(4) [OF that]] that(1) by (auto simp: registered_def)
  moreover have "H (wk_self wk) = None"
    using wk(2,3) d(3) [of "wk_self wk"] d(5) by (cases "wk_self wk = p"; cases "H p") auto
  ultimately show ?thesis using wk(1,2) o d(6) by (auto simp: loop_ok_def)
qed

lemma object_tasks_ok:
  assumes e: "object_effect s l p H n pc'" and K: "mt_loops s k = Some K"
  shows "tasks_ok (object_result s l C i n H pc') k K"
proof -
  note d = object_effectD [OF e]
  have "r \<noteq> p" if "r \<in> fst ` set (sl_functors K)" for r using that private_objD(1) [OF d(2)] pendingI [OF K] by auto
  with mt_okD(2) [OF d(1) K] d(3) show ?thesis by (simp add: tasks_ok_def)
qed

lemma object_accepting_ok:
  assumes e: "object_effect s l p H n pc'"
  shows "accepting_ok (object_result s l C i n H pc')" (is "accepting_ok ?s")
proof (rule accepting_okI, unfold object_pending object_free)
  note d = object_effectD [OF e]
  note acc = mt_okD(4) [OF d(1)] and priv = private_objD [OF d(2)]
  {
    fix k a assume "accept_addr (mt_pc ?s k) = Some a"
    then have a: "accept_addr (mt_pc s k) = Some a" using d(7) by (auto split: if_splits)
    show "k = tp_base_loop (mt_pool ?s) \<and> fd_free s a" using accepting_addr(1,2) [OF acc a] by simp
    show "get_fd (snd x) \<noteq> get_fd a" if "x \<in> pending s" for x by (rule accepting_addr(3) [OF acc a that])
  next
    fix k q assume q: "accept_obj (mt_pc ?s k) = Some q"
    have q': "if k = l then q = p else accept_obj (mt_pc s k) = Some q" using q d(8) [of q] by (auto split: if_splits)
    show "q \<notin> fst ` pending s" using q' priv(1) accepting_obj(1) [OF acc, of k q] by (auto split: if_splits)
    show "\<exists>c. mt_handlers ?s q = Some c \<and> cn_live c"
      using q q' d(8) [of q] accepting_obj(3) [OF acc, of k q] d(3) [of q] priv(3) [of k] by (auto split: if_splits)
    show "\<not> registered J q" if "mt_loops ?s j = Some J" for j J
      using that q' priv(2) [of j J] accepting_obj(2) [OF acc, of k q j J] by (auto split: if_splits)
  next
    fix k t r a q j assume a: "mt_pc ?s k = L_Accept t r (A_Add a q j)"
    show "mt_loops ?s j \<noteq> None \<and> cn_srv_loop (the (mt_handlers ?s q)) = j"
    proof (cases "k = l")
      case True
      with a d(9) show ?thesis by simp
    next
      case False
      with a have a': "mt_pc s k = L_Accept t r (A_Add a q j)" by simp
      with priv(3) [OF False] have "q \<noteq> p" by auto
      with accepting_add [OF acc a'] d(3) show ?thesis by simp
    qed
  }
qed

lemma mt_ok_object_effect:
  assumes e: "object_effect s l p H n pc'"
  shows "mt_ok (object_result s l C i n H pc')" (is "mt_ok ?s")
proof (rule mt_okI)
  note d = object_effectD [OF e]
  note ok = d(1)
  show "loop_ok ?s k K" "tasks_ok ?s k K" if "mt_loops ?s k = Some K" for k K
    using object_loop_ok [OF e] object_tasks_ok [OF e] that by simp_all
  show "fds_ok ?s" using mt_okD(3) [OF ok] unfolding fds_ok_def object_pending object_free .
  show "closing_ok ?s" unfolding closing_ok_def
  proof (intro allI impI)
    fix k q
    assume q: "closing_obj (mt_pc ?s k) = Some q"
    have "closing_obj (mt_pc s k) = Some q \<and> q \<noteq> p" using q d(10) [of q] private_objD(4) [OF d(2), of k] by (auto split: if_splits)
    with closing_object [OF ok, of k q] d(3) [of q]
    show "\<exists>c. mt_handlers ?s q = Some c \<and> \<not> cn_live c \<and> cn_srv_loop c = k" by simp
  qed
  have "0 < q \<and> q < n \<and> cn_self c = q" if "H q = Some c" for q c
    using that d(3) [of q] d(5,6) mt_okD(6) [OF ok] by (cases "q = p") (fastforce simp: objects_ok_def)+
  with d(4,6) mt_okD(6) [OF ok] show "objects_ok ?s" by (simp add: objects_ok_def)
  show "pool_ok ?s" using mt_okD(7) [OF ok] by (simp add: pool_ok_def)
qed (rule object_accepting_ok [OF e])

lemma mt_ok_object:
  assumes "mt_ok s" "private_obj s l p"
    and "\<And>q. q \<noteq> p \<Longrightarrow> H q = mt_handlers s q" "H (ac_self (mt_acceptor s)) = None"
      "\<And>c. H p = Some c \<Longrightarrow> 0 < p \<and> p < n \<and> cn_self c = p \<and> (p = mt_heap s \<or> mt_handlers s p \<noteq> None)"
      "mt_heap s \<le> n"
    and "\<And>a. accept_addr pc' = Some a \<Longrightarrow> accept_addr (mt_pc s l) = Some a"
      "\<And>q. accept_obj pc' = Some q \<Longrightarrow> q = p \<and> (\<exists>c. H p = Some c \<and> cn_live c)"
      "\<And>t r a q k. pc' = L_Accept t r (A_Add a q k) \<Longrightarrow> mt_loops s k \<noteq> None \<and> cn_srv_loop (the (H q)) = k"
      "\<And>q. closing_obj pc' = Some q \<Longrightarrow> closing_obj (mt_pc s l) = Some q \<and> q \<noteq> p"
  shows "mt_ok (object_result s l C i n H pc')"
proof (rule mt_ok_object_effect)
  show "object_effect s l p H n pc'" unfolding object_effect_def by (intro conjI allI impI assms)
qed

lemma accept_obj_addr: "accept_obj pc = Some p \<Longrightarrow> accept_addr pc \<noteq> None"
  by (cases pc rule: accept_obj.cases) simp_all

lemma only_acceptor:
  assumes "mt_ok s" "accept_addr (mt_pc s l) = Some addr" "k \<noteq> l"
  shows "accept_addr (mt_pc s k) = None" "accept_obj (mt_pc s k) = None"
proof -
  note base = accepting_addr(1) [OF mt_okD(4) [OF assms(1)]]
  show "accept_addr (mt_pc s k) = None"
    using base [OF assms(2)] base [of k] assms(3) by (cases "accept_addr (mt_pc s k)") auto
  then show "accept_obj (mt_pc s k) = None"
    using accept_obj_addr [of "mt_pc s k"] by (cases "accept_obj (mt_pc s k)") auto
qed

lemma accepted_private:
  assumes "mt_ok s" "accept_obj (mt_pc s l) = Some p"
  shows "private_obj s l p"
proof -
  obtain addr where "accept_addr (mt_pc s l) = Some addr" using accept_obj_addr [OF assms(2)] by auto
  note only = only_acceptor(2) [OF assms(1) this]
  note o = accepting_obj [OF mt_okD(4) [OF assms(1)] assms(2)]
  show ?thesis unfolding private_obj_def
  proof (intro conjI allI impI)
    show "p \<notin> fst ` pending s" by (rule o(1))
    show "\<not> registered K p" if "mt_loops s k = Some K" for k K by (rule o(2) [OF that])
    show "accept_obj (mt_pc s k) \<noteq> Some p" if "k \<noteq> l" for k using only [OF that] by simp
    show "closing_obj (mt_pc s k) \<noteq> Some p" for k using o(3) closing_object [OF assms(1), of k p] by auto
  qed
qed

lemma accepting_ok_idle: "(\<And>l. accept_addr (mt_pc s l) = None \<and> accept_obj (mt_pc s l) = None) \<Longrightarrow> accepting_ok s"
proof (rule accepting_okI, goal_cases)
  case (6 l t ready addr p k)
  from 6(1) [of l] 6(2) show ?case by simp
qed simp_all

lemma refuse_fds_ok:
  assumes ok: "mt_ok s" and pc: "accept_addr (mt_pc s l) = Some addr"
    and s': "mt_loops s' = mt_loops s" "ns_open (mt_net s') = ns_open (mt_net s) - {get_fd addr}"
  shows "fds_ok s'"
proof -
  note f = mt_okD(3) [OF ok]
  have pend: "pending s' = pending s" by (simp add: pending_def s'(1))
  have "fd_free s' (snd x)" if x: "x \<in> pending s" for x
    using fds_ok_free [OF f x] accepting_addr(3) [OF mt_okD(4) [OF ok] pc x] by (simp add: fd_free_def s')
  moreover have "fst x = fst y" if "x \<in> pending s" "y \<in> pending s" "get_fd (snd x) = get_fd (snd y)" for x y
    by (rule fds_ok_eq [OF f that])
  ultimately show ?thesis unfolding fds_ok_def pend by blast
qed

lemma refuse_ok:
  assumes ok: "mt_ok s" and pc: "accept_addr (mt_pc s l) = Some addr" "accept_obj (mt_pc s l) = None"
  shows "mt_ok (set_pc l (L_Dispatch t ready) (s\<lparr>mt_net := net_close (get_fd addr) (mt_net s)\<rparr>))" (is "mt_ok ?s")
proof -
  note only = only_acceptor [OF ok pc(1)]
  have net: "ns_open (mt_net ?s) = ns_open (mt_net s) - {get_fd addr}" by (simp add: set_pc_def net_close_def)
  have rest: "mt_loops ?s = mt_loops s" "mt_handlers ?s = mt_handlers s" "mt_heap ?s = mt_heap s" "mt_pool ?s = mt_pool s"
    "mt_acceptor ?s = mt_acceptor s" "mt_pc ?s = (mt_pc s)(l := L_Dispatch t ready)" by (simp_all add: set_pc_def)
  show ?thesis
  proof (rule mt_okI)
    fix k K
    assume "mt_loops ?s k = Some K"
    then have K: "mt_loops s k = Some K" by (simp add: rest)
    have "get_fd addr \<notin> live_keys (sl_handlers K)"
      using accepting_addr(2) [OF mt_okD(4) [OF ok] pc(1)] K by (simp add: fd_free_def)
    with mt_okD(1) [OF ok K] net show "loop_ok ?s k K" unfolding loop_ok_def mt_known_def rest by blast
    show "tasks_ok ?s k K" using mt_okD(2) [OF ok K] by (simp add: tasks_ok_def rest)
  next
    show "fds_ok ?s" by (rule refuse_fds_ok [OF ok pc(1) rest(1) net])
    show "accepting_ok ?s" by (rule accepting_ok_idle) (use only in \<open>simp add: rest\<close>)
    show "closing_ok ?s" using closing_object [OF ok] by (simp add: closing_ok_def rest)
    show "objects_ok ?s" using mt_okD(6) [OF ok] by (simp add: objects_ok_def rest)
    show "pool_ok ?s" using mt_okD(7) [OF ok] by (simp add: pool_ok_def rest)
  qed
qed

lemma insert_fds_ok:
  assumes ok: "mt_ok s" and pc: "accept_addr (mt_pc s l) = Some addr"
    and s': "pending s' = insert (p, addr) (pending s)" "\<And>a. fd_free s' a = fd_free s a"
  shows "fds_ok s'"
proof -
  note f = mt_okD(3) [OF ok] and a = accepting_addr [OF mt_okD(4) [OF ok] pc]
  have "fd_free s (snd x)" if "x \<in> insert (p, addr) (pending s)" for x using that a(2) fds_ok_free [OF f, of x] by auto
  moreover have "fst x = fst y"
    if "x \<in> insert (p, addr) (pending s)" "y \<in> insert (p, addr) (pending s)" "get_fd (snd x) = get_fd (snd y)" for x y
  proof (cases "x \<in> pending s \<and> y \<in> pending s")
    case True
    with that(3) show ?thesis by (auto intro: fds_ok_eq [OF f])
  next
    case False
    with that a(3) show ?thesis by fastforce
  qed
  ultimately show ?thesis unfolding fds_ok_def s' by blast
qed

lemma add_ok:
  assumes ok: "mt_ok s" and pc: "mt_pc s l = L_Accept t ready (A_Add addr p k)" and K: "mt_loops s k = Some K"
  shows "mt_ok (set_pc l (L_Accept t ready (A_Push p)) (set_loop k (add_run K (p, addr)) s))" (is "mt_ok ?s")
proof -
  note acc = mt_okD(4) [OF ok]
  have held: "accept_addr (mt_pc s l) = Some addr" "accept_obj (mt_pc s l) = Some p" using pc by simp_all
  note only = only_acceptor [OF ok held(1)] and o = accepting_obj [OF acc held(2)]
  let ?K = "K\<lparr>sl_functors := sl_functors K @ [(p, addr)]\<rparr>"
  have loops: "mt_loops ?s = (mt_loops s)(k \<mapsto> ?K)" and rest: "mt_handlers ?s = mt_handlers s" "mt_heap ?s = mt_heap s"
    "mt_pool ?s = mt_pool s" "mt_acceptor ?s = mt_acceptor s" "mt_net ?s = mt_net s"
    "mt_pc ?s = (mt_pc s)(l := L_Accept t ready (A_Push p))"
    by (simp_all add: set_pc_def set_loop_def add_run_def tq_push_def)
  from o(3) accepting_add(2) [OF acc pc] obtain c where c: "mt_handlers s p = Some c" "cn_live c" "cn_srv_loop c = k" by auto
  have pend: "pending ?s = insert (p, addr) (pending s)"
    unfolding pending_upd(1) [OF K loops] pending_upd(2) [OF K loops] by auto
  have known: "mt_known ?s = mt_known s" by (auto simp: mt_known_def rest fun_eq_iff)
  have new: "p \<notin> fst ` set (sl_functors K)" using o(1) pendingI [OF K] by auto
  show ?thesis
  proof (rule mt_okI)
    fix j J
    assume "mt_loops ?s j = Some J"
    then have J: "j = k \<and> J = ?K \<or> j \<noteq> k \<and> mt_loops s j = Some J" unfolding loops by (auto split: if_splits)
    then show "loop_ok ?s j J" using mt_okD(1) [OF ok K] mt_okD(1) [OF ok, of j J]
      by (auto simp: loop_ok_def known rest loop_sync_def)
    have "tasks_ok ?s k ?K" using mt_okD(2) [OF ok K] c o(2) [OF K] new by (auto simp: tasks_ok_def rest registered_def)
    with J show "tasks_ok ?s j J" using mt_okD(2) [OF ok, of j J] by (auto simp: tasks_ok_def rest)
  next
    show "fds_ok ?s" by (rule insert_fds_ok [OF ok held(1) pend]) (use K in \<open>auto simp: fd_free_def rest(5) loops\<close>)
    show "accepting_ok ?s" by (rule accepting_ok_idle) (use only in \<open>simp add: rest\<close>)
    show "closing_ok ?s" using closing_object [OF ok] by (simp add: closing_ok_def rest)
    show "objects_ok ?s" using mt_okD(6) [OF ok] by (simp add: objects_ok_def rest)
    show "pool_ok ?s" using mt_okD(7) [OF ok] by (simp add: pool_ok_def rest loops)
  qed
qed

text \<open>All of \<^verbatim>\<open>on_accept\<close>.\<close>

lemma do_accept_ok:
  assumes ok: "mt_ok s" and L: "mt_loops s l = Some L" and pc: "mt_pc s l = L_Accept t ready a"
    and run: "do_accept l t ready a s = Inr s'"
  shows "mt_ok s'"
proof -
  note objs = mt_okD(6) [OF ok, unfolded objects_ok_def]
  show ?thesis
  proof (cases a)
    case (A_Size addr)
    show ?thesis
    proof (cases "length (mt_clients s) \<ge> MAX_CLIENT_COUNT")
      case True
      with run pc A_Size refuse_ok [OF ok, of l addr] show ?thesis by auto
    next
      case False
      have "mt_ok (s\<lparr>mt_clients := mt_clients s, mt_index := mt_index s, mt_heap := mt_heap s, mt_handlers := mt_handlers s,
          mt_pc := (mt_pc s)(l := L_Accept t ready (A_New addr))\<rparr>)"
        by (rule mt_ok_object [OF ok fresh_private [OF ok]]) (use objs pc A_Size in auto)
      with False run A_Size show ?thesis by (auto simp: set_pc_def)
    qed
  next
    case (A_New addr)
    let ?p = "mt_heap s"
    have "mt_ok (s\<lparr>mt_clients := mt_clients s, mt_index := mt_index s, mt_heap := ?p + 1,
        mt_handlers := (mt_handlers s)(?p \<mapsto> connection_new ?p ()), mt_pc := (mt_pc s)(l := L_Accept t ready (A_Choose addr ?p))\<rparr>)"
      by (rule mt_ok_object [OF ok fresh_private [OF ok]]) (use objs pc A_New in \<open>auto simp: connection_new_def\<close>)
    with run A_New show ?thesis by (auto simp: set_pc_def Let_def)
  next
    case (A_Choose addr p)
    then have held: "accept_obj (mt_pc s l) = Some p" using pc by simp
    from accepting_obj(3) [OF mt_okD(4) [OF ok] held] obtain c where c: "mt_handlers s p = Some c" "cn_live c" by blast
    with run A_Choose obtain k i where k: "get_loop (mt_pool s) (mt_index s) = Inr (k, i)"
      and s': "s' = set_pc l (L_Accept t ready (A_Add addr p k)) (s\<lparr>mt_index := i, mt_handlers := (mt_handlers s)(p \<mapsto> conn_set_service_loop c k)\<rparr>)"
      by (auto simp: bind_exec_eq_Inr)
    have dom: "mt_loops s k \<noteq> None" using get_loop_member [OF k] mt_okD(7) [OF ok] by (auto simp: pool_ok_def)
    have "p \<noteq> ac_self (mt_acceptor s)" using c objs by auto
    then have "mt_ok (s\<lparr>mt_clients := mt_clients s, mt_index := i, mt_heap := mt_heap s,
        mt_handlers := (mt_handlers s)(p \<mapsto> conn_set_service_loop c k), mt_pc := (mt_pc s)(l := L_Accept t ready (A_Add addr p k))\<rparr>)"
      by (intro mt_ok_object [OF ok accepted_private [OF ok held]])
        (use objs pc A_Choose c dom in \<open>auto simp: conn_set_service_loop_def\<close>)
    with s' show ?thesis by (simp add: set_pc_def)
  next
    case (A_Add addr p k)
    with run obtain K where K: "mt_loops s k = Some K"
      "s' = set_pc l (L_Accept t ready (A_Push p)) (set_loop k (add_run K (p, addr)) s)" by (auto split: option.splits)
    from add_ok [OF ok _ K(1)] pc A_Add K(2) show ?thesis by simp
  next
    case (A_Push p)
    with run mt_ok_pc [OF ok L, of "L_Dispatch t ready" "mt_clients s @ [p]"] show ?thesis by auto
  qed
qed

section \<open>Every action keeps the invariant\<close>

lemma do_remove_ok:
  assumes ok: "mt_ok s" and pc: "mt_pc s l = L_Remove t ready p"
  shows "mt_ok (set_pc l (L_Delete t ready p) (s\<lparr>mt_clients := C\<rparr>))"
proof -
  have "mt_handlers s p \<noteq> None" using closing_object [OF ok, of l p] pc by auto
  then have "p \<noteq> mt_heap s" using mt_okD(6) [OF ok] by (auto simp: objects_ok_def)
  then have "mt_ok (s\<lparr>mt_clients := C, mt_index := mt_index s, mt_heap := mt_heap s, mt_handlers := mt_handlers s,
      mt_pc := (mt_pc s)(l := L_Delete t ready p)\<rparr>)"
    by (intro mt_ok_object [OF ok fresh_private [OF ok]]) (use mt_okD(6) [OF ok] pc in \<open>auto simp: objects_ok_def\<close>)
  then show ?thesis by (simp add: set_pc_def)
qed

lemma do_delete_ok:
  assumes ok: "mt_ok s" and pc: "mt_pc s l = L_Delete t ready p"
  shows "mt_ok (set_pc l (L_Dispatch t ready) (s\<lparr>mt_handlers := (mt_handlers s)(p := None)\<rparr>))"
proof -
  note objs = mt_okD(6) [OF ok, unfolded objects_ok_def]
  from closing_object [OF ok, of l p] pc obtain c where c: "mt_handlers s p = Some c" "\<not> cn_live c" "cn_srv_loop c = l" by auto
  have dead: "\<not> registered K p" if K: "mt_loops s k = Some K" for k K
  proof
    assume "registered K p"
    then obtain h where h: "sl_handlers K h = Some p" by (auto simp: registered_def)
    have "0 < p" using objs c(1) by blast
    with mt_okD(1) [OF ok K] h obtain wk where "mt_known s k wk h p" "mt_handlers s wk = None" by (auto simp: loop_ok_def)
    with c objs show False by (auto simp: mt_known_def)
  qed
  have "private_obj s l p" unfolding private_obj_def
  proof (intro conjI allI impI)
    show "p \<notin> fst ` pending s" using task_object [OF ok, of p] c by auto
    show "\<not> registered K p" if "mt_loops s k = Some K" for k K by (rule dead [OF that])
    show "accept_obj (mt_pc s k) \<noteq> Some p" for k using accepting_obj(3) [OF mt_okD(4) [OF ok], of k p] c by auto
    show "closing_obj (mt_pc s k) \<noteq> Some p" if "k \<noteq> l" for k using closing_object [OF ok, of k p] c that by auto
  qed
  then have "mt_ok (s\<lparr>mt_clients := mt_clients s, mt_index := mt_index s, mt_heap := mt_heap s,
      mt_handlers := (mt_handlers s)(p := None), mt_pc := (mt_pc s)(l := L_Dispatch t ready)\<rparr>)"
    by (intro mt_ok_object [OF ok]) (use objs pc in auto)
  then show ?thesis by (simp add: set_pc_def)
qed

lemma loop_action_ok:
  assumes "mt_ok s" "accept_new io s" "loop_action io l s = Inr s'"
  shows "mt_ok s'"
proof (cases "mt_loops s l")
  case None
  with assms show ?thesis by (simp add: loop_action_def)
next
  case (Some L)
  note ok = assms(1) and L = Some and run = assms(3) [unfolded loop_action_def Some, simplified]
  show ?thesis
  proof (cases "mt_pc s l")
    case (L_Wait t)
    with run show ?thesis by (intro do_wait_ok [OF ok L]) simp
  next
    case (L_Dispatch t ready)
    show ?thesis
    proof (cases ready)
      case Nil
      with run L_Dispatch mt_ok_pc [OF ok L, of "L_Tasks t" "mt_clients s"] show ?thesis by auto
    next
      case (Cons e rest)
      with run L_Dispatch show ?thesis by (cases e) (auto intro: do_dispatch_ok [OF ok L assms(2)])
    qed
  next
    case (L_Accept t ready a)
    with run show ?thesis by (intro do_accept_ok [OF ok L]) simp_all
  next
    case (L_Remove t ready p)
    with run do_remove_ok [OF ok L_Remove] show ?thesis by auto
  next
    case (L_Delete t ready p)
    with run do_delete_ok [OF ok L_Delete] show ?thesis by auto
  next
    case (L_Tasks t)
    with run show ?thesis by (intro do_task_ok [OF ok L]) simp_all
  next
    case L_Ended
    with run ok show ?thesis by simp
  qed
qed

lemma mt_reachable_ok: "mt_reachable s0 s \<Longrightarrow> mt_ok s0 \<Longrightarrow> mt_ok s"
proof (induction rule: mt_reachable.induct)
  case (mt_next s t)
  from mt_next.hyps(2) mt_next.IH [OF mt_next.prems] show ?case by cases (rule loop_action_ok)
qed

end
