(* ===== verification/Thread_Programs.thy ===== *)
theory Thread_Programs
  imports Thread_Server_Safety
begin

text \<open>
  The main programs of \<^verbatim>\<open>src/example/example-2.cc\<close> (four loop threads, running for ever) and
  \<^verbatim>\<open>example-3.cc\<close> (the same, shut down from the main thread), and what holds of them.
\<close>

section \<open>The program of \<open>example-2.cc\<close>\<close>

text \<open>
  The thread \<open>i\<close> of the pool: the address of its \<^verbatim>\<open>ServiceLoopThread\<close>, of its loop and of the loop's
  wakeup handler, and the system's answers to \<^verbatim>\<open>epoll_create\<close> and \<^verbatim>\<open>eventfd\<close>.
\<close>

record thread_start =
  ts_obj :: ptr
  ts_loop :: ptr
  ts_wakeup :: ptr
  ts_epoll :: int
  ts_eventfd :: int

fun start_loops ::
  "epoll_ctl \<Rightarrow> thread_start list \<Rightarrow> (ptr \<rightharpoonup> (dispatcher, open_task) service_loop) \<Rightarrow>
     (ptr \<rightharpoonup> (dispatcher, open_task) service_loop) exec" where
  "start_loops ctl [] m = Inr m"
| "start_loops ctl (t # ts) m =
     bind_exec (service_loop_new 2 ctl (ts_epoll t) (ts_eventfd t) (ts_wakeup t)) (\<lambda>L.
       start_loops ctl ts (m(ts_loop t \<mapsto> L)))"

text \<open>
  \<^verbatim>\<open>main\<close> up to \<^verbatim>\<open>loop.run()\<close>: \<open>b\<close> are the addresses and answers for the base loop (its \<open>ts_obj\<close> is the
  acceptor), \<open>ts\<close> those for the pool's threads, \<open>net\<close> the descriptors open when they all exist.
\<close>

definition threaded_open ::
  "epoll_ctl \<Rightarrow> (string \<Rightarrow> 32 word option) \<Rightarrow> bool \<Rightarrow> sock_os \<Rightarrow> string \<Rightarrow> net_state \<Rightarrow> ptr \<Rightarrow> thread_start \<Rightarrow> thread_start list \<Rightarrow>
     (int \<times> mt_server) exec" where
  "threaded_open ctl pton le os seen net heap b ts =
     (let endpoint = socket_address_make pton le ''127.0.0.1'' 6543;
          (acceptor, clients, pool0) = acceptor_server_new (ts_obj b) (ts_loop b) in
      bind_exec (service_loop_new 2 ctl (ts_epoll b) (ts_eventfd b) (ts_wakeup b)) (\<lambda>L.
      let pool = set_thread_num pool0 (int (length ts)) in
      bind_exec (start_loops ctl ts Map.empty) (\<lambda>m.
      let pool1 = thpool_open (\<lambda>i. (ts_obj (ts ! i), ts_loop (ts ! i))) pool in
      bind_exec (acceptor_open virt pton le os seen endpoint acceptor net L)
        (\<lambda>(r, a, endpoint', net1, L1).
          Inr (r, \<lparr>mt_clients = clients, mt_pool = pool1, mt_index = 0, mt_heap = heap, mt_handlers = Map.empty,
            mt_loops = m(ts_loop b \<mapsto> L1), mt_pc = (\<lambda>_. L_Wait 2), mt_net = net1, mt_acceptor = a\<rparr>)))))"

definition example2_open ::
  "epoll_ctl \<Rightarrow> (string \<Rightarrow> 32 word option) \<Rightarrow> bool \<Rightarrow> sock_os \<Rightarrow> string \<Rightarrow> net_state \<Rightarrow> ptr \<Rightarrow> thread_start \<Rightarrow>
     (nat \<Rightarrow> thread_start) \<Rightarrow> (int \<times> mt_server) exec" where
  "example2_open ctl pton le os seen net heap b ts = threaded_open ctl pton le os seen net heap b (map ts [0..<4])"

section \<open>The main thread of \<open>example-3.cc\<close>\<close>

text \<open>
  \<^verbatim>\<open>main\<close> after it created the thread that runs the base loop: in \<^verbatim>\<open>sleep(50)\<close>; in the destructor of
  the pool's thread \<open>i\<close>, before \<^verbatim>\<open>quit\<close> and before \<^verbatim>\<open>join_thread\<close>; before the pool's vectors are cleared;
  before \<^verbatim>\<open>loop.quit()\<close>; before the last join; in the destructors of the static objects \<^verbatim>\<open>acceptor\<close> (its pool,
  which is empty by now, and its base class) and \<^verbatim>\<open>loop\<close>; at the end.
\<close>

datatype main_pc = M_Sleep | M_Quit nat | M_Join nat | M_Clear | M_Quit_Base | M_Join_Base
  | M_Exit_Acceptor | M_Exit_Loop | M_Done

text \<open>\<open>n\<close> is the answer of \<^verbatim>\<open>write\<close> in \<^verbatim>\<open>wakeup_event\<close>; a join of a running thread is pending.\<close>

definition quit_at :: "int \<Rightarrow> ptr \<Rightarrow> mt_server \<Rightarrow> mt_server exec" where
  "quit_at n l s =
     (case mt_loops s l of
        None \<Rightarrow> Inl Use_After_Free
      | Some L \<Rightarrow> bind_exec (quit_loop n L) (\<lambda>L'. Inr (set_loop l L' s)))"

fun main_action :: "int \<Rightarrow> main_pc \<times> mt_server \<Rightarrow> (main_pc \<times> mt_server) exec" where
  "main_action n (M_Sleep, s) = Inr (M_Quit 0, s)"
| "main_action n (M_Quit i, s) =
     (if i < length (tp_loop_threads (mt_pool s))
      then bind_exec (quit_at n (tp_ev_loops (mt_pool s) ! i) s) (\<lambda>s'. Inr (M_Join i, s'))
      else Inr (M_Clear, s))"
| "main_action n (M_Join i, s) =
     bind_exec (join_thread (mt_pc s (tp_ev_loops (mt_pool s) ! i) = L_Ended)) (\<lambda>_. Inr (M_Quit (i + 1), s))"
| "main_action n (M_Clear, s) = Inr (M_Quit_Base, s\<lparr>mt_pool := snd (thpool_close (mt_pool s))\<rparr>)"
| "main_action n (M_Quit_Base, s) =
     bind_exec (quit_at n (tp_base_loop (mt_pool s)) s) (\<lambda>s'. Inr (M_Join_Base, s'))"
| "main_action n (M_Join_Base, s) =
     bind_exec (join_thread (mt_pc s (tp_base_loop (mt_pool s)) = L_Ended)) (\<lambda>_. Inr (M_Exit_Acceptor, s))"
| "main_action n (M_Exit_Acceptor, s) =
     (case mt_loops s (tp_base_loop (mt_pool s)) of
        None \<Rightarrow> Inl Use_After_Free
      | Some L \<Rightarrow> bind_exec (acceptor_delete virt (mt_acceptor s) (mt_net s) L) (\<lambda>(a, st, L').
          Inr (M_Exit_Loop, set_loop (tp_base_loop (mt_pool s)) L' (s\<lparr>mt_acceptor := a, mt_net := st, mt_pool := snd (thpool_delete (mt_pool s))\<rparr>))))"
| "main_action n (M_Exit_Loop, s) =
     (case mt_loops s (tp_base_loop (mt_pool s)) of
        None \<Rightarrow> Inl Use_After_Free
      | Some L \<Rightarrow> bind_exec (service_loop_delete virt L (mt_net s)) (\<lambda>(st, _).
          Inr (M_Done, s\<lparr>mt_loops := (mt_loops s)(tp_base_loop (mt_pool s) := None), mt_net := st\<rparr>)))"
| "main_action n (M_Done, s) = Inr (M_Done, s)"

inductive example3_step :: "main_pc \<times> mt_server \<Rightarrow> main_pc \<times> mt_server \<Rightarrow> bool" where
  ex3_thread: "mt_step s t \<Longrightarrow> example3_step (m, s) (m, t)"
| ex3_main: "main_action n x = Inr y \<Longrightarrow> example3_step x y"

inductive example3_reachable :: "main_pc \<times> mt_server \<Rightarrow> main_pc \<times> mt_server \<Rightarrow> bool" for x0 where
  ex3_begin: "example3_reachable x0 x0"
| ex3_next: "example3_reachable x0 x \<Longrightarrow> example3_step x y \<Longrightarrow> example3_reachable x0 y"

section \<open>Executing a schedule\<close>

datatype move = Thread ptr mt_io | Main_Thread int

fun run_moves :: "move list \<Rightarrow> main_pc \<times> mt_server \<Rightarrow> (main_pc \<times> mt_server) exec" where
  "run_moves [] x = Inr x"
| "run_moves (Thread l io # ms) (m, s) =
     (if accept_new io s then bind_exec (loop_action io l s) (\<lambda>s'. run_moves ms (m, s')) else Inl Pending)"
| "run_moves (Main_Thread n # ms) x = bind_exec (main_action n x) (run_moves ms)"

lemma example3_trans: "example3_reachable y z \<Longrightarrow> example3_reachable x y \<Longrightarrow> example3_reachable x z"
  by (induction rule: example3_reachable.induct) (auto intro: example3_reachable.intros)

lemma run_moves_reachable: "run_moves ms x = Inr y \<Longrightarrow> example3_reachable x y"
proof (induction ms x rule: run_moves.induct)
  case (1 x)
  then show ?case by (auto intro: ex3_begin)
next
  case (2 l io ms m s)
  then obtain s' where s': "accept_new io s" "loop_action io l s = Inr s'" "run_moves ms (m, s') = Inr y"
    by (auto simp: bind_exec_eq_Inr split: if_splits)
  have "example3_reachable (m, s) (m, s')"
    by (rule ex3_next [OF ex3_begin ex3_thread [OF mt_act [OF s'(1,2)]]])
  with 2(1) [OF s'] show ?case by (rule example3_trans)
next
  case (3 n ms x)
  then obtain x' where x': "main_action n x = Inr x'" "run_moves ms x' = Inr y" by (auto simp: bind_exec_eq_Inr)
  have "example3_reachable x x'" by (rule ex3_next [OF ex3_begin ex3_main [OF x'(1)]])
  with 3(1) [OF x'] show ?case by (rule example3_trans)
qed

fun is_thread_move :: "move \<Rightarrow> bool" where
  "is_thread_move (Thread l io) = True"
| "is_thread_move (Main_Thread n) = False"

lemma mt_trans: "mt_reachable t u \<Longrightarrow> mt_reachable s t \<Longrightarrow> mt_reachable s u"
  by (induction rule: mt_reachable.induct) (auto intro: mt_reachable.intros)

lemma run_thread_moves:
  "run_moves ms (m, s) = Inr (m', t) \<Longrightarrow> list_all is_thread_move ms \<Longrightarrow> m' = m \<and> mt_reachable s t"
proof (induction ms arbitrary: s)
  case Nil
  then show ?case by (auto intro: mt_begin)
next
  case (Cons a ms)
  then obtain l io where a: "a = Thread l io" by (cases a) auto
  with Cons.prems obtain s' where s': "accept_new io s" "loop_action io l s = Inr s'" "run_moves ms (m, s') = Inr (m', t)"
    by (auto simp: bind_exec_eq_Inr split: if_splits)
  have "mt_reachable s s'" by (rule mt_next [OF mt_begin mt_act [OF s'(1,2)]])
  with Cons.IH [OF s'(3)] Cons.prems(2) show ?case by (auto intro: mt_trans)
qed

section \<open>The start of the program\<close>

text \<open>
  The addresses are those of distinct objects below the heap that \<^verbatim>\<open>new\<close> uses later; the wakeup
  descriptors are open, and the socket the system answers is a new positive one.
\<close>

definition threaded_setup :: "sock_os \<Rightarrow> net_state \<Rightarrow> ptr \<Rightarrow> thread_start \<Rightarrow> thread_start list \<Rightarrow> bool" where
  "threaded_setup os net heap b ts \<longleftrightarrow>
     distinct (map ts_loop (b # ts)) \<and> list_all (\<lambda>t. ts_wakeup t < heap \<and> ts_eventfd t \<in> ns_open net) (b # ts) \<and>
     ts_obj b < heap \<and> so_socket os > 0 \<and> so_socket os \<notin> ns_open net"

lemma start_loops_result:
  "start_loops ctl ts m = Inr m' \<Longrightarrow> dom m' = dom m \<union> ts_loop ` set ts \<and>
   (\<forall>l L. m' l = Some L \<longrightarrow> m l = Some L \<or>
      (\<exists>t\<in>set ts. service_loop_new 2 ctl (ts_epoll t) (ts_eventfd t) (ts_wakeup t) = Inr L))"
proof (induction ts arbitrary: m)
  case (Cons t ts)
  then obtain L where L: "service_loop_new 2 ctl (ts_epoll t) (ts_eventfd t) (ts_wakeup t) = Inr L"
    and r: "start_loops ctl ts (m(ts_loop t \<mapsto> L)) = Inr m'" by (auto simp: bind_exec_eq_Inr)
  from Cons.IH [OF r] L show ?case by (auto split: if_splits)
qed simp

lemma pool_of_threads:
  fixes ts :: "thread_start list" and base :: ptr
  defines "tp \<equiv> thpool_open (\<lambda>i. (ts_obj (ts ! i), ts_loop (ts ! i))) (set_thread_num (thpool_new base) (int (length ts)))"
  shows "tp_base_loop tp = base" "tp_ev_loops tp = map ts_loop ts" "tp_loop_threads tp = map ts_obj ts"
proof -
  define tp0 where "tp0 = set_thread_num (thpool_new base) (int (length ts))"
  have tp0: "tp_thread_num tp0 = int (length ts)" "tp_base_loop tp0 = base" "tp_ev_loops tp0 = []" "tp_loop_threads tp0 = []"
    by (cases ts; simp add: tp0_def set_thread_num_def thpool_new_def)+
  have tp: "tp = thpool_open_loop (\<lambda>i. (ts_obj (ts ! i), ts_loop (ts ! i))) 0 (length ts) tp0"
    unfolding tp_def thpool_open_def tp0_def [symmetric] by (simp add: tp0(1))
  have nths: "map (\<lambda>i. g (ts ! i)) [0..<length ts] = map g ts" for g :: "thread_start \<Rightarrow> ptr"
    by (rule nth_equalityI) simp_all
  show "tp_base_loop tp = base" "tp_ev_loops tp = map ts_loop ts" "tp_loop_threads tp = map ts_obj ts"
    unfolding tp thpool_open_loop_result by (simp_all add: tp0 nths comp_def)
qed

lemma threaded_open_ok:
  assumes ctl: "epoll_ctl_documented ctl" and su: "threaded_setup os net heap b ts"
    and op: "threaded_open ctl pton le os seen net heap b ts = Inr (0, s)"
  shows "mt_ok s"
proof -
  from op obtain L m a addr1 net1 L1 where L: "service_loop_new 2 ctl (ts_epoll b) (ts_eventfd b) (ts_wakeup b) = Inr L"
    and m: "start_loops ctl ts Map.empty = Inr m"
    and acc: "acceptor_open virt pton le os seen (socket_address_make pton le ''127.0.0.1'' 6543)
      (acceptor_new (ts_obj b) (ts_loop b)) net L = Inr (0, a, addr1, net1, L1)"
    and s: "s = \<lparr>mt_clients = [],
      mt_pool = thpool_open (\<lambda>i. (ts_obj (ts ! i), ts_loop (ts ! i))) (set_thread_num (thpool_new (ts_loop b)) (int (length ts))),
      mt_index = 0, mt_heap = heap, mt_handlers = Map.empty, mt_loops = m(ts_loop b \<mapsto> L1), mt_pc = (\<lambda>_. L_Wait 2),
      mt_net = net1, mt_acceptor = a\<rparr>"
    by (auto simp: threaded_open_def acceptor_server_new_def Let_def bind_exec_eq_Inr)
  note f = service_loop_new_facts [OF L ctl]
  have b: "ts_wakeup b < heap" "ts_eventfd b \<in> ns_open net" "ts_obj b < heap" "so_socket os > 0" "so_socket os \<notin> ns_open net"
    and t: "\<And>t. t \<in> set ts \<Longrightarrow> ts_wakeup t < heap \<and> ts_eventfd t \<in> ns_open net"
    using su by (simp_all add: threaded_setup_def list_all_iff)
  have "so_socket os \<notin> live_keys (sl_handlers L)" using f(2) b by (auto simp: live_keys_def)
  from acceptor_open_opened [OF acc f(1) b(4,5) this] obtain d where L1: "in_sync L1"
    "L1 = L\<lparr>sl_dispatcher := d, sl_handlers := [ts_eventfd b \<mapsto> ts_wakeup b, so_socket os \<mapsto> ts_obj b]\<rparr>"
    and net1: "ns_open net1 = insert (so_socket os) (ns_open net)" and self: "ac_self a = ts_obj b"
    by (auto simp: acceptor_new_def f(2))
  note r = start_loops_result [OF m]
  have new: "\<exists>t\<in>set ts. service_loop_new 2 ctl (ts_epoll t) (ts_eventfd t) (ts_wakeup t) = Inr K" if "m l = Some K" for l K
    using r that by simp
  have pool: "tp_base_loop (mt_pool s) = ts_loop b" "tp_ev_loops (mt_pool s) = map ts_loop ts"
    by (simp_all add: s pool_of_threads)
  have base: "loop_ok s (ts_loop b) L1"
    using L1 f(3-5) b net1 self pool(1) by (auto simp: loop_ok_def mt_known_def s live_keys_def split: if_splits)
  have other: "loop_ok s l K" if "m l = Some K" for l K
  proof -
    from new [OF that] obtain t where t': "t \<in> set ts" "service_loop_new 2 ctl (ts_epoll t) (ts_eventfd t) (ts_wakeup t) = Inr K"
      by blast
    note g = service_loop_new_facts [OF t'(2) ctl]
    show ?thesis using g(1-5) t [OF t'(1)] net1 by (auto simp: loop_ok_def mt_known_def s live_keys_def split: if_splits)
  qed
  have none: "sl_functors K = []" if "mt_loops s l = Some K" for l K
  proof (cases "l = ts_loop b")
    case True
    have "sl_functors L1 = []" using f(4) by (simp add: L1(2))
    with True that show ?thesis by (simp add: s)
  next
    case False
    with that have "m l = Some K" by (simp add: s)
    from new [OF this] service_loop_new_facts(4) [OF _ ctl] show ?thesis by blast
  qed
  then have pend: "pending s = {}" unfolding pending_def by fastforce
  show ?thesis
  proof (rule mt_okI)
    fix l K
    assume K: "mt_loops s l = Some K"
    then show "loop_ok s l K" using base other by (cases "l = ts_loop b") (auto simp: s)
    show "tasks_ok s l K" using none [OF K] by (simp add: tasks_ok_def)
  next
    show "fds_ok s" by (simp add: fds_ok_def pend)
    show "accepting_ok s" by (simp add: accepting_ok_def s)
    show "closing_ok s" by (simp add: closing_ok_def s)
    show "objects_ok s" using b self by (simp add: objects_ok_def s)
    show "pool_ok s" unfolding pool_ok_def pool using r by (auto simp: s dom_def)
  qed
qed

section \<open>No use of a deleted object\<close>

lemma get_loop_no_uaf [uaf_intros]: "no_uaf (get_loop tp i)"
  unfolding get_loop_def Let_def by (intro uaf_intros) simp

lemma mt_invoke_no_uaf:
  assumes ok: "mt_ok s" and L: "mt_loops s l = Some L" and p: "sl_handlers L fd = Some p" "p \<noteq> NULL"
  shows "no_uaf (mt_invoke io (mt_acceptor s) p ev (view_of s L))"
proof -
  from mt_okD(1) [OF ok L] p obtain wk where wk: "sl_wakeup L = Some wk" "mt_known s l (wk_self wk) fd p" by (auto simp: loop_ok_def)
  consider (fixed) "p = wk_self wk \<or> p = ac_self (mt_acceptor s)"
    | (conn) c where "p \<noteq> wk_self wk" "p \<noteq> ac_self (mt_acceptor s)" "mt_handlers s p = Some c"
    using wk(2) by (auto simp: mt_known_def)
  then show ?thesis
  proof cases
    case fixed
    with wk(1) show ?thesis by (auto simp: mt_invoke_def intro!: uaf_intros wakeup_handle_read_no_uaf)
  next
    case conn
    from registered_object [OF ok L p(1) conn(3) wk(1) conn(1,2)] have "conn_ready c (view_of s L)"
      by (auto simp: conn_ready_def)
    from conn_event_no_uaf [OF this service_once] conn wk(1) show ?thesis
      by (auto simp: mt_invoke_def intro!: uaf_intros)
  qed
qed

lemma do_dispatch_no_uaf:
  assumes "mt_ok s" "mt_loops s l = Some L"
  shows "no_uaf (do_dispatch io l L t ready fd ev s)"
proof -
  define p where "p = fst (map_index (sl_handlers L) fd)"
  have "no_uaf (dispatch_event (mt_invoke io (mt_acceptor s)) fd ev (view_of s L))"
  proof (cases "p \<noteq> NULL \<and> ev \<in> {EVENT_READ, EVENT_WRITE, EVENT_ERROR}")
    case False
    then show ?thesis by (auto simp: dispatch_event_once p_def Let_def)
  next
    case True
    then have p: "sl_handlers L fd = Some p" "p \<noteq> NULL" by (auto simp: p_def map_index_def split: option.splits)
    have V: "(view_of s L)\<lparr>sl_handlers := sl_handlers L\<rparr> = view_of s L" by (simp add: view_of_def)
    from True mt_invoke_no_uaf [OF assms p, of io ev] p show ?thesis
      by (simp add: dispatch_event_once p_def [symmetric] Let_def map_index_def V)
  qed
  then show ?thesis unfolding do_dispatch_def by (intro uaf_intros)
qed

lemma do_accept_no_uaf:
  assumes ok: "mt_ok s" and pc: "mt_pc s l = L_Accept t ready a"
  shows "no_uaf (do_accept l t ready a s)"
proof (cases a)
  case (A_Choose addr p)
  with accepting_obj(3) [OF mt_okD(4) [OF ok], of l p] pc show ?thesis by (auto intro!: uaf_intros)
next
  case (A_Add addr p k)
  with accepting_add(1) [OF mt_okD(4) [OF ok], of l t ready addr p k] pc show ?thesis by auto
qed (auto simp: Let_def)

lemma do_task_no_uaf:
  assumes ok: "mt_ok s" and L: "mt_loops s l = Some L"
  shows "no_uaf (do_task l L t s)"
proof (cases "sl_functors L")
  case (Cons x q)
  obtain p addr where x: "x = (p, addr)" by fastforce
  with mt_okD(2) [OF ok L] Cons obtain c where "mt_handlers s p = Some c" "cn_live c" by (auto simp: tasks_ok_def)
  with x Cons conn_open_no_uaf [OF service_quiet, of c] show ?thesis by (auto simp: do_task_def intro!: uaf_intros)
qed (simp add: do_task_def)

lemma loop_action_no_uaf:
  assumes "mt_ok s"
  shows "no_uaf (loop_action io l s)"
proof (cases "mt_loops s l")
  case (Some L)
  note L = Some
  show ?thesis
  proof (cases "mt_pc s l")
    case (L_Wait t)
    with L show ?thesis by (auto simp: loop_action_def do_wait_def intro!: uaf_intros)
  next
    case (L_Dispatch t ready)
    with L do_dispatch_no_uaf [OF assms L] show ?thesis by (cases ready) (auto simp: loop_action_def)
  next
    case (L_Accept t ready a)
    with L do_accept_no_uaf [OF assms L_Accept] show ?thesis by (simp add: loop_action_def)
  next
    case (L_Tasks t)
    with L do_task_no_uaf [OF assms L] show ?thesis by (simp add: loop_action_def)
  qed (use L in \<open>simp_all add: loop_action_def\<close>)
qed (simp add: loop_action_def)

section \<open>Whose objects an action changes\<close>

text \<open>
  The object at \<open>p\<close> belongs to the thread of the loop at \<open>l\<close>: it is in the hands of that thread's
  \<^verbatim>\<open>on_accept\<close> (or about to be created there), or it has left it and was given to that loop.
\<close>

definition own_object :: "mt_server \<Rightarrow> ptr \<Rightarrow> ptr \<Rightarrow> bool" where
  "own_object s l p \<longleftrightarrow> accept_obj (mt_pc s l) = Some p \<or> p = mt_heap s \<and> l = tp_base_loop (mt_pool s) \<or>
     (\<exists>c. mt_handlers s p = Some c \<and> cn_srv_loop c = l) \<and> (\<forall>k. accept_obj (mt_pc s k) \<noteq> Some p)"

lemma own_object_unique:
  assumes ok: "mt_ok s" and "own_object s l p" "own_object s k p"
  shows "k = l"
proof -
  have base: "j = tp_base_loop (mt_pool s)" if "accept_obj (mt_pc s j) = Some q" for j q
    using accept_obj_addr [OF that] accepting_addr(1) [OF mt_okD(4) [OF ok], of j] by auto
  have fresh: "mt_handlers s (mt_heap s) = None"
    using mt_okD(6) [OF ok] by (cases "mt_handlers s (mt_heap s)") (auto simp: objects_ok_def)
  show ?thesis
  proof (cases "\<exists>j. accept_obj (mt_pc s j) = Some p")
    case True
    then obtain j where "accept_obj (mt_pc s j) = Some p" by blast
    with assms(2,3) base show ?thesis unfolding own_object_def by metis
  next
    case False
    with assms(2,3) fresh show ?thesis by (auto simp: own_object_def)
  qed
qed

lemma own_objectI:
  "mt_handlers s p = Some c \<Longrightarrow> cn_srv_loop c = l \<Longrightarrow> (\<And>k. accept_obj (mt_pc s k) \<noteq> Some p) \<Longrightarrow> own_object s l p"
  by (auto simp: own_object_def)

lemma set_simps [simp]:
  "mt_handlers (set_pc l pc s) = mt_handlers s" "mt_loops (set_pc l pc s) = mt_loops s"
  "mt_handlers (set_loop l L s) = mt_handlers s" "mt_loops (set_loop l L s) = (mt_loops s)(l \<mapsto> L)"
  by (simp_all add: set_pc_def set_loop_def)

lemma do_dispatch_own:
  assumes ok: "mt_ok s" and L: "mt_loops s l = Some L" and run: "do_dispatch io l L t ready fd ev s = Inr s'"
    and q: "mt_handlers s' q \<noteq> mt_handlers s q"
  shows "own_object s l q"
proof -
  define p where "p = fst (map_index (sl_handlers L) fd)"
  show ?thesis
  proof (cases "p \<noteq> NULL \<and> ev \<in> {EVENT_READ, EVENT_WRITE, EVENT_ERROR}")
    case False
    then have "dispatch_event (mt_invoke io (mt_acceptor s)) fd ev (view_of s L) =
        Inr ((view_of s L)\<lparr>sl_handlers := snd (map_index (sl_handlers L) fd)\<rparr>)"
      by (auto simp: dispatch_event_once p_def Let_def)
    with run q show ?thesis by (auto simp: do_dispatch_def)
  next
    case True
    have p: "sl_handlers L fd = Some p" "p \<noteq> NULL"
      using True by (auto simp: p_def map_index_def split: option.splits)
    have V: "(view_of s L)\<lparr>sl_handlers := sl_handlers L\<rparr> = view_of s L" by (simp add: view_of_def)
    from run True p obtain W where W: "mt_invoke io (mt_acceptor s) p ev (view_of s L) = Inr W" "mt_handlers s' = lv_handlers W"
      by (auto simp: do_dispatch_def dispatch_event_once p_def [symmetric] Let_def bind_exec_eq_Inr map_index_def V)
    from mt_okD(1) [OF ok L] obtain wk where wk: "sl_wakeup L = Some wk" and sync: "in_sync L" by (auto simp: loop_ok_def)
    from mt_invoke_cases [OF W(1), of wk] wk consider (same) "lv_handlers W = mt_handlers s"
      | (conn) c c' W1 where "p \<noteq> wk_self wk" "p \<noteq> ac_self (mt_acceptor s)" "mt_handlers s p = Some c"
          "conn_event service_session (mo_recv io) (mo_send io) ev c (view_of s L) = Inr (c', W1)"
          "lv_handlers W = (lv_handlers W1)(p \<mapsto> c')"
      by (fastforce simp: accept_begin_def Let_def split: sum.splits if_splits)
    then show ?thesis
    proof cases
      case same
      with q W(2) show ?thesis by simp
    next
      case conn
      from registered_object [OF ok L p(1) conn(3) wk conn(1,2)]
      have c: "conn_ready c (view_of s L)" "conn_handle c > 0" "cn_srv_loop c = l" by (auto simp: conn_ready_def)
      from conn_event_outcome [OF conn(4) service_once c(1,2)] sync
      have "lv_handlers W1 = mt_handlers s" by (auto simp: conn_outcome_def only_dispatcher_def)
      with conn(3,5) q W(2) have "q = p" by (auto split: if_splits)
      moreover have "registered L p" using p(1) by (auto simp: registered_def)
      then have "accept_obj (mt_pc s k) \<noteq> Some p" for k using accepting_obj(2) [OF mt_okD(4) [OF ok] _ L] by blast
      ultimately show ?thesis using own_objectI [OF conn(3) c(3)] by blast
    qed
  qed
qed

lemma loop_action_own:
  assumes ok: "mt_ok s" and run: "loop_action io l s = Inr s'" and q: "mt_handlers s' q \<noteq> mt_handlers s q"
  shows "own_object s l q"
proof (cases "mt_loops s l")
  case None
  with run q show ?thesis by (simp add: loop_action_def)
next
  case (Some L)
  note L = Some and run = run [unfolded loop_action_def Some, simplified]
  show ?thesis
  proof (cases "mt_pc s l")
    case (L_Wait t)
    with run q show ?thesis by (auto simp: do_wait_def bind_exec_eq_Inr split: if_splits)
  next
    case (L_Dispatch t ready)
    show ?thesis
    proof (cases ready)
      case Nil
      with L_Dispatch run q show ?thesis by auto
    next
      case (Cons e rest)
      with L_Dispatch run show ?thesis by (cases e) (auto intro: do_dispatch_own [OF ok L _ q])
    qed
  next
    case (L_Accept t ready a)
    with accepting_addr(1) [OF mt_okD(4) [OF ok], of l] run q show ?thesis
      by (cases a)
        (auto simp: Let_def own_object_def bind_exec_eq_Inr split: if_splits option.splits)
  next
    case (L_Remove t ready p)
    with run q show ?thesis by auto
  next
    case (L_Delete t ready p)
    with closing_object [OF ok, of l p] obtain c where c: "mt_handlers s p = Some c" "\<not> cn_live c" "cn_srv_loop c = l" by auto
    have "accept_obj (mt_pc s k) \<noteq> Some p" for k using accepting_obj(3) [OF mt_okD(4) [OF ok], of k p] c by auto
    with own_objectI [OF c(1,3)] have "own_object s l p" by blast
    with L_Delete run q show ?thesis by (auto split: if_splits)
  next
    case (L_Tasks t)
    show ?thesis
    proof (cases "sl_functors L")
      case Nil
      with L_Tasks run q show ?thesis by (auto simp: do_task_def)
    next
      case (Cons x rest)
      with mt_okD(2) [OF ok L] obtain c where c: "mt_handlers s (fst x) = Some c" "cn_srv_loop c = l" by (auto simp: tasks_ok_def)
      have "x \<in> pending s" using Cons by (intro pendingI [OF L]) simp
      then have "accept_obj (mt_pc s k) \<noteq> Some (fst x)" for k
        using accepting_obj(1) [OF mt_okD(4) [OF ok], of k "fst x"] by auto
      with own_objectI [OF c] have "own_object s l (fst x)" by blast
      with Cons L_Tasks run q c(1) show ?thesis
        by (cases x) (auto simp: do_task_def bind_exec_eq_Inr split: if_splits)
    qed
  next
    case L_Ended
    with run q show ?thesis by simp
  qed
qed

section \<open>\<open>on_accept\<close> without interference\<close>

text \<open>The acceptor's data as the theory \<open>Acceptor_Server\<close> has it.\<close>

definition acceptor_view :: "mt_server \<Rightarrow> acceptor_server" where
  "acceptor_view s = \<lparr>as_clients = mt_clients s, as_pool = mt_pool s, as_index = mt_index s, as_next = mt_heap s,
     as_handlers = mt_handlers s, as_queue = (\<lambda>k. case mt_loops s k of None \<Rightarrow> [] | Some K \<Rightarrow> sl_functors K)\<rparr>"

fun run_alone :: "mt_io list \<Rightarrow> ptr \<Rightarrow> mt_server \<Rightarrow> mt_server exec" where
  "run_alone [] l s = Inr s"
| "run_alone (io # ios) l s = bind_exec (loop_action io l s) (run_alone ios l)"

definition accept_length :: "mt_server \<Rightarrow> nat" where
  "accept_length s = (if length (mt_clients s) \<ge> MAX_CLIENT_COUNT then 1 else 5)"

lemma action_at:
  "mt_loops s l = Some L \<Longrightarrow> mt_pc s l = L_Accept t ready a \<Longrightarrow> loop_action io l s = do_accept l t ready a s"
  by (simp add: loop_action_def)

lemma set_pc_at [simp]: "mt_pc (set_pc l pc s) l = pc" "mt_pc (set_loop k K s) = mt_pc s"
  by (simp_all add: set_pc_def set_loop_def)

lemma on_accept_alone:
  assumes L: "mt_loops s l = Some L" and pc: "mt_pc s l = L_Accept t ready (A_Size addr)"
    and pool: "pool_ok s" and small: "\<not> length (mt_clients s) \<ge> MAX_CLIENT_COUNT"
  shows "run_alone [io1, io2, io3, io4, io5] l s =
    bind_exec (get_loop (mt_pool s) (mt_index s)) (\<lambda>(k, i).
      let p = mt_heap s; K = the (mt_loops s k) in
      Inr (set_pc l (L_Dispatch t ready)
        (s\<lparr>mt_heap := p + 1, mt_index := i, mt_handlers := (mt_handlers s)(p \<mapsto> conn_set_service_loop (connection_new p ()) k),
           mt_loops := (mt_loops s)(k \<mapsto> add_run K (p, addr)), mt_clients := mt_clients s @ [p]\<rparr>)))"
proof -
  let ?p = "mt_heap s"
  let ?s1 = "set_pc l (L_Accept t ready (A_New addr)) s"
  let ?s2 = "set_pc l (L_Accept t ready (A_Choose addr ?p)) (?s1\<lparr>mt_heap := Suc ?p, mt_handlers := (mt_handlers s)(?p \<mapsto> connection_new ?p ())\<rparr>)"
  have 1: "loop_action io1 l s = Inr ?s1" using small by (simp add: action_at [OF L pc])
  have 2: "loop_action io2 l ?s1 = Inr ?s2"
    using L by (simp add: action_at) (simp add: set_pc_def Let_def)
  have at2: "mt_pc ?s2 l = L_Accept t ready (A_Choose addr ?p)" "mt_loops ?s2 l = Some L" using L by (simp_all add: set_pc_def)
  have get: "get_loop (mt_pool ?s2) (mt_index ?s2) = get_loop (mt_pool s) (mt_index s)" by (simp add: set_pc_def)
  show ?thesis
  proof (cases "get_loop (mt_pool s) (mt_index s)")
    case (Inl e)
    then have 3: "loop_action io3 l ?s2 = Inl e" by (simp add: action_at [OF at2(2,1)] get)
    from 1 2 3 Inl show ?thesis by simp
  next
    case (Inr r)
    obtain k i where r: "get_loop (mt_pool s) (mt_index s) = Inr (k, i)" using Inr by (cases r) auto
    from get_loop_member [OF r] pool obtain K where K: "mt_loops s k = Some K" by (auto simp: pool_ok_def)
    let ?s3 = "set_pc l (L_Accept t ready (A_Add addr ?p k)) (?s2\<lparr>mt_index := i,
      mt_handlers := (mt_handlers s)(?p \<mapsto> conn_set_service_loop (connection_new ?p ()) k)\<rparr>)"
    let ?s4 = "set_pc l (L_Accept t ready (A_Push ?p)) (set_loop k (add_run K (?p, addr)) ?s3)"
    have 3: "loop_action io3 l ?s2 = Inr ?s3" using r by (simp add: action_at [OF at2(2,1)] get)
    have at3: "mt_pc ?s3 l = L_Accept t ready (A_Add addr ?p k)" "mt_loops ?s3 l = Some L" "mt_loops ?s3 k = Some K"
      using L K by (simp_all add: set_pc_def)
    have 4: "loop_action io4 l ?s3 = Inr ?s4" using at3(3) by (simp add: action_at [OF at3(2,1)])
    have at4: "mt_pc ?s4 l = L_Accept t ready (A_Push ?p)" "mt_loops ?s4 l \<noteq> None" using L by (simp_all add: set_pc_def set_loop_def)
    then obtain L4 where "mt_loops ?s4 l = Some L4" by blast
    from action_at [OF this at4(1)] have 5: "loop_action io5 l ?s4 = Inr (set_pc l (L_Dispatch t ready) (?s4\<lparr>mt_clients := mt_clients ?s4 @ [?p]\<rparr>))"
      by simp
    from 1 2 3 4 5 r K show ?thesis by (simp add: Let_def) (simp add: set_pc_def set_loop_def)
  qed
qed

section \<open>Sample schedules\<close>

definition quiet_io :: mt_io where
  "quiet_io = \<lparr>mo_wait = \<lparr>os_select = (\<lambda>_ _ _ _ _. Inl EBADF), os_poll = (\<lambda>_ _. Inl EBADF),
       os_epoll_wait = (\<lambda>n t. Inr [])\<rparr>,
     mo_accept = Inl EWOULDBLOCK, mo_recv = [Recv_Data []], mo_send = [Send_Error EWOULDBLOCK],
     mo_eventfd = (\<lambda>ws. Inr (sum_list ws))\<rparr>"

definition ready_io :: "(int \<times> 32 word) list \<Rightarrow> mt_io" where
  "ready_io es = quiet_io\<lparr>mo_wait := (mo_wait quiet_io)\<lparr>os_epoll_wait := (\<lambda>n t. Inr es)\<rparr>\<rparr>"

definition accept_io :: "int \<Rightarrow> mt_io" where
  "accept_io fd = quiet_io\<lparr>mo_accept := Inr (fd, zero_sockaddr)\<rparr>"

definition sample_base :: thread_start where
  "sample_base = \<lparr>ts_obj = 300, ts_loop = 50, ts_wakeup = 100, ts_epoll = 3, ts_eventfd = 4\<rparr>"

definition sample_thread :: "nat \<Rightarrow> thread_start" where
  "sample_thread i = \<lparr>ts_obj = 71 + i, ts_loop = 61 + i, ts_wakeup = 101 + i, ts_epoll = 6 + 2 * int i, ts_eventfd = 7 + 2 * int i\<rparr>"

definition sample_threads_net :: net_state where
  "sample_threads_net = \<lparr>ns_open = {0, 1, 2, 3, 4, 6, 7, 8, 9, 10, 11, 12, 13}, ns_flags = (\<lambda>fd. 0)\<rparr>"

definition example2_sample :: "(int \<times> mt_server) exec" where
  "example2_sample = example2_open sample_ctl (\<lambda>s. Some 16777343) True server_os ''127.0.0.1'' sample_threads_net 1000
     sample_base sample_thread"

definition example2_start :: mt_server where
  "example2_start = (case example2_sample of Inr (r, s) \<Rightarrow> s)"

lemma example2_sample_runs: "case example2_sample of Inl e \<Rightarrow> False | Inr (r, s) \<Rightarrow> r = 0"
  by code_simp

lemma example2_sample_start:
  "example2_open sample_ctl (\<lambda>s. Some 16777343) True server_os ''127.0.0.1'' sample_threads_net 1000
     sample_base sample_thread = Inr (0, example2_start)"
proof -
  have "m = Inr (0, case m of Inr (r, s) \<Rightarrow> s)" if "case m of Inl e \<Rightarrow> False | Inr (r, s) \<Rightarrow> r = 0"
    for m :: "(int \<times> mt_server) exec" using that by (cases m) auto
  from this [OF example2_sample_runs] show ?thesis by (simp only: example2_start_def example2_sample_def)
qed

lemma sample_threaded_setup:
  "threaded_setup server_os sample_threads_net 1000 sample_base (map sample_thread [0..<4])"
  by code_simp


text \<open>
  The acceptor has handed the first connection (descriptor 20, object 1000) to the loop at 61 and
  is about to enter it in \<^verbatim>\<open>clients_\<close>; that loop has opened it, seen an error and is inside \<^verbatim>\<open>on_close\<close>.
\<close>

definition race_schedule :: "move list" where
  "race_schedule = map (Thread 50) [ready_io [(5, EPOLLIN)], accept_io 20, quiet_io, quiet_io, quiet_io, quiet_io] @
     map (Thread 61) [quiet_io, quiet_io, quiet_io, quiet_io, ready_io [(20, EPOLLERR)], quiet_io]"

text \<open>That loop finishes first; then the acceptor goes on.\<close>

definition leak_schedule :: "move list" where
  "leak_schedule = map (Thread 61) [quiet_io, quiet_io, quiet_io, quiet_io] @ map (Thread 50) [quiet_io, quiet_io, quiet_io]"

definition race_result :: "(main_pc \<times> mt_server) exec" where
  "race_result = run_moves race_schedule (M_Sleep, example2_start)"

definition leak_result :: "(main_pc \<times> mt_server) exec" where
  "leak_result = bind_exec race_result (run_moves leak_schedule)"

lemma race_runs: "case race_result of Inl e \<Rightarrow> False | Inr (m, s) \<Rightarrow>
    mt_pc s 50 = L_Accept 1 [] (A_Push 1000) \<and> mt_pc s 61 = L_Remove 1 [] 1000"
  by code_simp

lemma leak_runs: "case leak_result of Inl e \<Rightarrow> False | Inr (m, s) \<Rightarrow>
    mt_pc s 50 = L_Wait 1 \<and> mt_pc s 61 = L_Wait 1 \<and> mt_clients s = [1000] \<and> mt_handlers s 1000 = None \<and> mt_heap s = 1001"
  by code_simp

lemma race_obtain:
  obtains s where "race_result = Inr (M_Sleep, s)" "mt_reachable example2_start s"
    "mt_pc s 50 = L_Accept 1 [] (A_Push 1000)" "mt_pc s 61 = L_Remove 1 [] 1000"
proof -
  obtain m s where r: "race_result = Inr (m, s)" "mt_pc s 50 = L_Accept 1 [] (A_Push 1000)" "mt_pc s 61 = L_Remove 1 [] 1000"
    using race_runs by (auto split: sum.splits)
  from run_thread_moves [OF r(1) [unfolded race_result_def]] have "m = M_Sleep" "mt_reachable example2_start s"
    by (simp_all add: race_schedule_def)
  with r that show thesis by blast
qed

lemma leak_obtain:
  obtains s t where "mt_reachable example2_start s" "mt_pc s 50 = L_Accept 1 [] (A_Push 1000)"
    "mt_pc s 61 = L_Remove 1 [] 1000" "mt_reachable s t" "mt_pc t 50 = L_Wait 1" "mt_pc t 61 = L_Wait 1"
    "mt_clients t = [1000]" "mt_handlers t 1000 = None" "mt_heap t = 1001"
proof -
  obtain s where s: "race_result = Inr (M_Sleep, s)" "mt_reachable example2_start s"
    "mt_pc s 50 = L_Accept 1 [] (A_Push 1000)" "mt_pc s 61 = L_Remove 1 [] 1000" by (rule race_obtain)
  obtain m t where t: "leak_result = Inr (m, t)" "mt_pc t 50 = L_Wait 1 \<and> mt_pc t 61 = L_Wait 1 \<and>
    mt_clients t = [1000] \<and> mt_handlers t 1000 = None \<and> mt_heap t = 1001"
    using leak_runs by (auto split: sum.splits)
  have "run_moves leak_schedule (M_Sleep, s) = Inr (m, t)"
    using t(1) unfolding leak_result_def s(1) bind_exec_Inr .
  from run_thread_moves [OF this] have "mt_reachable s t" by (simp add: leak_schedule_def)
  with s(2-4) t(2) that show thesis by blast
qed

text \<open>
  In \<^verbatim>\<open>example-3.cc\<close>: the acceptor has chosen the loop at 61; the main thread destroys the pool's first thread,
  whose loop ends.
\<close>

definition shutdown_schedule :: "move list" where
  "shutdown_schedule = map (Thread 50) [ready_io [(5, EPOLLIN)], accept_io 20, quiet_io, quiet_io, quiet_io] @
     [Main_Thread 8, Main_Thread 8, Thread 61 quiet_io]"

lemma shutdown_runs: "case run_moves shutdown_schedule (M_Sleep, example2_start) of Inl e \<Rightarrow> False | Inr (m, s) \<Rightarrow>
    (case loop_action quiet_io 50 s of Inl e \<Rightarrow> e = Use_After_Free | Inr s' \<Rightarrow> False)"
  by code_simp

section \<open>A client that is gone for good\<close>

lemma loop_action_clients:
  assumes "loop_action io l s = Inr s'"
  shows "mt_heap s \<le> mt_heap s' \<and> (mt_clients s' = mt_clients s \<or> (\<exists>q. mt_clients s' = mt_clients s @ [q]) \<or>
    (\<exists>t ready q. mt_pc s l = L_Remove t ready q \<and> mt_clients s' = erase_client q (mt_clients s)))"
proof (cases "mt_loops s l")
  case None
  with assms show ?thesis by (simp add: loop_action_def)
next
  case (Some L)
  note run = assms [unfolded loop_action_def Some, simplified]
  show ?thesis
  proof (cases "mt_pc s l")
    case (L_Wait t)
    with run show ?thesis by (auto simp: do_wait_def bind_exec_eq_Inr set_pc_def set_loop_def split: if_splits)
  next
    case (L_Dispatch t ready)
    with run show ?thesis
      by (cases ready) (auto simp: do_dispatch_def bind_exec_eq_Inr set_pc_def set_loop_def)
  next
    case (L_Accept t ready a)
    with run show ?thesis
      by (cases a) (auto simp: Let_def bind_exec_eq_Inr set_pc_def set_loop_def split: if_splits option.splits)
  next
    case (L_Tasks t)
    with run show ?thesis
      by (cases "sl_functors L")
        (auto simp: do_task_def bind_exec_eq_Inr set_pc_def set_loop_def split: option.splits)
  qed (use run in \<open>auto simp: set_pc_def\<close>)
qed

lemma stale_client_step:
  assumes ok: "mt_ok s" and run: "loop_action io l s = Inr s'"
    and p: "p \<in> set (mt_clients s)" "mt_handlers s p = None" "p < mt_heap s"
  shows "p \<in> set (mt_clients s') \<and> mt_handlers s' p = None \<and> p < mt_heap s'"
proof -
  note c = loop_action_clients [OF run]
  have "\<not> own_object s l p"
    using p(2,3) accepting_obj(3) [OF mt_okD(4) [OF ok], of l p] by (auto simp: own_object_def)
  then have "mt_handlers s' p = mt_handlers s p" using loop_action_own [OF ok run, of p] by blast
  moreover have "p \<in> set (mt_clients s')"
  proof (cases "\<exists>t ready q. mt_pc s l = L_Remove t ready q")
    case True
    then obtain t ready q where q: "mt_pc s l = L_Remove t ready q" by blast
    with closing_object [OF ok, of l q] p(2) have "q \<noteq> p" by auto
    with c p(1) q show ?thesis by (auto simp: erase_client_remove1)
  next
    case False
    with c p(1) show ?thesis by auto
  qed
  ultimately show ?thesis using p(2,3) c by simp
qed

lemma stale_client_reachable:
  "mt_reachable s t \<Longrightarrow> mt_ok s \<Longrightarrow> p \<in> set (mt_clients s) \<Longrightarrow> mt_handlers s p = None \<Longrightarrow> p < mt_heap s \<Longrightarrow>
   p \<in> set (mt_clients t) \<and> mt_handlers t p = None \<and> p < mt_heap t"
proof (induction rule: mt_reachable.induct)
  case (mt_next t u)
  from mt_reachable_ok [OF mt_next.hyps(1) mt_next.prems(1)] mt_next.IH [OF mt_next.prems] mt_next.hyps(2)
  show ?case by (auto elim!: mt_step.cases dest!: stale_client_step)
qed simp

section \<open>Properties\<close>

text \<open>
  Claim C2. In the multi-threaded server of \<^verbatim>\<open>example-2.cc\<close> every connection object is used by one thread at
  a time although nothing locks it: however the threads interleave and whatever the system answers,
  the next action of no thread uses a deleted object, an action changes only objects that belong to
  its thread, and no object belongs to two threads.
\<close>

theorem threaded_server_confined:
  assumes "epoll_ctl_documented ctl" "threaded_setup os net heap b (map ts [0..<4])"
    and "example2_open ctl pton le os seen net heap b ts = Inr (0, s0)" "mt_reachable s0 s"
  shows "loop_action io l s \<noteq> Inl Use_After_Free \<and>
    (\<forall>s' p. loop_action io l s = Inr s' \<longrightarrow> mt_handlers s' p \<noteq> mt_handlers s p \<longrightarrow> own_object s l p) \<and>
    (\<forall>k p. own_object s l p \<longrightarrow> own_object s k p \<longrightarrow> k = l)"
proof -
  have "mt_ok s0" by (rule threaded_open_ok [OF assms(1,2) assms(3) [unfolded example2_open_def]])
  from mt_reachable_ok [OF assms(4) this] have ok: "mt_ok s" .
  from loop_action_no_uaf [OF ok, of io l] loop_action_own [OF ok, of io l] own_object_unique [OF ok, of l]
  show ?thesis by (auto simp: no_uaf_def)
qed

text \<open>
  Claim C25. Run without interference, the actions of \<^verbatim>\<open>on_accept\<close> compute exactly what the function of
  the theory \<open>Acceptor_Server\<close> computes: the same answer, or the same failure, and the same clients,
  queues, handlers and counter; a refused connection is closed.
\<close>

theorem accept_actions_compute_on_accept:
  assumes "mt_loops s l = Some L" "mt_pc s l = L_Accept t ready (A_Size addr)" "pool_ok s"
    and "length ios = accept_length s"
  shows "case server_on_accept addr (acceptor_view s) of
      Inl e \<Rightarrow> run_alone ios l s = Inl e
    | Inr (b, a) \<Rightarrow> \<exists>s'. run_alone ios l s = Inr s' \<and> acceptor_view s' = a \<and> mt_pc s' l = L_Dispatch t ready \<and>
        ns_open (mt_net s') = ns_open (mt_net s) - (if b then {} else {get_fd addr})"
proof (cases "length (mt_clients s) \<ge> MAX_CLIENT_COUNT")
  case True
  with assms(4) obtain io where "ios = [io]" by (auto simp: accept_length_def length_Suc_conv)
  with True assms(1,2) show ?thesis
    by (simp add: action_at server_on_accept_def acceptor_view_def) (simp add: set_pc_def net_close_def)
next
  case False
  with assms(4) obtain io1 io2 io3 io4 io5 where ios: "ios = [io1, io2, io3, io4, io5]"
    by (auto simp: accept_length_def length_Suc_conv eval_nat_numeral)
  note run = on_accept_alone [OF assms(1-3) False, of io1 io2 io3 io4 io5, folded ios]
  show ?thesis
  proof (cases "get_loop (mt_pool s) (mt_index s)")
    case (Inl e)
    with False run show ?thesis by (simp add: server_on_accept_def acceptor_view_def Let_def)
  next
    case (Inr r)
    obtain k i where r: "get_loop (mt_pool s) (mt_index s) = Inr (k, i)" using Inr by (cases r) auto
    from get_loop_member [OF r] assms(3) obtain K where K: "mt_loops s k = Some K" by (auto simp: pool_ok_def)
    from False run r K show ?thesis
      by (simp add: server_on_accept_def acceptor_view_def Let_def)
        (simp add: set_pc_def add_run_def fun_eq_iff)
  qed
qed

text \<open>
  Claim C34. The client list is shared without a lock: a schedule of \<^verbatim>\<open>example-2.cc\<close> leads to a state in
  which the base loop's thread is about to \<^verbatim>\<open>push_back\<close> to \<^verbatim>\<open>clients_\<close> while the first pool thread is about to
  scan and erase it in \<^verbatim>\<open>remove_handler\<close>; and even if those accesses were atomic, from there the
  connection, whose \<^verbatim>\<open>open\<close> was queued before its entry was made, is deleted first and entered
  afterwards.
\<close>

theorem client_list_race:
  "\<exists>s t. mt_reachable example2_start s \<and> mt_pc s 50 = L_Accept 1 [] (A_Push 1000) \<and> mt_pc s 61 = L_Remove 1 [] 1000 \<and>
     mt_reachable s t \<and> mt_pc t 50 = L_Wait 1 \<and> mt_pc t 61 = L_Wait 1 \<and> mt_clients t = [1000] \<and> mt_handlers t 1000 = None"
  by (rule leak_obtain) blast

text \<open>
  A deleted connection that is in the client list is never taken out again (as long as its address
  is not reused): each one uses up one of the 1024 places for the rest of the run.
\<close>

theorem stale_client_stays:
  assumes "epoll_ctl_documented ctl" "threaded_setup os net heap b (map ts [0..<4])"
    and "example2_open ctl pton le os seen net heap b ts = Inr (0, s0)" "mt_reachable s0 s"
    and "p \<in> set (mt_clients s)" "mt_handlers s p = None" "p < mt_heap s" "mt_reachable s t"
  shows "p \<in> set (mt_clients t) \<and> mt_handlers t p = None"
proof -
  have "mt_ok s0" by (rule threaded_open_ok [OF assms(1,2) assms(3) [unfolded example2_open_def]])
  from mt_reachable_ok [OF assms(4) this] stale_client_reachable [OF assms(8)] assms(5-7) show ?thesis by blast
qed


section \<open>Witnesses\<close>

theorem threaded_server_confined_witness:
  "\<exists>s. mt_reachable example2_start s \<and> mt_pc s 61 = L_Remove 1 [] 1000 \<and> loop_action quiet_io 61 s \<noteq> Inl Use_After_Free"
proof -
  obtain s where s: "mt_reachable example2_start s" "mt_pc s 61 = L_Remove 1 [] 1000" by (rule race_obtain)
  from threaded_server_confined [OF sample_ctl_documented sample_threaded_setup example2_sample_start s(1)] s
  show ?thesis by blast
qed

theorem stale_client_stays_witness:
  "\<exists>t. mt_reachable example2_start t \<and> 1000 \<in> set (mt_clients t) \<and> mt_handlers t 1000 = None"
proof -
  obtain s t where st: "mt_reachable example2_start s" "mt_reachable s t" and t: "mt_clients t = [1000]" "mt_handlers t 1000 = None" "mt_heap t = 1001"
    by (rule leak_obtain)
  from mt_trans [OF st(2,1)] have r: "mt_reachable example2_start t" .
  have "1000 \<in> set (mt_clients t)" "(1000 :: nat) < mt_heap t" using t by simp_all
  from stale_client_stays [OF sample_ctl_documented sample_threaded_setup example2_sample_start r this(1) t(2) this(2) mt_begin] r
  show ?thesis by blast
qed

lemma accepting_state:
  obtains s where "mt_reachable example2_start s" "mt_clients s = []" "mt_index s = 0"
    "tp_ev_loops (mt_pool s) = [61, 62, 63, 64]"
    "mt_pc s 50 = L_Accept 1 [] (A_Size \<lparr>socket_fd = 20, sa_addr = zero_sockaddr\<rparr>)"
proof -
  have "case run_moves (map (Thread 50) [ready_io [(5, EPOLLIN)], accept_io 20]) (M_Sleep, example2_start) of
      Inl e \<Rightarrow> False | Inr (m, s) \<Rightarrow> mt_clients s = [] \<and> mt_index s = 0 \<and> tp_ev_loops (mt_pool s) = [61, 62, 63, 64] \<and>
      mt_pc s 50 = L_Accept 1 [] (A_Size \<lparr>socket_fd = 20, sa_addr = zero_sockaddr\<rparr>)"
    by code_simp
  then obtain m s where r: "run_moves (map (Thread 50) [ready_io [(5, EPOLLIN)], accept_io 20]) (M_Sleep, example2_start) = Inr (m, s)"
    and s: "mt_clients s = []" "mt_index s = 0" "tp_ev_loops (mt_pool s) = [61, 62, 63, 64]"
      "mt_pc s 50 = L_Accept 1 [] (A_Size \<lparr>socket_fd = 20, sa_addr = zero_sockaddr\<rparr>)"
    by (auto split: sum.splits)
  from run_thread_moves [OF r] have "mt_reachable example2_start s" by simp
  with s that show thesis by blast
qed

theorem accept_actions_compute_on_accept_witness:
  "\<exists>s s'. mt_reachable example2_start s \<and> run_alone (replicate 5 quiet_io) 50 s = Inr s' \<and>
     mt_clients s' = [mt_heap s] \<and> mt_pc s' 50 = L_Dispatch 1 []"
proof -
  obtain s where s: "mt_reachable example2_start s" "mt_clients s = []" "mt_index s = 0"
    "tp_ev_loops (mt_pool s) = [61, 62, 63, 64]"
    "mt_pc s 50 = L_Accept 1 [] (A_Size \<lparr>socket_fd = 20, sa_addr = zero_sockaddr\<rparr>)" by (rule accepting_state)
  have "mt_ok example2_start"
    by (rule threaded_open_ok [OF sample_ctl_documented sample_threaded_setup example2_sample_start [unfolded example2_open_def]])
  from mt_reachable_ok [OF s(1) this] have ok: "mt_ok s" .
  from accepting_addr(1) [OF mt_okD(4) [OF ok], of 50] s(5) mt_okD(7) [OF ok] obtain L where L: "mt_loops s 50 = Some L"
    by (auto simp: pool_ok_def)
  have "length (replicate 5 quiet_io) = accept_length s" using s(2) by (simp add: accept_length_def MAX_CLIENT_COUNT_def)
  from accept_actions_compute_on_accept [OF L s(5) mt_okD(7) [OF ok] this] s(2-4) obtain s' where
    "run_alone (replicate 5 quiet_io) 50 s = Inr s'" "as_clients (acceptor_view s') = [mt_heap s]" "mt_pc s' 50 = L_Dispatch 1 []"
    by (auto simp: server_on_accept_def acceptor_view_def MAX_CLIENT_COUNT_def get_loop_def INT_MAX_def Let_def)
  with s(1) show ?thesis by (auto simp: acceptor_view_def)
qed

end
