(* ===== verification/Thread_Rounds.thy ===== *)
theory Thread_Rounds
  imports Thread_Programs
begin

text \<open>
  The threads of the interleaved server run \<^verbatim>\<open>ServiceLoop::run\<close>: the actions a thread performs between two waits, when
  no other thread acts in between, compute one iteration of the sequential loop of \<open>Service_Loop\<close>, with
  the whole handlers and tasks of \<^verbatim>\<open>example-2.cc\<close> as its virtual calls.
\<close>

section \<open>The state as one loop sees it\<close>

text \<open>The loop of a thread, extended with everything else of the process.\<close>

record loop_whole = "(dispatcher, open_task) service_loop" +
  lw_server :: mt_server

definition whole_of :: "mt_server \<Rightarrow> (dispatcher, open_task) service_loop \<Rightarrow> loop_whole" where
  "whole_of s L = \<lparr>sl_quit = sl_quit L, sl_dispatcher = sl_dispatcher L, sl_handlers = sl_handlers L,
     sl_functors = sl_functors L, sl_wakeup = sl_wakeup L, lw_server = s\<rparr>"

definition plain_of :: "loop_whole \<Rightarrow> (dispatcher, open_task) service_loop" where
  "plain_of W = \<lparr>sl_quit = sl_quit W, sl_dispatcher = sl_dispatcher W, sl_handlers = sl_handlers W,
     sl_functors = sl_functors W, sl_wakeup = sl_wakeup W\<rparr>"

definition put_back :: "ptr \<Rightarrow> loop_whole \<Rightarrow> mt_server" where
  "put_back l W = set_loop l (plain_of W) (lw_server W)"

section \<open>The handlers and the tasks as functions\<close>

text \<open>
  \<^verbatim>\<open>acceptor_server::on_accept\<close> called from the loop \<open>l\<close>, with the \<^verbatim>\<open>close\<close> of a refused connection in
  \<^verbatim>\<open>AsyncAcceptor::do_handle_read\<close>: the loop chosen for the new connection may be \<open>l\<close> itself.
\<close>

definition accept_whole :: "ptr \<Rightarrow> socket_address \<Rightarrow> loop_whole \<Rightarrow> loop_whole exec" where
  "accept_whole l addr W =
     (let s = lw_server W in
      if length (mt_clients s) \<ge> MAX_CLIENT_COUNT
      then Inr (W\<lparr>lw_server := s\<lparr>mt_net := net_close (get_fd addr) (mt_net s)\<rparr>\<rparr>)
      else
        let p = mt_heap s in
        bind_exec (get_loop (mt_pool s) (mt_index s)) (\<lambda>(k, index).
          let c = conn_set_service_loop (connection_new p ()) k;
              s1 = s\<lparr>mt_heap := p + 1, mt_index := index, mt_handlers := (mt_handlers s)(p \<mapsto> c),
                     mt_clients := mt_clients s @ [p]\<rparr>
          in if k = l then Inr (add_run (W\<lparr>lw_server := s1\<rparr>) (p, addr))
             else case mt_loops s k of
                    None \<Rightarrow> Inl Use_After_Free
                  | Some K \<Rightarrow> Inr (W\<lparr>lw_server := set_loop k (add_run K (p, addr)) s1\<rparr>)))"

text \<open>A virtual call to its end: what follows the handler's own work is \<^verbatim>\<open>on_accept\<close>, or \<^verbatim>\<open>on_close\<close> and \<^verbatim>\<open>delete this\<close>.\<close>

definition whole_invoke :: "mt_io \<Rightarrow> ptr \<Rightarrow> ptr \<Rightarrow> int \<Rightarrow> loop_whole \<Rightarrow> loop_whole exec" where
  "whole_invoke io l p ev W =
     bind_exec (mt_invoke io (mt_acceptor (lw_server W)) p ev (view_of (lw_server W) (plain_of W))) (\<lambda>V.
       let W1 = whole_of ((lw_server W)\<lparr>mt_handlers := lv_handlers V, mt_net := lv_net V\<rparr>) (loop_of V);
           s1 = lw_server W1
       in case lv_after V of
            Go_On \<Rightarrow> Inr W1
          | Accepting addr \<Rightarrow> accept_whole l addr W1
          | Closing q \<Rightarrow> Inr (W1\<lparr>lw_server := s1\<lparr>mt_clients := erase_client q (mt_clients s1), mt_handlers := (mt_handlers s1)(q := None)\<rparr>\<rparr>))"

text \<open>The task \<^verbatim>\<open>bind(&service_handler::open, ptr, addr)\<close>.\<close>

definition whole_task :: "open_task \<Rightarrow> loop_whole \<Rightarrow> loop_whole exec" where
  "whole_task = (\<lambda>(p, addr) W.
     let s = lw_server W in
     case mt_handlers s p of
       None \<Rightarrow> Inl Use_After_Free
     | Some c \<Rightarrow> bind_exec (conn_open virt service_session addr c (plain_of W)) (\<lambda>(c', L).
         Inr (whole_of (s\<lparr>mt_handlers := (mt_handlers s)(p \<mapsto> c')\<rparr>) L)))"

section \<open>Actions of one thread in a row\<close>

definition leads :: "mt_io \<Rightarrow> ptr \<Rightarrow> mt_server \<Rightarrow> mt_server exec \<Rightarrow> bool" where
  "leads io l s r \<longleftrightarrow> (\<exists>n. run_alone (replicate n io) l s = r)"

lemma run_alone_append: "run_alone (xs @ ys) l s = bind_exec (run_alone xs l s) (run_alone ys l)"
  by (induction xs arbitrary: s) (simp_all add: bind_exec_def split: sum.splits)

lemma leads_refl: "leads io l s (Inr s)"
  unfolding leads_def by (rule exI [of _ 0]) simp

lemma leads_trans: "leads io l s (Inr t) \<Longrightarrow> leads io l t r \<Longrightarrow> leads io l s r"
  unfolding leads_def
proof (elim exE)
  fix m n assume "run_alone (replicate m io) l s = Inr t" "run_alone (replicate n io) l t = r"
  then have "run_alone (replicate (m + n) io) l s = r" by (simp add: replicate_add run_alone_append)
  then show "\<exists>n. run_alone (replicate n io) l s = r" ..
qed

lemma leads_step: "leads io l s (loop_action io l s)"
  unfolding leads_def by (rule exI [of _ 1]) (simp add: bind_exec_def split: sum.splits)

lemma leads_next: "loop_action io l s = Inr t \<Longrightarrow> leads io l t r \<Longrightarrow> leads io l s r"
  by (rule leads_trans [of _ _ _ t]) (use leads_step [of io l s] in simp_all)

lemma leads_stop: "loop_action io l s = Inl e \<Longrightarrow> leads io l s (Inl e)"
  using leads_step [of io l s] by simp

text \<open>Between two calls the state is that of the loop, with the thread at one of its stations.\<close>

definition at_pc :: "ptr \<Rightarrow> loop_pc \<Rightarrow> loop_whole \<Rightarrow> mt_server" where
  "at_pc l pc W = set_pc l pc (put_back l W)"

lemma plain_whole [simp]: "plain_of (whole_of s L) = L" "lw_server (whole_of s L) = s"
  by (cases L; simp add: plain_of_def whole_of_def)+

lemma plain_update [simp]:
  "plain_of (W\<lparr>lw_server := s\<rparr>) = plain_of W"
  "plain_of (add_run (W\<lparr>lw_server := s\<rparr>) f) = add_run (plain_of W) f" "lw_server (add_run W f) = lw_server W"
  by (simp_all add: plain_of_def add_run_def)

lemma at_pc_simps [simp]:
  "mt_loops (at_pc l pc W) l = Some (plain_of W)" "mt_pc (at_pc l pc W) l = pc"
  by (simp_all add: at_pc_def put_back_def set_pc_def set_loop_def)

lemma at_pc_eq:
  "at_pc l pc W = (lw_server W)\<lparr>mt_loops := (mt_loops (lw_server W))(l \<mapsto> plain_of W), mt_pc := (mt_pc (lw_server W))(l := pc)\<rparr>"
  by (simp add: at_pc_def put_back_def set_pc_def set_loop_def)

section \<open>One call\<close>

text \<open>\<open>on_accept\<close>, cut at its accesses to shared data: the end of it first, from the \<open>add_run\<close> on.\<close>

lemma add_leads:
  assumes s: "s = lw_server W"
  shows "leads io l (at_pc l (L_Accept t ready (A_Add addr p k)) W)
    (bind_exec (if k = l then Inr (add_run (W\<lparr>lw_server := s\<lparr>mt_clients := mt_clients s @ [p]\<rparr>\<rparr>) (p, addr))
       else case mt_loops s k of None \<Rightarrow> Inl Use_After_Free
            | Some K \<Rightarrow> Inr (W\<lparr>lw_server := set_loop k (add_run K (p, addr)) (s\<lparr>mt_clients := mt_clients s @ [p]\<rparr>)\<rparr>))
      (\<lambda>W'. Inr (at_pc l (L_Dispatch t ready) W')))" (is "leads io l ?s0 (bind_exec ?r _)")
proof (cases "mt_loops ?s0 k")
  case None
  then have "loop_action io l ?s0 = Inl Use_After_Free" by (simp add: loop_action_def)
  moreover have "?r = Inl Use_After_Free" using None by (auto simp: at_pc_eq s split: if_splits)
  ultimately show ?thesis using leads_stop by fastforce
next
  case (Some K)
  let ?s1 = "set_pc l (L_Accept t ready (A_Push p)) (set_loop k (add_run K (p, addr)) ?s0)"
  let ?s2 = "set_pc l (L_Dispatch t ready) (?s1\<lparr>mt_clients := mt_clients ?s1 @ [p]\<rparr>)"
  have 1: "loop_action io l ?s0 = Inr ?s1" using Some by (simp add: loop_action_def)
  have "mt_pc ?s1 l = L_Accept t ready (A_Push p)" "mt_loops ?s1 l \<noteq> None" by (simp_all add: set_pc_def set_loop_def at_pc_eq)
  then have 2: "loop_action io l ?s1 = Inr ?s2" by (auto simp: loop_action_def)
  let ?W = "if k = l then add_run (W\<lparr>lw_server := s\<lparr>mt_clients := mt_clients s @ [p]\<rparr>\<rparr>) (p, addr)
    else W\<lparr>lw_server := set_loop k (add_run K (p, addr)) (s\<lparr>mt_clients := mt_clients s @ [p]\<rparr>)\<rparr>"
  have "?r = Inr ?W" using Some by (cases "k = l") (simp_all add: at_pc_eq s)
  moreover have "?s2 = at_pc l (L_Dispatch t ready) ?W"
    using Some by (auto simp: at_pc_eq set_pc_def set_loop_def fun_eq_iff s)
  ultimately show ?thesis using leads_next [OF 1 leads_next [OF 2 leads_refl]] by simp
qed

lemma accept_leads:
  "leads io l (at_pc l (L_Accept t ready (A_Size addr)) W)
     (bind_exec (accept_whole l addr W) (\<lambda>W'. Inr (at_pc l (L_Dispatch t ready) W')))"
proof (cases "length (mt_clients (lw_server W)) \<ge> MAX_CLIENT_COUNT")
  case True
  define s where "s = lw_server W"
  have "loop_action io l (at_pc l (L_Accept t ready (A_Size addr)) W) =
      Inr (at_pc l (L_Dispatch t ready) (W\<lparr>lw_server := s\<lparr>mt_net := net_close (get_fd addr) (mt_net s)\<rparr>\<rparr>))"
    using True by (simp add: loop_action_def set_pc_def at_pc_eq s_def)
  from leads_next [OF this leads_refl] True show ?thesis by (simp add: accept_whole_def Let_def s_def)
next
  case False
  define s where "s = lw_server W"
  let ?p = "mt_heap s"
  let ?W2 = "W\<lparr>lw_server := s\<lparr>mt_heap := ?p + 1, mt_handlers := (mt_handlers s)(?p \<mapsto> connection_new ?p ())\<rparr>\<rparr>"
  have 1: "loop_action io l (at_pc l (L_Accept t ready (A_Size addr)) W) = Inr (at_pc l (L_Accept t ready (A_New addr)) W)"
    using False by (simp add: loop_action_def set_pc_def at_pc_eq)
  have 2: "loop_action io l (at_pc l (L_Accept t ready (A_New addr)) W) = Inr (at_pc l (L_Accept t ready (A_Choose addr ?p)) ?W2)"
    by (simp add: loop_action_def set_pc_def at_pc_eq Let_def s_def)
  show ?thesis
  proof (cases "get_loop (mt_pool s) (mt_index s)")
    case (Inl e)
    then have "loop_action io l (at_pc l (L_Accept t ready (A_Choose addr ?p)) ?W2) = Inl e" by (simp add: loop_action_def at_pc_eq)
    from leads_next [OF 1 leads_next [OF 2 leads_stop [OF this]]] Inl False show ?thesis by (simp add: accept_whole_def flip: s_def)
  next
    case (Inr r)
    obtain k i where r: "get_loop (mt_pool s) (mt_index s) = Inr (k, i)" using Inr by (cases r) auto
    let ?W3 = "W\<lparr>lw_server := s\<lparr>mt_heap := ?p + 1, mt_index := i,
      mt_handlers := (mt_handlers s)(?p \<mapsto> conn_set_service_loop (connection_new ?p ()) k)\<rparr>\<rparr>"
    have 3: "loop_action io l (at_pc l (L_Accept t ready (A_Choose addr ?p)) ?W2) = Inr (at_pc l (L_Accept t ready (A_Add addr ?p k)) ?W3)"
      using r by (simp add: loop_action_def set_pc_def at_pc_eq)
    let ?s3 = "s\<lparr>mt_heap := ?p + 1, mt_index := i,
      mt_handlers := (mt_handlers s)(?p \<mapsto> conn_set_service_loop (connection_new ?p ()) k)\<rparr>"
    have "?s3 = lw_server ?W3" by simp
    from leads_next [OF 1 leads_next [OF 2 leads_next [OF 3 add_leads [OF this]]]] r False show ?thesis
      by (cases "k = l") (simp_all add: accept_whole_def Let_def cong: option.case_cong flip: s_def)
  qed
qed

text \<open>The loop's own work before a virtual call, in either model.\<close>

lemma dispatch_event_cases:
  "dispatch_event invoke fd ev L =
    (if ev \<in> {EVENT_READ, EVENT_WRITE, EVENT_ERROR} \<and> fst (map_index (sl_handlers L) fd) \<noteq> NULL
     then invoke (fst (map_index (sl_handlers L) fd)) ev (L\<lparr>sl_handlers := snd (map_index (sl_handlers L) fd)\<rparr>)
     else Inr (L\<lparr>sl_handlers := snd (map_index (sl_handlers L) fd)\<rparr>))"
  by (auto simp: dispatch_event_def event_defs Let_def bind_exec_def split: prod.splits sum.splits)

lemma plain_handlers [simp]: "sl_handlers (plain_of W) = sl_handlers W"
  "plain_of (W\<lparr>sl_handlers := m\<rparr>) = (plain_of W)\<lparr>sl_handlers := m\<rparr>"
  by (simp_all add: plain_of_def)

lemma view_handlers: "(view_of s L)\<lparr>sl_handlers := m\<rparr> = view_of s (L\<lparr>sl_handlers := m\<rparr>)"
  by (simp add: view_of_def)

lemma do_dispatch_whole:
  "do_dispatch io l (plain_of W) t ready fd ev (at_pc l pc W) =
    bind_exec (dispatch_event (mt_invoke io (mt_acceptor (lw_server W))) fd ev (view_of (lw_server W) (plain_of W))) (\<lambda>V.
      Inr (at_pc l (after_pc t ready (lv_after V))
        (whole_of ((lw_server W)\<lparr>mt_handlers := lv_handlers V, mt_net := lv_net V\<rparr>) (loop_of V))))"
proof -
  have v: "view_of (at_pc l pc W) L = view_of (lw_server W) L" for L by (simp add: view_of_def at_pc_eq)
  show ?thesis
    unfolding do_dispatch_def v
    by (rule arg_cong2 [where f = bind_exec]) (simp_all add: fun_eq_iff at_pc_eq set_pc_def set_loop_def)
qed

text \<open>\<^verbatim>\<open>on_close\<close> and \<^verbatim>\<open>delete this\<close>.\<close>

lemma close_leads:
  assumes s: "s = lw_server W"
  shows "leads io l (at_pc l (L_Remove t ready q) W) (Inr (at_pc l (L_Dispatch t ready)
    (W\<lparr>lw_server := s\<lparr>mt_clients := erase_client q (mt_clients s), mt_handlers := (mt_handlers s)(q := None)\<rparr>\<rparr>)))"
proof -
  let ?W1 = "W\<lparr>lw_server := s\<lparr>mt_clients := erase_client q (mt_clients s)\<rparr>\<rparr>"
  have 1: "loop_action io l (at_pc l (L_Remove t ready q) W) = Inr (at_pc l (L_Delete t ready q) ?W1)"
    by (simp add: loop_action_def set_pc_def at_pc_eq s)
  have "loop_action io l (at_pc l (L_Delete t ready q) ?W1) = Inr (at_pc l (L_Dispatch t ready)
      (W\<lparr>lw_server := s\<lparr>mt_clients := erase_client q (mt_clients s), mt_handlers := (mt_handlers s)(q := None)\<rparr>\<rparr>))"
    by (simp add: loop_action_def set_pc_def at_pc_eq s)
  from leads_next [OF 1 leads_next [OF this leads_refl]] show ?thesis .
qed

lemma call_leads:
  "leads io l (at_pc l (after_pc t ready (lv_after V)) W)
    (bind_exec (case lv_after V of Go_On \<Rightarrow> Inr W | Accepting addr \<Rightarrow> accept_whole l addr W
       | Closing q \<Rightarrow> Inr (W\<lparr>lw_server := (lw_server W)\<lparr>mt_clients := erase_client q (mt_clients (lw_server W)),
           mt_handlers := (mt_handlers (lw_server W))(q := None)\<rparr>\<rparr>))
      (\<lambda>W'. Inr (at_pc l (L_Dispatch t ready) W')))"
  using leads_refl accept_leads close_leads [OF refl] by (cases "lv_after V") simp_all

lemma event_leads:
  "leads io l (at_pc l (L_Dispatch t ((fd, ev) # ready)) W)
     (bind_exec (dispatch_event (whole_invoke io l) fd ev W) (\<lambda>W'. Inr (at_pc l (L_Dispatch t ready) W')))"
    (is "leads io l ?s0 _")
proof -
  define s where "s = lw_server W"
  let ?m = "snd (map_index (sl_handlers W) fd)" and ?p = "fst (map_index (sl_handlers W) fd)"
  let ?L = "(plain_of W)\<lparr>sl_handlers := ?m\<rparr>"
  have act: "loop_action io l ?s0 = do_dispatch io l (plain_of W) t ready fd ev ?s0" by (simp add: loop_action_def)
  show ?thesis
  proof (cases "ev \<in> {EVENT_READ, EVENT_WRITE, EVENT_ERROR} \<and> ?p \<noteq> NULL")
    case False
    then have "loop_action io l ?s0 =
        Inr (at_pc l (L_Dispatch t ready) (whole_of (s\<lparr>mt_handlers := mt_handlers s, mt_net := mt_net s\<rparr>) ?L))"
      unfolding act do_dispatch_whole dispatch_event_cases by (auto simp: view_handlers s_def)
    moreover have "at_pc l pc (whole_of (s\<lparr>mt_handlers := mt_handlers s, mt_net := mt_net s\<rparr>) ?L) =
        at_pc l pc (W\<lparr>sl_handlers := ?m\<rparr>)" for pc
      by (simp add: at_pc_eq s_def)
    ultimately have "loop_action io l ?s0 = Inr (at_pc l (L_Dispatch t ready) (W\<lparr>sl_handlers := ?m\<rparr>))" by simp
    from leads_next [OF this leads_refl] False show ?thesis unfolding dispatch_event_cases by auto
  next
    case True
    let ?call = "mt_invoke io (mt_acceptor s) ?p ev (view_of s ?L)"
    let ?W = "\<lambda>V. whole_of (s\<lparr>mt_handlers := lv_handlers V, mt_net := lv_net V\<rparr>) (loop_of V)"
    have step: "loop_action io l ?s0 = bind_exec ?call (\<lambda>V. Inr (at_pc l (after_pc t ready (lv_after V)) (?W V)))"
      using True unfolding act do_dispatch_whole dispatch_event_cases by (simp add: view_handlers s_def)
    have fn: "dispatch_event (whole_invoke io l) fd ev W = whole_invoke io l ?p ev (W\<lparr>sl_handlers := ?m\<rparr>)"
      using True unfolding dispatch_event_cases by auto
    have s: "lw_server (W\<lparr>sl_handlers := m\<rparr>) = s" for m by (simp add: s_def)
    show ?thesis
    proof (cases ?call)
      case (Inl e)
      with step have "loop_action io l ?s0 = Inl e" by simp
      from leads_stop [OF this] Inl show ?thesis unfolding fn by (simp add: whole_invoke_def s)
    next
      case (Inr V)
      with step have "loop_action io l ?s0 = Inr (at_pc l (after_pc t ready (lv_after V)) (?W V))" by simp
      from leads_next [OF this call_leads] Inr show ?thesis unfolding fn by (simp add: whole_invoke_def s Let_def)
    qed
  qed
qed

text \<open>All reported events, then all queued tasks.\<close>

lemma ready_leads:
  "leads io l (at_pc l (L_Dispatch t ready) W)
     (bind_exec (dispatch_ready (whole_invoke io l) ready W) (\<lambda>W'. Inr (at_pc l (L_Tasks t) W')))"
proof (induction ready arbitrary: W)
  case Nil
  have "loop_action io l (at_pc l (L_Dispatch t []) W) = Inr (at_pc l (L_Tasks t) W)"
    by (simp add: loop_action_def set_pc_def at_pc_eq)
  from leads_next [OF this leads_refl] show ?case by simp
next
  case (Cons x ready)
  obtain fd ev where x: "x = (fd, ev)" by (cases x)
  from event_leads [of io l t fd ev ready W] Cons.IH show ?case
    by (cases "dispatch_event (whole_invoke io l) fd ev W") (auto simp: x intro: leads_trans)
qed

lemma conn_open_functors:
  assumes "conn_open virt service_session addr c L = Inr (c', L')"
  shows "sl_functors L' = sl_functors L"
  using assms
  by (auto simp: conn_open_def service_session_def Let_def bind_exec_eq_Inr dest!: register_event_handlers split: if_splits)

lemma whole_task_functors: "whole_task f W = Inr W' \<Longrightarrow> sl_functors W' = sl_functors W"
  by (cases f) (auto simp: whole_task_def bind_exec_eq_Inr whole_of_def plain_of_def Let_def dest!: conn_open_functors split: option.splits)

lemma plain_functors [simp]: "sl_functors (plain_of W) = sl_functors W"
  "plain_of (W\<lparr>sl_functors := q\<rparr>) = (plain_of W)\<lparr>sl_functors := q\<rparr>"
  by (simp_all add: plain_of_def)

lemma tasks_leads:
  "sl_functors W = fs \<Longrightarrow> leads io l (at_pc l (L_Tasks t) W)
     (bind_exec (run_tasks whole_task fs W) (\<lambda>W'. Inr (at_pc l (L_Wait t) W')))"
proof (induction fs arbitrary: W)
  case Nil
  then have none: "(plain_of W)\<lparr>sl_functors := []\<rparr> = plain_of W" by (simp add: plain_of_def)
  from Nil have "loop_action io l (at_pc l (L_Tasks t) W) = Inr (at_pc l (L_Wait t) W)"
    by (simp add: loop_action_def do_task_def none) (simp add: at_pc_eq set_pc_def set_loop_def)
  from leads_next [OF this leads_refl] show ?case by simp
next
  case (Cons f fs)
  obtain p addr where f: "f = (p, addr)" by (cases f)
  define s where "s = lw_server W"
  let ?L = "(plain_of W)\<lparr>sl_functors := fs\<rparr>"
  have act: "loop_action io l (at_pc l (L_Tasks t) W) =
      (case whole_task f (W\<lparr>sl_functors := fs\<rparr>) of Inl e \<Rightarrow> Inl e | Inr W' \<Rightarrow> Inr (at_pc l (L_Tasks t) W'))"
  proof (cases "mt_handlers s p")
    case None
    with Cons.prems f show ?thesis by (simp add: loop_action_def do_task_def whole_task_def at_pc_eq flip: s_def)
  next
    case (Some c)
    with Cons.prems f show ?thesis
      by (simp add: loop_action_def do_task_def whole_task_def at_pc_eq bind_exec_def set_loop_def flip: s_def split: sum.splits prod.splits)
  qed
  show ?case
  proof (cases "whole_task f (W\<lparr>sl_functors := fs\<rparr>)")
    case (Inl e)
    with act have "loop_action io l (at_pc l (L_Tasks t) W) = Inl e" by simp
    from leads_stop [OF this] Inl show ?thesis by simp
  next
    case (Inr W')
    with act have go: "loop_action io l (at_pc l (L_Tasks t) W) = Inr (at_pc l (L_Tasks t) W')" by simp
    from whole_task_functors [OF Inr] have "sl_functors W' = fs" by simp
    from leads_next [OF go Cons.IH [OF this]] Inr show ?thesis by simp
  qed
qed

lemma drain_whole: "drain_functors whole_task W = Some (run_tasks whole_task (sl_functors W) W)"
  by (rule drain_functors_run_tasks [OF whole_task_functors refl])

section \<open>One round\<close>

definition whole_round :: "mt_io \<Rightarrow> ptr \<Rightarrow> int \<Rightarrow> loop_whole \<Rightarrow> (int \<times> loop_whole) exec" where
  "whole_round io l t W = loop_iteration virt (whole_invoke io l) whole_task (mo_wait io) t W"

lemma whole_round_tasks [code]:
  "whole_round io l t W =
    bind_exec (the_dispatcher W) (\<lambda>d.
    bind_exec (handle_events virt d (mo_wait io) [] t) (\<lambda>(ret, ready, d').
    bind_exec (dispatch_ready (whole_invoke io l) ready (W\<lparr>sl_dispatcher := Some d'\<rparr>)) (\<lambda>W2.
    bind_exec (run_tasks whole_task (sl_functors W2) W2) (\<lambda>W3. Inr (next_timeout ret, W3)))))"
  by (simp add: whole_round_def loop_iteration_def drain_whole)

lemma round_leads:
  assumes "mt_loops s l = Some L" "mt_pc s l = L_Wait t" "\<not> sl_quit L"
  shows "\<exists>n>0. run_alone (replicate n io) l s = bind_exec (whole_round io l t (whole_of s L)) (\<lambda>(t', W). Inr (at_pc l (L_Wait t') W))"
proof -
  have act: "loop_action io l s = do_wait io l L t s" using assms by (simp add: loop_action_def)
  have one: "run_alone (replicate 1 io) l s = Inl e" if "loop_action io l s = Inl e" for e using that by simp
  show ?thesis
  proof (cases "sl_dispatcher L")
    case None
    then have "the_dispatcher (whole_of s L) = Inl Null_Deref" "the_dispatcher L = Inl Null_Deref" by (simp_all add: the_dispatcher_def whole_of_def)
    with one [of Null_Deref] act assms(3) show ?thesis
      by (intro exI [of _ 1]) (simp add: whole_round_tasks do_wait_def)
  next
    case (Some d)
    then have d: "the_dispatcher (whole_of s L) = Inr d" "the_dispatcher L = Inr d" by (simp_all add: whole_of_def)
    show ?thesis
    proof (cases "virt_handle_events d (mo_wait io) [] t")
      case (Inl e)
      then have "loop_action io l s = Inl e" using act assms(3) d by (simp add: do_wait_def)
      from one [OF this] Inl d(1) show ?thesis
        by (intro exI [of _ 1]) (simp only: whole_round_tasks vtable_virt_simps bind_exec_Inl bind_exec_Inr, simp)
    next
      case (Inr x)
      obtain ret ready d' where x: "x = (ret, ready, d')" by (metis prod_cases3)
      let ?t = "next_timeout ret" and ?W = "(whole_of s L)\<lparr>sl_dispatcher := Some d'\<rparr>"
      have "plain_of ?W = L\<lparr>sl_dispatcher := Some d'\<rparr>" "lw_server ?W = s" by (cases L; simp add: plain_of_def whole_of_def)+
      then have go: "loop_action io l s = Inr (at_pc l (L_Dispatch ?t ready) ?W)"
        using act assms(3) d Inr x by (simp add: do_wait_def at_pc_eq set_pc_def set_loop_def)
      have "leads io l (at_pc l (L_Dispatch ?t ready) ?W)
          (bind_exec (dispatch_ready (whole_invoke io l) ready ?W) (\<lambda>W2.
           bind_exec (run_tasks whole_task (sl_functors W2) W2) (\<lambda>W3. Inr (at_pc l (L_Wait ?t) W3))))"
      proof (cases "dispatch_ready (whole_invoke io l) ready ?W")
        case (Inl e)
        with ready_leads [of io l ?t ready ?W] show ?thesis by simp
      next
        case (Inr W2)
        with ready_leads [of io l ?t ready ?W] have "leads io l (at_pc l (L_Dispatch ?t ready) ?W) (Inr (at_pc l (L_Tasks ?t) W2))" by simp
        from leads_trans [OF this tasks_leads [OF refl]] Inr show ?thesis by simp
      qed
      then obtain n where n: "run_alone (replicate n io) l (at_pc l (L_Dispatch ?t ready) ?W) =
          bind_exec (dispatch_ready (whole_invoke io l) ready ?W) (\<lambda>W2.
           bind_exec (run_tasks whole_task (sl_functors W2) W2) (\<lambda>W3. Inr (at_pc l (L_Wait ?t) W3)))" by (auto simp: leads_def)
      have "whole_round io l t (whole_of s L) = bind_exec (dispatch_ready (whole_invoke io l) ready ?W) (\<lambda>W2.
           bind_exec (run_tasks whole_task (sl_functors W2) W2) (\<lambda>W3. Inr (?t, W3)))"
        by (simp only: whole_round_tasks vtable_virt_simps d(1) Inr x bind_exec_Inr prod.case)
      with go n have "run_alone (replicate (Suc n) io) l s =
          bind_exec (whole_round io l t (whole_of s L)) (\<lambda>(t', W). Inr (at_pc l (L_Wait t') W))"
        by (simp add: bind_exec_assoc)
      then show ?thesis by blast
    qed
  qed
qed

section \<open>Properties\<close>


text \<open>The base loop of \<^verbatim>\<open>example-2.cc\<close> accepts the first connection and queues its \<^verbatim>\<open>open\<close> on the loop at 61.\<close>

definition first_client_io :: mt_io where
  "first_client_io = (ready_io [(5, EPOLLIN)])\<lparr>mo_accept := Inr (20, zero_sockaddr)\<rparr>"

lemma first_client_round:
  "case mt_loops example2_start 50 of None \<Rightarrow> False
   | Some L \<Rightarrow> mt_pc example2_start 50 = L_Wait 2 \<and> \<not> sl_quit L \<and>
       (case whole_round first_client_io 50 2 (whole_of example2_start L) of Inl e \<Rightarrow> False
        | Inr (t, W) \<Rightarrow> t = 1 \<and> mt_clients (lw_server W) = [1000] \<and>
            map_option sl_functors (mt_loops (lw_server W) 61) = Some [(1000, \<lparr>socket_fd = 20, sa_addr = zero_sockaddr\<rparr>)])"
  by code_simp


end
