(* ===== verification/Epoll_Interest.thy ===== *)
theory Epoll_Interest
  imports Connection_Stream Acceptor
begin

text \<open>
  What the operations of a loop and of its connections do to the interest list of an epoll instance: each
  entry watches one direction, and an operation changes the entry of its own handle only.
\<close>

section \<open>The interest list\<close>

definition loop_interest :: "(dispatcher, 'f, 'z) service_loop_scheme \<Rightarrow> interest" where
  "loop_interest L = (case sl_dispatcher L of Some (D_Epoll e) \<Rightarrow> ep_interest e | _ \<Rightarrow> Map.empty)"

definition one_direction :: "(dispatcher, 'f, 'z) service_loop_scheme \<Rightarrow> bool" where
  "one_direction L \<longleftrightarrow> on_epoll L \<and> (\<forall>h v. loop_interest L h = Some v \<longrightarrow> v = EPOLLIN \<or> v = EPOLLOUT)"

definition interest_frame :: "int \<Rightarrow> (dispatcher, 'f, 'z) service_loop_scheme \<Rightarrow> (dispatcher, 'f, 'z) service_loop_scheme \<Rightarrow> bool" where
  "interest_frame h L L' \<longleftrightarrow> one_direction L' \<and> (\<forall>k. k \<noteq> h \<longrightarrow> loop_interest L' k = loop_interest L k)"

lemma on_epollE:
  assumes "on_epoll L"
  obtains e where "sl_dispatcher L = Some (D_Epoll e)"
proof -
  from assms obtain d where "sl_dispatcher L = Some d" "is_epoll d" by (auto simp: on_epoll_def)
  with that show thesis by (cases d) auto
qed

lemma one_directionE:
  assumes "one_direction L"
  obtains e where "sl_dispatcher L = Some (D_Epoll e)" "\<And>h v. ep_interest e h = Some v \<Longrightarrow> v = EPOLLIN \<or> v = EPOLLOUT"
  using assms by (auto simp: one_direction_def loop_interest_def elim!: on_epollE)

lemma one_directionI:
  "sl_dispatcher L = Some (D_Epoll e) \<Longrightarrow> (\<And>h v. ep_interest e h = Some v \<Longrightarrow> v = EPOLLIN \<or> v = EPOLLOUT) \<Longrightarrow> one_direction L"
  by (auto simp: one_direction_def loop_interest_def on_epoll_def)

lemma interest_frame_refl: "one_direction L \<Longrightarrow> interest_frame h L L"
  by (simp add: interest_frame_def)

lemma interest_frame_trans: "interest_frame h L M \<Longrightarrow> interest_frame h M N \<Longrightarrow> interest_frame h L N"
  by (simp add: interest_frame_def)

lemma interest_frame_one: "interest_frame h L L' \<Longrightarrow> one_direction L'"
  by (simp add: interest_frame_def)

lemma interest_frameI:
  assumes "sl_dispatcher L = Some (D_Epoll e)" "sl_dispatcher L' = Some (D_Epoll e')"
    and "\<And>k. k \<noteq> h \<Longrightarrow> ep_interest e' k = ep_interest e k"
    and "\<And>k v. ep_interest e k = Some v \<Longrightarrow> v = EPOLLIN \<or> v = EPOLLOUT"
    and "\<And>v. ep_interest e' h = Some v \<Longrightarrow> ep_interest e h = Some v \<or> v = EPOLLIN \<or> v = EPOLLOUT"
  shows "interest_frame h L L'"
proof -
  have "v = EPOLLIN \<or> v = EPOLLOUT" if "ep_interest e' k = Some v" for k v
  proof (cases "k = h")
    case True
    with that have "ep_interest e' h = Some v" by simp
    from assms(5) [OF this] assms(4) show ?thesis by blast
  next
    case False
    with that assms(3) have "ep_interest e k = Some v" by simp
    then show ?thesis by (rule assms(4))
  qed
  with assms(2) have "one_direction L'" by (rule one_directionI)
  with assms(1-3) show ?thesis by (simp add: interest_frame_def loop_interest_def)
qed

text \<open>Loops with the same dispatcher.\<close>

lemma same_dispatcher:
  assumes "sl_dispatcher L' = sl_dispatcher L"
  shows "loop_interest L' = loop_interest L" "one_direction L' = one_direction L" "on_epoll L' = on_epoll L"
    "conn_interest c L' = conn_interest c L"
  using assms by (simp_all add: loop_interest_def one_direction_def on_epoll_def conn_interest_def)

section \<open>The operations of the loop\<close>

lemma epoll_op_interest:
  assumes "epoll_add_event e h r w = Inr (ok, e') \<or> epoll_mod_event e h r w = Inr (ok, e') \<or> epoll_del_event e h = Inr (ok, e')"
  shows "k \<noteq> h \<Longrightarrow> ep_interest e' k = ep_interest e k"
    and "ep_interest e' h = Some v \<Longrightarrow> ep_interest e h = Some v \<or> v = EPOLLIN \<or> v = EPOLLOUT"
  using assms by (auto simp: epoll_defs epoll_events_cases Let_def bind_exec_eq_Inr split: if_splits)

lemma virt_op_frame:
  assumes "one_direction L" "sl_dispatcher L = Some d" "sl_dispatcher L' = Some d'"
    and "virt_add d h r w = Inr (ok, d') \<or> virt_mod d h r w = Inr (ok, d') \<or> virt_del d h = Inr (ok, d')"
  shows "interest_frame h L L'"
proof -
  obtain e where e: "sl_dispatcher L = Some (D_Epoll e)" "\<And>h v. ep_interest e h = Some v \<Longrightarrow> v = EPOLLIN \<or> v = EPOLLOUT"
    using assms(1) by (rule one_directionE) blast
  with assms(2,4) obtain e' where e': "d' = D_Epoll e'"
    and op: "epoll_add_event e h r w = Inr (ok, e') \<or> epoll_mod_event e h r w = Inr (ok, e') \<or> epoll_del_event e h = Inr (ok, e')"
    by auto
  show ?thesis
    by (rule interest_frameI [OF e(1) assms(3) [unfolded e'] epoll_op_interest(1) [OF op] e(2) epoll_op_interest(2) [OF op]])
qed

lemma register_event_frame: "register_event virt L h r w p = Inr (n, L') \<Longrightarrow> one_direction L \<Longrightarrow> interest_frame h L L'"
  by (auto simp: register_event_def the_dispatcher_def bind_exec_eq_Inr split: option.splits if_splits intro: virt_op_frame)

lemma modify_event_frame: "modify_event virt L h r w p = Inr (n, L') \<Longrightarrow> one_direction L \<Longrightarrow> interest_frame h L L'"
  by (auto simp: modify_event_def the_dispatcher_def bind_exec_eq_Inr Let_def split: option.splits if_splits prod.splits
      intro: virt_op_frame)

lemma delete_event_frame: "delete_event virt L h = Inr (n, L') \<Longrightarrow> one_direction L \<Longrightarrow> interest_frame h L L'"
  by (auto simp: delete_event_def the_dispatcher_def bind_exec_eq_Inr split: option.splits if_splits
      intro: virt_op_frame interest_frame_refl)

section \<open>The operations of a connection\<close>

lemma conn_modify_frame:
  assumes "conn_modify virt r w c L = Inr L'" "one_direction L"
  shows "interest_frame (conn_handle c) L L'"
proof -
  from assms(1) have "modify_event virt L (conn_handle c) r w (cn_self c) = Inr (0, L')" by (simp add: conn_modify_result)
  from modify_event_frame [OF this assms(2)] show ?thesis .
qed

lemma conn_send_interest_frame:
  assumes "conn_send virt d c L = Inr (c', L')" "one_direction L"
  shows "interest_frame (conn_handle c) L L'"
proof -
  let ?c = "c\<lparr>cn_out := osb_put (cn_out c) d\<rparr>"
  from assms(1) have "conn_modify virt True True ?c L = Inr L' \<or> L' = L"
    by (auto simp: conn_send_def Let_def bind_exec_eq_Inr split: if_splits)
  with conn_modify_frame [of True True ?c L L'] interest_frame_refl assms(2) show ?thesis by auto
qed

lemma conn_close_interest_frame:
  assumes "conn_close virt cb c L = Inr (c', L')" "one_direction L"
  shows "interest_frame (conn_handle c) L L'"
proof -
  from assms(1) have "delete_event virt L (conn_handle c) = Inr (0, L') \<or> L' = L"
    by (auto simp: conn_close_def bind_exec_eq_Inr split: if_splits)
  with delete_event_frame [of L "conn_handle c" 0 L'] interest_frame_refl assms(2) show ?thesis by auto
qed

lemma conn_write_loop_interest_frame:
  "conn_write_loop virt msg as c L = Inr (c', L') \<Longrightarrow> one_direction L \<Longrightarrow> interest_frame (conn_handle c) L L'"
proof (induction as arbitrary: msg c L)
  case Nil
  then show ?case by (simp add: interest_frame_refl split: if_splits)
next
  case (Cons a as)
  show ?case
  proof (cases a)
    case (Send_Error e)
    with Cons interest_frame_refl show ?thesis by (auto split: if_splits)
  next
    case (Send_Count n)
    let ?c = "c\<lparr>cn_out := sb_ignore (cn_out c) (c_int (int n)), cn_sent := cn_sent c @ take n msg\<rparr>"
    show ?thesis
    proof (cases "msg = [] \<or> n = 0")
      case True
      with Cons.prems Send_Count interest_frame_refl show ?thesis by (cases "msg = []") simp_all
    next
      case False
      with Cons.prems(1) Send_Count obtain L1 where
        L1: "(if osb_empty (cn_out ?c) then conn_modify virt True False ?c L else Inr L) = Inr L1"
          "conn_write_loop virt (sb_to_string (cn_out ?c)) as ?c L1 = Inr (c', L')"
        by (auto simp: Let_def bind_exec_eq_Inr)
      have h: "conn_handle ?c = conn_handle c" by simp
      from L1(1) conn_modify_frame [of True False ?c L L1] interest_frame_refl Cons.prems(2)
      have f: "interest_frame (conn_handle c) L L1" by (auto simp: h split: if_splits)
      from Cons.IH [OF L1(2) interest_frame_one [OF f]] show ?thesis
        using interest_frame_trans [OF f] by (simp add: h)
    qed
  qed
qed

lemma conn_read_interest_frame:
  assumes "conn_handle_read virt cb rcv c L = Inr (c', L')" "answers_once cb" "one_direction L"
  shows "interest_frame (conn_handle c) L L'"
proof -
  from assms(1) obtain ret e s rest where r: "isb_read (cn_in c) rcv = Inr (ret, e, s, rest)"
    by (cases "isb_read (cn_in c) rcv") (auto simp: conn_handle_read_def)
  show ?thesis
  proof (cases "ret \<le> 0")
    case True
    with r assms(1) have "conn_close virt cb (c\<lparr>cn_in := s\<rparr>) L = Inr (c', L')" by (simp add: conn_handle_read_def)
    from conn_close_interest_frame [OF this assms(3)] show ?thesis by simp
  next
    case False
    obtain u d n where "on_read cb (sb_to_string s) (cn_user (c\<lparr>cn_in := s\<rparr>)) = (u, [Cmd_Send d], n)"
      by (rule answers_onceE [OF assms(2)])
    with False r assms(1) obtain c2 where "conn_send virt d (c\<lparr>cn_in := s, cn_user := u\<rparr>) L = Inr (c2, L')"
      by (auto simp: conn_handle_read_def bind_exec_eq_Inr)
    from conn_send_interest_frame [OF this assms(3)] show ?thesis by simp
  qed
qed

lemma conn_open_interest_frame:
  assumes "conn_open virt cb addr c L = Inr (c', L')" "quiet_connect cb" "one_direction L"
  shows "interest_frame (get_fd addr) L L'"
proof -
  obtain u where "on_connect cb addr (cn_user c) = (u, [])" using assms(2) by (metis prod.collapse quiet_connect_def)
  with assms(1) have "register_event virt L (get_fd addr) True False (cn_self c) = Inr (0, L')"
    by (auto simp: conn_open_def Let_def bind_exec_eq_Inr conn_handle_def conn_set_remote_addr_def
        socket_address_assign_def get_fd_def)
  from register_event_frame [OF this assms(3)] show ?thesis .
qed

section \<open>What the wait reports\<close>

text \<open>
  The documented behaviour of \<^verbatim>\<open>epoll_wait(2)\<close>: a descriptor is reported once, with events it is watched for;
  \<^verbatim>\<open>EPOLLERR\<close> and \<^verbatim>\<open>EPOLLHUP\<close> are reported whatever is watched.
\<close>

definition epoll_reports :: "interest \<Rightarrow> (int \<times> 32 word) list \<Rightarrow> bool" where
  "epoll_reports m evs \<longleftrightarrow> distinct (map fst evs) \<and>
     list_all (\<lambda>(fd, ev). case m fd of None \<Rightarrow> False | Some v \<Rightarrow> ev AND NOT (v OR EPOLLERR OR EPOLLHUP) = 0) evs"

text \<open>
  A list of events still to be dispatched: data events are for the direction that is watched, and come
  before every other event of their descriptor.
\<close>

definition for_data :: "int \<times> int \<Rightarrow> bool" where
  "for_data x \<longleftrightarrow> snd x = EVENT_READ \<or> snd x = EVENT_WRITE"

fun events_watched :: "interest \<Rightarrow> ready_event_t \<Rightarrow> bool" where
  "events_watched m [] = True"
| "events_watched m (x # ready) \<longleftrightarrow>
     (snd x = EVENT_READ \<longrightarrow> m (fst x) = Some EPOLLIN) \<and> (snd x = EVENT_WRITE \<longrightarrow> m (fst x) = Some EPOLLOUT) \<and>
     (\<forall>y\<in>set ready. for_data y \<longrightarrow> fst y \<noteq> fst x) \<and> events_watched m ready"

lemma events_watched_cong:
  "events_watched m ready \<Longrightarrow> (\<And>y. y \<in> set ready \<Longrightarrow> for_data y \<Longrightarrow> m' (fst y) = m (fst y)) \<Longrightarrow> events_watched m' ready"
  by (induction ready) (auto simp: for_data_def)

text \<open>Dispatching the first event leaves the others watched.\<close>

lemma events_watched_tl:
  assumes "events_watched m (x # ready)" "\<And>k. k \<noteq> fst x \<Longrightarrow> m' k = m k"
  shows "events_watched m' ready"
  using assms by (intro events_watched_cong [of m ready m']) auto

lemma events_watched_append:
  "events_watched m xs \<Longrightarrow> events_watched m ys \<Longrightarrow> (\<And>x y. x \<in> set xs \<Longrightarrow> y \<in> set ys \<Longrightarrow> fst y \<noteq> fst x) \<Longrightarrow>
   events_watched m (xs @ ys)"
  by (induction xs) auto

lemma no_other_direction:
  fixes ev v w :: "32 word"
  assumes "ev AND NOT v = 0" "v AND w = 0"
  shows "ev AND w = 0"
proof -
  have "ev = (ev AND v) OR (ev AND NOT v)" by (simp flip: bit.conj_disj_distrib)
  with assms(1) have "ev = ev AND v" by simp
  then have "ev AND w = ev AND (v AND w)" by (metis and.assoc)
  with assms(2) show ?thesis by simp
qed

lemma direction_masks:
  "(EPOLLIN OR EPOLLERR OR EPOLLHUP) AND EPOLLOUT = 0" "(EPOLLOUT OR EPOLLERR OR EPOLLHUP) AND (EPOLLIN OR EPOLLPRI) = 0"
  by (simp_all add: epoll_flag_defs)

lemma epoll_event_watched:
  assumes "m fd = Some v" "v = EPOLLIN \<or> v = EPOLLOUT" "ev AND NOT (v OR EPOLLERR OR EPOLLHUP) = 0"
  shows "events_watched m (epoll_events_of (fd, ev))"
  using assms(2)
proof
  assume v: "v = EPOLLIN"
  with no_other_direction [OF assms(3)] direction_masks(1) have "ev AND EPOLLOUT = 0" by blast
  with assms(1) v show ?thesis by (simp add: epoll_events_of_def for_data_def event_defs)
next
  assume v: "v = EPOLLOUT"
  with no_other_direction [OF assms(3)] direction_masks(2) have "ev AND (EPOLLIN OR EPOLLPRI) = 0" by blast
  with assms(1) v show ?thesis by (simp add: epoll_events_of_def for_data_def event_defs)
qed

lemma epoll_reports_Cons:
  "epoll_reports m ((fd, ev) # evs) \<longleftrightarrow> fd \<notin> fst ` set evs \<and> epoll_reports m evs \<and>
     (\<exists>v. m fd = Some v \<and> ev AND NOT (v OR EPOLLERR OR EPOLLHUP) = 0)"
  by (auto simp: epoll_reports_def simp del: bit.de_Morgan_disj split: option.splits)

lemma epoll_reports_watched:
  "epoll_reports m evs \<Longrightarrow> (\<And>h v. m h = Some v \<Longrightarrow> v = EPOLLIN \<or> v = EPOLLOUT) \<Longrightarrow>
   events_watched m (concat (map epoll_events_of evs))"
proof (induction evs)
  case (Cons x evs)
  obtain fd ev where x: "x = (fd, ev)" by fastforce
  from Cons.prems(1) [unfolded x epoll_reports_Cons] obtain v where
    v: "m fd = Some v" "ev AND NOT (v OR EPOLLERR OR EPOLLHUP) = 0" and evs: "fd \<notin> fst ` set evs" "epoll_reports m evs"
    by blast
  have "fst y \<noteq> fst z" if "z \<in> set (epoll_events_of x)" "y \<in> set (concat (map epoll_events_of evs))" for y z
    using epoll_events_of_fd [OF that(1)] epoll_events_of_fds [of evs] that(2) evs(1) x by force
  with events_watched_append [OF epoll_event_watched [of m fd v ev] Cons.IH] Cons.prems(2) v evs(2)
  show ?case by (simp add: x)
qed simp

lemma wait_watched:
  assumes "handle_events virt d os [] t = Inr (ret, ready, d')" "d = D_Epoll e"
    and "\<And>h v. ep_interest e h = Some v \<Longrightarrow> v = EPOLLIN \<or> v = EPOLLOUT"
    and "case os_epoll_wait os (ep_fd_count e) t of Inl err \<Rightarrow> True | Inr evs \<Rightarrow> epoll_reports (ep_interest e) evs"
  shows "\<exists>e'. d' = D_Epoll e' \<and> ep_interest e' = ep_interest e \<and> events_watched (ep_interest e) ready"
  using assms epoll_reports_watched [of "ep_interest e"]
  by (auto simp: epoll_handle_events_def bind_exec_eq_Inr split: sum.splits if_splits)

end
