(* ===== verification/Thread_Stream.thy ===== *)
theory Thread_Stream
  imports Thread_Programs Epoll_Interest
begin

text \<open>
  What the peers of the multi-threaded server receive: the byte stream of every connection, over every
  interleaving of the threads.
\<close>

section \<open>The server with the history of its connections\<close>

text \<open>The connection the thread of the loop at \<open>l\<close> is about to call, with the event.\<close>

definition called_conn :: "ptr \<Rightarrow> mt_server \<Rightarrow> (ptr \<times> int \<times> unit connection) option" where
  "called_conn l s =
     (case mt_loops s l of
        None \<Rightarrow> None
      | Some L \<Rightarrow>
          (case mt_pc s l of
             L_Dispatch t ((fd, ev) # ready) \<Rightarrow>
               (case sl_handlers L fd of
                  None \<Rightarrow> None
                | Some p \<Rightarrow> (case mt_handlers s p of None \<Rightarrow> None | Some c \<Rightarrow> Some (p, ev, c)))
           | _ \<Rightarrow> None))"

text \<open>
  \<open>H p\<close> are the inputs handed to \<^verbatim>\<open>on_read\<close> of the object at \<open>p\<close> so far, one for each call.
\<close>

type_synonym heard = "ptr \<Rightarrow> bytes list"

definition note_heard :: "mt_io \<Rightarrow> ptr \<Rightarrow> mt_server \<Rightarrow> heard \<Rightarrow> heard" where
  "note_heard io l s H =
     (case called_conn l s of
        None \<Rightarrow> H
      | Some (p, ev, c) \<Rightarrow>
          if ev = EVENT_READ \<and> heard_by (mo_recv io) c \<noteq> [] then H(p := H p @ [heard_by (mo_recv io) c]) else H)"

text \<open>
  The documented behaviour of \<^verbatim>\<open>send(2)\<close>, which takes no more than it is offered, and of \<^verbatim>\<open>epoll_wait(2)\<close>.
\<close>

definition sends_documented :: "mt_io \<Rightarrow> ptr \<Rightarrow> mt_server \<Rightarrow> bool" where
  "sends_documented io l s =
     (case called_conn l s of
        None \<Rightarrow> True
      | Some (p, ev, c) \<Rightarrow> ev = EVENT_WRITE \<longrightarrow> send_script (sb_length (cn_out c)) (mo_send io))"

definition wait_documented :: "mt_io \<Rightarrow> ptr \<Rightarrow> mt_server \<Rightarrow> bool" where
  "wait_documented io l s =
     (case mt_loops s l of
        None \<Rightarrow> True
      | Some L \<Rightarrow>
          (case (mt_pc s l, sl_dispatcher L) of
             (L_Wait t, Some (D_Epoll e)) \<Rightarrow>
               (case os_epoll_wait (mo_wait io) (ep_fd_count e) t of
                  Inl err \<Rightarrow> True
                | Inr evs \<Rightarrow> epoll_reports (ep_interest e) evs)
           | _ \<Rightarrow> True))"

inductive heard_reachable :: "mt_server \<Rightarrow> mt_server \<Rightarrow> heard \<Rightarrow> bool" for s0 where
  heard_begin: "heard_reachable s0 s0 (\<lambda>p. [])"
| heard_next: "heard_reachable s0 s H \<Longrightarrow> accept_new io s \<Longrightarrow> sends_documented io l s \<Longrightarrow> wait_documented io l s \<Longrightarrow>
    loop_action io l s = Inr t \<Longrightarrow> heard_reachable s0 t (note_heard io l s H)"

lemma heard_reachable_mt: "heard_reachable s0 s H \<Longrightarrow> mt_reachable s0 s"
  by (induction rule: heard_reachable.induct) (auto intro: mt_begin mt_next mt_act)

text \<open>The replies to a list of inputs.\<close>

definition service_replies :: "bytes list \<Rightarrow> bytes" where
  "service_replies ms = concat (map (\<lambda>m. m @ [10]) ms)"

lemma service_replies_simps [simp]:
  "service_replies [] = []" "service_replies (ms @ [m]) = service_replies ms @ m @ [10]"
  by (simp_all add: service_replies_def)

lemma service_reply: "replies service_session (\<lambda>m. m @ [10])"
  by (simp add: replies_def service_session_def)

lemma note_heard_grows: "\<exists>ms. note_heard io l s H p = H p @ ms"
  by (auto simp: note_heard_def split: option.split prod.split)

section \<open>The invariant\<close>

fun ready_of :: "loop_pc \<Rightarrow> ready_event_t" where
  "ready_of (L_Dispatch t ready) = ready"
| "ready_of (L_Accept t ready a) = ready"
| "ready_of (L_Remove t ready p) = ready"
| "ready_of (L_Delete t ready p) = ready"
| "ready_of _ = []"

text \<open>An object that was created and whose \<^verbatim>\<open>open\<close> has not run yet.\<close>

definition unopened :: "mt_server \<Rightarrow> ptr \<Rightarrow> bool" where
  "unopened s p \<longleftrightarrow> p \<in> fst ` pending s \<or> (\<exists>l. accept_obj (mt_pc s l) = Some p)"

definition loops_watch :: "mt_server \<Rightarrow> bool" where
  "loops_watch s \<longleftrightarrow>
     (\<forall>l L. mt_loops s l = Some L \<longrightarrow> one_direction L \<and> events_watched (loop_interest L) (ready_of (mt_pc s l)))"

definition conns_watch :: "mt_server \<Rightarrow> bool" where
  "conns_watch s \<longleftrightarrow> (\<forall>l L h p c. mt_loops s l = Some L \<longrightarrow> sl_handlers L h = Some p \<longrightarrow> mt_handlers s p = Some c \<longrightarrow>
     conn_interest c L)"

definition object_stream :: "unit connection \<Rightarrow> bytes list \<Rightarrow> bool" where
  "object_stream c ms \<longleftrightarrow> cn_sent c @ ss_str (cn_out c) = service_replies ms \<and> ss_ok (cn_out c) \<and> (cn_live c \<longrightarrow> input_used c)"

definition objects_stream :: "mt_server \<Rightarrow> heard \<Rightarrow> bool" where
  "objects_stream s H \<longleftrightarrow> (\<forall>p c. mt_handlers s p = Some c \<longrightarrow> object_stream c (H p)) \<and>
     (\<forall>p c. unopened s p \<longrightarrow> mt_handlers s p = Some c \<longrightarrow> cn_sent c = [] \<and> H p = []) \<and>
     (\<forall>p. mt_heap s \<le> p \<longrightarrow> H p = [])"

definition streams_ok :: "mt_server \<Rightarrow> heard \<Rightarrow> bool" where
  "streams_ok s H \<longleftrightarrow> loops_watch s \<and> conns_watch s \<and> objects_stream s H"

lemma streams_okI:
  assumes "\<And>l L. mt_loops s l = Some L \<Longrightarrow> one_direction L"
    and "\<And>l L. mt_loops s l = Some L \<Longrightarrow> events_watched (loop_interest L) (ready_of (mt_pc s l))"
    and "\<And>l L h p c. mt_loops s l = Some L \<Longrightarrow> sl_handlers L h = Some p \<Longrightarrow> mt_handlers s p = Some c \<Longrightarrow> conn_interest c L"
    and "\<And>p c. mt_handlers s p = Some c \<Longrightarrow> object_stream c (H p)"
    and "\<And>p c. unopened s p \<Longrightarrow> mt_handlers s p = Some c \<Longrightarrow> cn_sent c = [] \<and> H p = []"
    and "\<And>p. mt_heap s \<le> p \<Longrightarrow> H p = []"
  shows "streams_ok s H"
  using assms by (simp add: streams_ok_def loops_watch_def conns_watch_def objects_stream_def)

lemma streams_okD:
  assumes "streams_ok s H"
  shows "mt_loops s l = Some L \<Longrightarrow> one_direction L"
    and "mt_loops s l = Some L \<Longrightarrow> events_watched (loop_interest L) (ready_of (mt_pc s l))"
    and "mt_loops s l = Some L \<Longrightarrow> sl_handlers L h = Some p \<Longrightarrow> mt_handlers s p = Some c \<Longrightarrow> conn_interest c L"
    and "mt_handlers s p = Some c \<Longrightarrow> object_stream c (H p)"
    and "unopened s p \<Longrightarrow> mt_handlers s p = Some c \<Longrightarrow> cn_sent c = [] \<and> H p = []"
    and "mt_heap s \<le> p \<Longrightarrow> H p = []"
  using assms by (auto simp: streams_ok_def loops_watch_def conns_watch_def objects_stream_def)

lemma interest_conn:
  assumes "conn_interest c L" "one_direction L'" "loop_interest L' (conn_handle c) = loop_interest L (conn_handle c)"
    and "one_direction L"
  shows "conn_interest c L'"
  using assms by (auto simp: conn_interest_def loop_interest_def elim!: one_directionE)

lemma interest_same_conn:
  "conn_interest c L \<Longrightarrow> conn_handle c' = conn_handle c \<Longrightarrow> cn_out c' = cn_out c \<Longrightarrow> conn_interest c' L"
  by (simp add: conn_interest_def)

section \<open>Actions that do not touch a stream\<close>

definition same_stream :: "unit connection \<Rightarrow> unit connection \<Rightarrow> bool" where
  "same_stream c c' \<longleftrightarrow> cn_sent c' = cn_sent c \<and> cn_out c' = cn_out c \<and> cn_in c' = cn_in c \<and> cn_live c' = cn_live c \<and>
     conn_handle c' = conn_handle c"

lemma new_object_stream: "object_stream (connection_new p ()) []"
  by (simp add: object_stream_def connection_new_def input_used_def sb_new_def ss_new_def ss_str_def ss_ok_def at_end_def)

lemma streams_frame:
  assumes inv: "streams_ok s H" and ok: "mt_ok s" and io: "called_conn l s = None"
    and loops: "\<And>k K'. mt_loops s' k = Some K' \<Longrightarrow> \<exists>K. mt_loops s k = Some K \<and> on_epoll K' = on_epoll K \<and>
      loop_interest K' = loop_interest K \<and> (\<forall>h q. sl_handlers K' h = Some q \<longrightarrow> q \<noteq> NULL \<longrightarrow> sl_handlers K h = Some q)"
    and pcs: "\<And>k. k \<noteq> l \<Longrightarrow> mt_pc s' k = mt_pc s k"
    and ready: "\<And>L. mt_loops s l = Some L \<Longrightarrow> events_watched (loop_interest L) (ready_of (mt_pc s' l))"
    and objs: "\<And>q c'. mt_handlers s' q = Some c' \<Longrightarrow>
      (\<exists>c. mt_handlers s q = Some c \<and> same_stream c c') \<or> q = mt_heap s \<and> c' = connection_new q ()"
    and heap: "mt_heap s \<le> mt_heap s'"
    and waiting: "\<And>q. unopened s' q \<Longrightarrow> unopened s q \<or> q = mt_heap s"
  shows "streams_ok s' (note_heard io l s H)"
proof -
  have H: "note_heard io l s H = H" using io by (simp add: note_heard_def)
  note old = mt_okD(6) [OF ok, unfolded objects_ok_def]
  have one: "one_direction K' \<longleftrightarrow> one_direction K" if "on_epoll K' = on_epoll K" "loop_interest K' = loop_interest K"
    for K K' :: "(dispatcher, open_task) service_loop" using that by (simp add: one_direction_def)
  have pos: "0 < q" if "mt_handlers s' q = Some c'" for q c'
    using objs [OF that] old by (metis gr_zeroI less_nat_zero_code)
  have fresh: "mt_handlers s (mt_heap s) = None" using old by (metis less_irrefl not_None_eq)
  show ?thesis unfolding H
  proof (rule streams_okI)
    fix k K'
    assume K': "mt_loops s' k = Some K'"
    from loops [OF this] obtain K where K: "mt_loops s k = Some K" "on_epoll K' = on_epoll K" "loop_interest K' = loop_interest K"
      "\<And>h q. sl_handlers K' h = Some q \<Longrightarrow> q \<noteq> NULL \<Longrightarrow> sl_handlers K h = Some q" by blast
    show o: "one_direction K'" using one [OF K(2,3)] streams_okD(1) [OF inv K(1)] by simp
    show "events_watched (loop_interest K') (ready_of (mt_pc s' k))"
      using ready [of K] streams_okD(2) [OF inv K(1)] pcs [of k] K(1,3) by (cases "k = l") simp_all
    fix h q c'
    assume h: "sl_handlers K' h = Some q" and c': "mt_handlers s' q = Some c'"
    from pos [OF c'] K(4) [OF h] have q: "sl_handlers K h = Some q" by simp
    with registered_bound [OF ok K(1)] have "q < mt_heap s" by (auto simp: registered_def)
    with objs [OF c'] obtain c where c: "mt_handlers s q = Some c" "same_stream c c'" by auto
    from interest_conn [OF streams_okD(3) [OF inv K(1) q c(1)] o _ streams_okD(1) [OF inv K(1)]] K(3)
    have "conn_interest c K'" by simp
    then show "conn_interest c' K'" by (rule interest_same_conn) (use c(2) in \<open>simp_all add: same_stream_def\<close>)
  next
    fix q c'
    assume c': "mt_handlers s' q = Some c'"
    show "object_stream c' (H q)"
    proof (cases "q = mt_heap s")
      case True
      with objs [OF c'] fresh streams_okD(6) [OF inv, of q] new_object_stream show ?thesis by auto
    next
      case False
      with objs [OF c'] obtain c where "mt_handlers s q = Some c" "same_stream c c'" by blast
      with streams_okD(4) [OF inv] show ?thesis by (auto simp: object_stream_def same_stream_def input_used_def)
    qed
    assume "unopened s' q"
    from waiting [OF this] show "cn_sent c' = [] \<and> H q = []"
    proof
      assume w: "unopened s q"
      show ?thesis
      proof (cases "q = mt_heap s")
        case True
        with objs [OF c'] fresh streams_okD(6) [OF inv, of q] show ?thesis by (auto simp: connection_new_def)
      next
        case False
        with objs [OF c'] obtain c where "mt_handlers s q = Some c" "same_stream c c'" by blast
        with streams_okD(5) [OF inv w] show ?thesis by (simp add: same_stream_def)
      qed
    next
      assume "q = mt_heap s"
      with objs [OF c'] fresh streams_okD(6) [OF inv, of q] show ?thesis by (auto simp: connection_new_def)
    qed
  next
    show "H q = []" if "mt_heap s' \<le> q" for q using streams_okD(6) [OF inv, of q] heap that by simp
  qed
qed


lemma called_conn_idle [simp]:
  "mt_pc s l = L_Wait t \<Longrightarrow> called_conn l s = None" "mt_pc s l = L_Tasks t \<Longrightarrow> called_conn l s = None"
  "mt_pc s l = L_Dispatch t [] \<Longrightarrow> called_conn l s = None" "mt_pc s l = L_Accept t ready a \<Longrightarrow> called_conn l s = None"
  "mt_pc s l = L_Remove t ready p \<Longrightarrow> called_conn l s = None" "mt_pc s l = L_Delete t ready p \<Longrightarrow> called_conn l s = None"
  "mt_pc s l = L_Ended \<Longrightarrow> called_conn l s = None" "mt_loops s l = None \<Longrightarrow> called_conn l s = None"
  by (simp_all add: called_conn_def split: option.split)

lemma pending_sub:
  assumes "\<And>k K'. mt_loops s' k = Some K' \<Longrightarrow> \<exists>K. mt_loops s k = Some K \<and> set (sl_functors K') \<subseteq> set (sl_functors K)"
  shows "pending s' \<subseteq> pending s"
  using assms unfolding pending_def by blast

lemma streams_thread:
  assumes inv: "streams_ok s H" and ok: "mt_ok s" and io: "called_conn l s = None" and L: "mt_loops s l = Some L"
    and s': "mt_loops s' = (mt_loops s)(l \<mapsto> L')" "mt_pc s' = (mt_pc s)(l := pc')" "mt_heap s' = mt_heap s"
      "\<And>q c. mt_handlers s' q = Some c \<Longrightarrow> mt_handlers s q = Some c"
    and L': "on_epoll L' = on_epoll L" "loop_interest L' = loop_interest L"
      "\<And>h q. sl_handlers L' h = Some q \<Longrightarrow> q \<noteq> NULL \<Longrightarrow> sl_handlers L h = Some q" "set (sl_functors L') \<subseteq> set (sl_functors L)"
    and pc': "accept_obj pc' = None" "events_watched (loop_interest L) (ready_of pc')"
  shows "streams_ok s' (note_heard io l s H)"
proof (rule streams_frame [OF inv ok io])
  have loops: "k = l \<and> K' = L' \<or> k \<noteq> l \<and> mt_loops s k = Some K'" if "mt_loops s' k = Some K'" for k K'
    using that by (auto simp: s'(1) split: if_splits)
  have "pending s' \<subseteq> pending s"
  proof (rule pending_sub)
    show "\<exists>K. mt_loops s k = Some K \<and> set (sl_functors K') \<subseteq> set (sl_functors K)" if "mt_loops s' k = Some K'" for k K'
      using loops [OF that] L L'(4) by auto
  qed
  then show "unopened s q \<or> q = mt_heap s" if "unopened s' q" for q
    using that pc'(1) by (auto simp: unopened_def s'(2) split: if_splits)
  show "\<exists>K. mt_loops s k = Some K \<and> on_epoll K' = on_epoll K \<and> loop_interest K' = loop_interest K \<and>
      (\<forall>h q. sl_handlers K' h = Some q \<longrightarrow> q \<noteq> NULL \<longrightarrow> sl_handlers K h = Some q)" if "mt_loops s' k = Some K'" for k K'
    using loops [OF that] L L'(1-3) by auto
  show "events_watched (loop_interest M) (ready_of (mt_pc s' l))" if "mt_loops s l = Some M" for M
    using that L pc'(2) by (simp add: s'(2))
  show "(\<exists>c. mt_handlers s q = Some c \<and> same_stream c c') \<or> q = mt_heap s \<and> c' = connection_new q ()"
    if "mt_handlers s' q = Some c'" for q c'
    using s'(4) [OF that] by (auto simp: same_stream_def)
qed (simp_all add: s'(2,3))

lemma do_wait_streams:
  assumes inv: "streams_ok s H" and ok: "mt_ok s" and L: "mt_loops s l = Some L" and pc: "mt_pc s l = L_Wait t"
    and doc: "wait_documented io l s" and run: "do_wait io l L t s = Inr s'"
  shows "streams_ok s' (note_heard io l s H)"
proof -
  obtain e where e: "sl_dispatcher L = Some (D_Epoll e)" "\<And>h v. ep_interest e h = Some v \<Longrightarrow> v = EPOLLIN \<or> v = EPOLLOUT"
    using streams_okD(1) [OF inv L] by (rule one_directionE) blast
  have "\<not> sl_quit L" using mt_okD(1) [OF ok L] by (simp add: loop_ok_def)
  with run e(1) obtain ret ready d' where w: "handle_events virt (D_Epoll e) (mo_wait io) [] t = Inr (ret, ready, d')"
    and s': "s' = set_pc l (L_Dispatch (next_timeout ret) ready) (set_loop l (L\<lparr>sl_dispatcher := Some d'\<rparr>) s)"
    by (auto simp: do_wait_def the_dispatcher_def bind_exec_eq_Inr)
  have r: "case os_epoll_wait (mo_wait io) (ep_fd_count e) t of Inl err \<Rightarrow> True | Inr evs \<Rightarrow> epoll_reports (ep_interest e) evs"
    using doc L pc e(1) by (simp add: wait_documented_def)
  have "\<exists>e'. d' = D_Epoll e' \<and> ep_interest e' = ep_interest e \<and> events_watched (ep_interest e) ready"
    by (rule wait_watched [OF w refl]) (erule e(2), rule r)
  then obtain e' where e': "d' = D_Epoll e'" "ep_interest e' = ep_interest e"
    "events_watched (ep_interest e) ready" by blast
  have i: "loop_interest L = ep_interest e" "on_epoll L" by (simp_all add: loop_interest_def on_epoll_def e(1))
  show ?thesis
    by (rule streams_thread [OF inv ok _ L, where L' = "L\<lparr>sl_dispatcher := Some d'\<rparr>" and pc' = "L_Dispatch (next_timeout ret) ready"])
      (use pc e' i in \<open>simp_all add: s' set_pc_def set_loop_def on_epoll_def loop_interest_def\<close>)
qed

section \<open>Dispatching\<close>

text \<open>An event that is not for a connection.\<close>

lemma do_dispatch_other:
  assumes ok: "mt_ok s" and L: "mt_loops s l = Some L" and pc: "mt_pc s l = L_Dispatch t ((fd, ev) # ready)"
    and no: "called_conn l s = None" and run: "do_dispatch io l L t ready fd ev s = Inr s'"
  shows "\<exists>L' N pc'. s' = set_pc l pc' (set_loop l L' (s\<lparr>mt_net := N\<rparr>)) \<and> sl_dispatcher L' = sl_dispatcher L \<and>
    sl_functors L' = sl_functors L \<and> (\<forall>h q. sl_handlers L' h = Some q \<longrightarrow> q \<noteq> NULL \<longrightarrow> sl_handlers L h = Some q) \<and>
    ready_of pc' = ready \<and> accept_obj pc' = None"
proof -
  define p where "p = fst (map_index (sl_handlers L) fd)"
  from mt_okD(1) [OF ok L] obtain wk where wk: "sl_wakeup L = Some wk" by (auto simp: loop_ok_def)
  show ?thesis
  proof (cases "p \<noteq> NULL \<and> ev \<in> {EVENT_READ, EVENT_WRITE, EVENT_ERROR}")
    case False
    let ?L = "L\<lparr>sl_handlers := snd (map_index (sl_handlers L) fd)\<rparr>"
    have "dispatch_event (mt_invoke io (mt_acceptor s)) fd ev (view_of s L) =
        Inr ((view_of s L)\<lparr>sl_handlers := snd (map_index (sl_handlers L) fd)\<rparr>)"
      using False by (auto simp: dispatch_event_once p_def Let_def)
    then have "s' = set_pc l (L_Dispatch t ready) (set_loop l ?L (s\<lparr>mt_net := mt_net s\<rparr>))"
      using run by (simp add: do_dispatch_def set_pc_def set_loop_def)
    moreover have "\<forall>h q. sl_handlers ?L h = Some q \<longrightarrow> q \<noteq> NULL \<longrightarrow> sl_handlers L h = Some q"
      by (auto simp: map_index_def split: option.splits if_splits)
    ultimately show ?thesis
      by (intro exI [of _ ?L] exI [of _ "mt_net s"] exI [of _ "L_Dispatch t ready"]) simp
  next
    case True
    have p: "sl_handlers L fd = Some p" using True by (auto simp: p_def map_index_def split: option.splits)
    with no L pc have none: "mt_handlers s p = None" by (simp add: called_conn_def split: option.splits)
    let ?V = "view_of s L"
    have V: "?V\<lparr>sl_handlers := sl_handlers L\<rparr> = ?V" by (simp add: view_of_def)
    from run True p obtain W where W: "mt_invoke io (mt_acceptor s) p ev ?V = Inr W"
      and s': "s' = set_pc l (after_pc t ready (lv_after W)) (set_loop l (loop_of W) (s\<lparr>mt_handlers := lv_handlers W, mt_net := lv_net W\<rparr>))"
      by (auto simp: do_dispatch_def dispatch_event_once p_def [symmetric] Let_def bind_exec_eq_Inr map_index_def V)
    have V': "sl_wakeup ?V = Some wk" "lv_handlers ?V p = None" using wk none by simp_all
    have "(\<exists>wk'. W = ?V\<lparr>sl_wakeup := Some wk'\<rparr>) \<or> W = ?V \<or> W = accept_begin (mo_accept io) ?V"
      using mt_invoke_cases [OF W V'(1)] by (elim disjE exE conjE) (blast, blast, blast, simp add: none)
    then consider wk' where "W = ?V\<lparr>sl_wakeup := Some wk'\<rparr>" | "W = ?V" | "W = accept_begin (mo_accept io) ?V" by blast
    then have "lv_handlers W = mt_handlers s \<and> sl_dispatcher W = sl_dispatcher L \<and> sl_functors W = sl_functors L \<and>
      sl_handlers W = sl_handlers L \<and> (lv_after W = Go_On \<or> (\<exists>a. lv_after W = Accepting a))"
    proof cases
      case 3
      then show ?thesis by (cases "mo_accept io") (auto simp: accept_begin_def Let_def)
    qed simp_all
    then have W': "lv_handlers W = mt_handlers s" "sl_dispatcher W = sl_dispatcher L" "sl_functors W = sl_functors L"
      "sl_handlers W = sl_handlers L" "lv_after W = Go_On \<or> (\<exists>a. lv_after W = Accepting a)" by simp_all
    from W'(5) have pc': "ready_of (after_pc t ready (lv_after W)) = ready" "accept_obj (after_pc t ready (lv_after W)) = None" by auto
    have "s' = set_pc l (after_pc t ready (lv_after W)) (set_loop l (loop_of W) (s\<lparr>mt_net := lv_net W\<rparr>))"
      by (simp add: s' W'(1) set_pc_def set_loop_def)
    with pc' W'(2-4) show ?thesis
      by (intro exI [of _ "loop_of W"] exI [of _ "lv_net W"] exI [of _ "after_pc t ready (lv_after W)"]) simp
  qed
qed

lemma do_dispatch_other_streams:
  assumes inv: "streams_ok s H" and ok: "mt_ok s" and L: "mt_loops s l = Some L" and pc: "mt_pc s l = L_Dispatch t ((fd, ev) # ready)"
    and no: "called_conn l s = None" and run: "do_dispatch io l L t ready fd ev s = Inr s'"
  shows "streams_ok s' (note_heard io l s H)"
proof -
  from do_dispatch_other [OF ok L pc no run] obtain L' N pc' where s': "s' = set_pc l pc' (set_loop l L' (s\<lparr>mt_net := N\<rparr>))"
    and L': "sl_dispatcher L' = sl_dispatcher L" "sl_functors L' = sl_functors L"
      "\<And>h q. sl_handlers L' h = Some q \<Longrightarrow> q \<noteq> NULL \<Longrightarrow> sl_handlers L h = Some q"
    and pc': "ready_of pc' = ready" "accept_obj pc' = None" by blast
  have "events_watched (loop_interest L) ready" using streams_okD(2) [OF inv L] pc by simp
  then show ?thesis
    by (intro streams_thread [OF inv ok no L, where L' = L' and pc' = pc'])
      (use L' pc' same_dispatcher [OF L'(1)] in \<open>simp_all add: s' set_pc_def set_loop_def\<close>)
qed


text \<open>A registered connection is ready to be called.\<close>

lemma registered_conn:
  assumes "mt_ok s" "mt_loops s l = Some L" "sl_handlers L h = Some p" "mt_handlers s p = Some c"
  shows "conn_ready c L" "conn_handle c = h" "h > 0" "cn_srv_loop c = l" "p \<noteq> NULL" "cn_self c = p"
    "p \<noteq> ac_self (mt_acceptor s)" "sl_wakeup L = Some wk \<Longrightarrow> p \<noteq> wk_self wk"
proof -
  note objs = mt_okD(6) [OF assms(1), unfolded objects_ok_def]
  from mt_okD(1) [OF assms(1,2)] obtain wk0 where wk: "sl_wakeup L = Some wk0" "mt_handlers s (wk_self wk0) = None"
    by (auto simp: loop_ok_def)
  have ne: "p \<noteq> wk_self wk0" "p \<noteq> ac_self (mt_acceptor s)" using wk(2) objs assms(4) by auto
  from registered_object [OF assms wk(1) ne] show "conn_ready c L" "conn_handle c = h" "h > 0" "cn_srv_loop c = l" by auto
  show "p \<noteq> NULL" "cn_self c = p" using objs assms(4) by auto
  show "p \<noteq> ac_self (mt_acceptor s)" by (rule ne(2))
  show "sl_wakeup L = Some wk \<Longrightarrow> p \<noteq> wk_self wk" using wk(1) ne(1) by simp
qed

lemma do_dispatch_conn:
  assumes ok: "mt_ok s" and L: "mt_loops s l = Some L" and h: "sl_handlers L fd = Some p" and c: "mt_handlers s p = Some c"
    and run: "do_dispatch io l L t ready fd ev s = Inr s'"
  shows "\<exists>c' W. conn_event service_session (mo_recv io) (mo_send io) ev c (view_of s L) = Inr (c', W) \<and>
    conn_outcome c (view_of s L) c' W \<and>
    s' = set_pc l (after_pc t ready (if cn_live c' then Go_On else Closing p))
      (set_loop l (loop_of W) (s\<lparr>mt_handlers := (mt_handlers s)(p \<mapsto> c')\<rparr>))"
proof -
  let ?V = "view_of s L"
  note r = registered_conn [OF ok L h c]
  have V: "?V\<lparr>sl_handlers := sl_handlers L\<rparr> = ?V" by (simp add: view_of_def)
  have m: "map_index (sl_handlers L) fd = (p, sl_handlers L)" using h by (simp add: map_index_def)
  show ?thesis
  proof (cases "ev \<in> {EVENT_READ, EVENT_WRITE, EVENT_ERROR}")
    case False
    then have e: "conn_event service_session (mo_recv io) (mo_send io) ev c ?V = Inr (c, ?V)"
      by (simp add: conn_event_def handler_call_def)
    from False r(5) have d: "dispatch_event (mt_invoke io (mt_acceptor s)) fd ev ?V = Inr ?V"
      by (auto simp: dispatch_event_once m V)
    have live: "cn_live c" using r(1) by (simp add: conn_ready_def)
    have "(mt_handlers s)(p \<mapsto> c) = mt_handlers s" using c by (simp add: fun_upd_idem)
    with run d live e show ?thesis
      by (intro exI [of _ c] exI [of _ ?V])
        (simp add: do_dispatch_def conn_outcome_def same_conn_def set_pc_def set_loop_def)
  next
    case True
    from mt_okD(1) [OF ok L] obtain wk where wk: "sl_wakeup L = Some wk" "in_sync L" by (auto simp: loop_ok_def)
    from True run r(5) m obtain W where W: "mt_invoke io (mt_acceptor s) p ev ?V = Inr W"
      and s': "s' = set_pc l (after_pc t ready (lv_after W)) (set_loop l (loop_of W) (s\<lparr>mt_handlers := lv_handlers W, mt_net := lv_net W\<rparr>))"
      by (auto simp: do_dispatch_def dispatch_event_once Let_def bind_exec_eq_Inr V)
    from W r(7) r(8) [OF wk(1)] wk(1) c obtain c' W1 where e: "conn_event service_session (mo_recv io) (mo_send io) ev c ?V = Inr (c', W1)"
      and W1: "W = W1\<lparr>lv_handlers := (lv_handlers W1)(p \<mapsto> c'), lv_after := (if cn_live c' then Go_On else Closing p)\<rparr>"
      by (auto simp: mt_invoke_def bind_exec_eq_Inr)
    have "conn_ready c ?V" using r(1) by (simp add: conn_ready_def)
    with conn_event_outcome [OF e service_once] r(2,3) wk(2) have o: "conn_outcome c ?V c' W1" by simp
    then have "lv_handlers W1 = mt_handlers s" "lv_net W1 = mt_net s" by (auto simp: conn_outcome_def only_dispatcher_def)
    with s' W1 have "s' = set_pc l (after_pc t ready (if cn_live c' then Go_On else Closing p))
        (set_loop l (loop_of W1) (s\<lparr>mt_handlers := (mt_handlers s)(p \<mapsto> c')\<rparr>))"
      by (simp add: set_pc_def set_loop_def loop_of_def)
    with e o show ?thesis by blast
  qed
qed

lemma dispatch_stream:
  assumes inv: "streams_ok s H" and ok: "mt_ok s" and L: "mt_loops s l = Some L" and pc: "mt_pc s l = L_Dispatch t ((fd, ev) # ready)"
    and h: "sl_handlers L fd = Some p" and c: "mt_handlers s p = Some c" and doc: "sends_documented io l s"
    and ev: "conn_event service_session (mo_recv io) (mo_send io) ev c (view_of s L) = Inr (c', W)"
    and small: "int (length (service_replies (H p))) \<le> INT_MAX"
  shows "object_stream c' (note_heard io l s H p)" "cn_live c' \<Longrightarrow> conn_interest c' W" "interest_frame fd (view_of s L) W"
proof -
  let ?V = "view_of s L"
  note r = registered_conn [OF ok L h c]
  have called: "called_conn l s = Some (p, ev, c)" using L pc h c by (simp add: called_conn_def)
  note V = same_dispatcher [OF view_of_simps(2) [of s L]]
  obtain e where e: "sl_dispatcher L = Some (D_Epoll e)" using streams_okD(1) [OF inv L] by (rule one_directionE)
  have one: "one_direction ?V" using streams_okD(1) [OF inv L] by (simp add: V)
  have ready: "conn_ready c ?V" using r(1) by (simp add: conn_ready_def)
  have live: "cn_live c" using r(1) by (simp add: conn_ready_def)
  note old = streams_okD(4) [OF inv c, unfolded object_stream_def]
  have used: "input_used c" using old live by simp
  have sync: "in_sync L" using mt_okD(1) [OF ok L] by (simp add: loop_ok_def)
  then have st: "stream_ok (c, ?V, concat (H p), service_replies (H p))"
    using old streams_okD(3) [OF inv L h c] ready one
    by (simp add: stream_ok_def conn_sync_def V one_direction_def)
  have w: "ev = EVENT_READ \<Longrightarrow> loop_interest L fd = Some EPOLLIN" "ev = EVENT_WRITE \<Longrightarrow> loop_interest L fd = Some EPOLLOUT"
    using streams_okD(2) [OF inv L] pc by simp_all
  consider (rd) "ev = EVENT_READ" "conn_handle_read virt service_session (mo_recv io) c ?V = Inr (c', W)"
    | (wr) "ev = EVENT_WRITE" "conn_handle_write virt (mo_send io) c ?V = Inr (c', W)"
    | (er) "ev \<noteq> EVENT_READ" "conn_close virt service_session c ?V = Inr (c', W)" | (no) "ev \<noteq> EVENT_READ" "c' = c" "W = ?V"
    using ev unfolding conn_event_def handler_call_def conn_handle_error_def
    by (cases "ev = EVENT_READ"; cases "ev = EVENT_WRITE"; cases "ev = EVENT_ERROR") (simp_all add: event_defs)
  then have "object_stream c' (note_heard io l s H p) \<and> (cn_live c' \<longrightarrow> conn_interest c' W) \<and> interest_frame fd ?V W"
  proof cases
    case rd
    have "disp_reads (D_Epoll e) (conn_handle c)" using w(1) rd(1) e r(2) by (simp add: loop_interest_def epoll_flag_defs)
    from stream_read_ok [OF replies_sends [OF service_reply] st ready _ this rd(2)] e
    have "stream_ok (c', W, concat (H p) @ heard_by (mo_recv io) c, service_replies (H p) @ given_by service_session (mo_recv io) c)" by simp
    then have "stream_ok (c', W, concat (H p) @ heard_by (mo_recv io) c, service_replies (note_heard io l s H p))"
      using called rd(1) reply_given [OF service_reply used, of "mo_recv io"]
      by (cases "heard_by (mo_recv io) c = []") (simp_all add: note_heard_def)
    moreover have "cn_live c' \<longrightarrow> input_used c'" using reply_uses_input [OF service_reply used rd(2)] by blast
    moreover have "interest_frame (conn_handle c) ?V W" by (rule conn_read_interest_frame [OF rd(2) service_once one])
    ultimately show ?thesis using r(2) by (simp add: stream_ok_def object_stream_def)
  next
    case wr
    have "send_script (sb_length (cn_out c)) (mo_send io)" using doc called wr(1) by (simp add: sends_documented_def)
    from stream_write_ok [OF st ready this wr(2) small]
    have "stream_ok (c', W, concat (H p), service_replies (note_heard io l s H p))"
      using called wr(1) by (simp add: note_heard_def event_defs)
    moreover have "cn_in c' = cn_in c" by (rule conn_write_loop_in [OF wr(2) [unfolded conn_handle_write_def]])
    moreover have "interest_frame (conn_handle c) ?V W"
      by (rule conn_write_loop_interest_frame [OF wr(2) [unfolded conn_handle_write_def] one])
    ultimately show ?thesis using r(2) used by (simp add: stream_ok_def object_stream_def input_used_def)
  next
    case er
    from conn_close_stream [OF er(2)] conn_close_interest_frame [OF er(2) one] old r(2) er(1) called show ?thesis
      by (simp add: object_stream_def note_heard_def)
  next
    case no
    with streams_okD(3) [OF inv L h c] streams_okD(4) [OF inv c] interest_frame_refl [OF one] called show ?thesis
      by (simp add: note_heard_def V)
  qed
  then show "object_stream c' (note_heard io l s H p)" "cn_live c' \<Longrightarrow> conn_interest c' W" "interest_frame fd ?V W" by auto
qed


lemma unopened_unregistered:
  assumes "mt_ok s" "mt_loops s l = Some L" "sl_handlers L h = Some p" "mt_handlers s p = Some c"
  shows "\<not> unopened s p"
proof
  have reg: "registered L p" using assms(3) by (auto simp: registered_def)
  assume "unopened s p"
  then consider "p \<in> fst ` pending s" | k where "accept_obj (mt_pc s k) = Some p" by (auto simp: unopened_def)
  then show False
  proof cases
    case 1
    then obtain k K where K: "mt_loops s k = Some K" "p \<in> fst ` set (sl_functors K)" by (auto simp: pending_def)
    with mt_okD(2) [OF assms(1) K(1)] have "cn_srv_loop c = k" "\<not> registered K p" using assms(4) by (auto simp: tasks_ok_def)
    with registered_conn(4) [OF assms] K(1) assms(2) reg show False by simp
  next
    case 2
    from accepting_obj(2) [OF mt_okD(4) [OF assms(1)] this assms(2)] reg show False by simp
  qed
qed

text \<open>
  A step that changes one connection and the entry of its descriptor in its own loop: a virtual call on it, or
  its \<open>open\<close>.
\<close>

definition changes_conn ::
  "mt_server \<Rightarrow> ptr \<Rightarrow> (dispatcher, open_task) service_loop \<Rightarrow> ptr \<Rightarrow> int \<Rightarrow> unit connection \<Rightarrow> loop_pc \<Rightarrow>
     (dispatcher, open_task) service_loop \<Rightarrow> mt_server \<Rightarrow> bool" where
  "changes_conn s l L p fd c' pc' L' s' \<longleftrightarrow> mt_loops s l = Some L \<and>
     (\<exists>c. mt_handlers s p = Some c \<and> cn_srv_loop c = l) \<and>
     mt_loops s' = (mt_loops s)(l \<mapsto> L') \<and> mt_handlers s' = (mt_handlers s)(p \<mapsto> c') \<and> mt_heap s' = mt_heap s \<and>
     mt_pc s' = (mt_pc s)(l := pc') \<and> accept_obj pc' = None \<and> set (sl_functors L') \<subseteq> set (sl_functors L) \<and>
     (\<forall>h q. sl_handlers L' h = Some q \<longrightarrow> h = fd \<and> q = p \<or> h \<noteq> fd \<and> q \<noteq> p \<and> sl_handlers L h = Some q) \<and>
     one_direction L' \<and> (\<forall>k. k \<noteq> fd \<longrightarrow> loop_interest L' k = loop_interest L k)"

lemma changes_connD:
  assumes "changes_conn s l L p fd c' pc' L' s'"
  shows "mt_loops s l = Some L" "\<exists>c. mt_handlers s p = Some c \<and> cn_srv_loop c = l"
    "mt_loops s' = (mt_loops s)(l \<mapsto> L')" "mt_handlers s' = (mt_handlers s)(p \<mapsto> c')" "mt_heap s' = mt_heap s"
    "mt_pc s' = (mt_pc s)(l := pc')" "accept_obj pc' = None" "set (sl_functors L') \<subseteq> set (sl_functors L)"
    "sl_handlers L' h = Some q \<Longrightarrow> h = fd \<and> q = p \<or> h \<noteq> fd \<and> q \<noteq> p \<and> sl_handlers L h = Some q"
    "one_direction L'" "k \<noteq> fd \<Longrightarrow> loop_interest L' k = loop_interest L k"
    "mt_loops s' j = Some K \<Longrightarrow> j = l \<and> K = L' \<or> j \<noteq> l \<and> mt_loops s j = Some K"
  using assms unfolding changes_conn_def by (auto split: if_splits)

lemma changed_unopened:
  assumes c: "changes_conn s l L p fd c' pc' L' s'" and q: "unopened s' q"
  shows "unopened s q"
proof -
  note d = changes_connD [OF c]
  have "pending s' \<subseteq> pending s"
  proof (rule pending_sub)
    show "\<exists>K. mt_loops s k = Some K \<and> set (sl_functors K') \<subseteq> set (sl_functors K)" if "mt_loops s' k = Some K'" for k K'
      using d(12) [OF that] d(1,8) by auto
  qed
  with q d(6,7) show ?thesis by (auto simp: unopened_def split: if_splits)
qed

lemma changed_interest:
  assumes inv: "streams_ok s H" and ok: "mt_ok s" and c: "changes_conn s l L p fd c' pc' L' s'"
    and own: "sl_handlers L' fd = Some p \<Longrightarrow> conn_interest c' L'"
    and K: "mt_loops s' k = Some K" "sl_handlers K h = Some q" "mt_handlers s' q = Some y"
  shows "conn_interest y K"
proof (cases "k = l")
  case True
  note d = changes_connD [OF c]
  from True d(12) [OF K(1)] have K': "K = L'" by simp
  with d(9) [of h q] K(2) consider "h = fd" "q = p" | "h \<noteq> fd" "q \<noteq> p" "sl_handlers L h = Some q" by auto
  then show ?thesis
  proof cases
    case 1
    with own K K' d(4) show ?thesis by simp
  next
    case 2
    with K(3) d(4) have y: "mt_handlers s q = Some y" by simp
    from registered_conn(2) [OF ok d(1) 2(3) y] 2(1) d(11) have "loop_interest L' (conn_handle y) = loop_interest L (conn_handle y)"
      by simp
    from interest_conn [OF streams_okD(3) [OF inv d(1) 2(3) y] d(10) this streams_okD(1) [OF inv d(1)]] show ?thesis by (simp add: K')
  qed
next
  case False
  note d = changes_connD [OF c]
  from False d(12) [OF K(1)] have K': "mt_loops s k = Some K" by simp
  have "q \<noteq> p" using registered_conn(4) [OF ok K' K(2)] d(2) False by auto
  with K(3) d(4) have "mt_handlers s q = Some y" by simp
  from streams_okD(3) [OF inv K' K(2) this] show ?thesis .
qed

lemma streams_changed:
  assumes inv: "streams_ok s H" and ok: "mt_ok s" and c: "changes_conn s l L p fd c' pc' L' s'"
    and own: "sl_handlers L' fd = Some p \<Longrightarrow> conn_interest c' L'" "events_watched (loop_interest L') (ready_of pc')"
    and str: "object_stream c' (H' p)" "\<And>q. q \<noteq> p \<Longrightarrow> H' q = H q" "unopened s p \<Longrightarrow> cn_sent c' = [] \<and> H' p = []"
  shows "streams_ok s' H'"
proof (rule streams_okI)
  note d = changes_connD [OF c]
  fix k K
  assume K: "mt_loops s' k = Some K"
  show "one_direction K" using d(12) [OF K] d(10) streams_okD(1) [OF inv] by auto
  show "events_watched (loop_interest K) (ready_of (mt_pc s' k))"
    using d(12) [OF K] own(2) streams_okD(2) [OF inv, of k K] by (auto simp: d(6))
  show "conn_interest y K" if "sl_handlers K h = Some q" "mt_handlers s' q = Some y" for h q y
    by (rule changed_interest [OF inv ok c own(1) K that])
next
  note d = changes_connD [OF c]
  fix q y
  assume y: "mt_handlers s' q = Some y"
  show "object_stream y (H' q)" using y str(1,2) streams_okD(4) [OF inv] by (cases "q = p") (auto simp: d(4))
  assume "unopened s' q"
  from changed_unopened [OF c this] show "cn_sent y = [] \<and> H' q = []"
    using y str(2,3) streams_okD(5) [OF inv] by (cases "q = p") (auto simp: d(4))
next
  note d = changes_connD [OF c]
  fix q
  assume "mt_heap s' \<le> q"
  moreover have "p < mt_heap s" using mt_okD(6) [OF ok] d(2) by (auto simp: objects_ok_def)
  ultimately show "H' q = []" using str(2) [of q] streams_okD(6) [OF inv, of q] by (simp add: d(5))
qed

lemma dispatch_conn_streams:
  assumes inv: "streams_ok s H" and ok: "mt_ok s" and L: "mt_loops s l = Some L" and pc: "mt_pc s l = L_Dispatch t ((fd, ev) # ready)"
    and h: "sl_handlers L fd = Some p" and c: "mt_handlers s p = Some c" and doc: "sends_documented io l s"
    and run: "do_dispatch io l L t ready fd ev s = Inr s'" and small: "int (length (service_replies (H p))) \<le> INT_MAX"
  shows "streams_ok s' (note_heard io l s H)"
proof -
  from do_dispatch_conn [OF ok L h c run] obtain c' W
    where ev: "conn_event service_session (mo_recv io) (mo_send io) ev c (view_of s L) = Inr (c', W)"
    and out: "conn_outcome c (view_of s L) c' W"
    and s': "s' = set_pc l (after_pc t ready (if cn_live c' then Go_On else Closing p))
      (set_loop l (loop_of W) (s\<lparr>mt_handlers := (mt_handlers s)(p \<mapsto> c')\<rparr>))" by blast
  note r = registered_conn [OF ok L h c]
  note st = dispatch_stream [OF inv ok L pc h c doc ev small]
  have W: "sl_functors W = sl_functors L" "sl_handlers W = sl_handlers L \<and> cn_live c' \<or> sl_handlers W = (sl_handlers L)(fd := None)"
    using out r(2) by (auto simp: conn_outcome_def only_dispatcher_def)
  have view: "loop_interest (view_of s L) = loop_interest L" "loop_interest (loop_of W) = loop_interest W"
    "one_direction (loop_of W) = one_direction W" "\<And>x. conn_interest x (loop_of W) = conn_interest x W"
    by (rule same_dispatcher; simp)+
  have one: "one_direction (loop_of W)" "\<And>k. k \<noteq> fd \<Longrightarrow> loop_interest (loop_of W) k = loop_interest L k"
    using st(3) by (simp_all add: interest_frame_def view)
  have only: "k = fd" if "sl_handlers L k = Some p" for k using registered_conn(2) [OF ok L that c] r(2) by simp
  have handlers: "\<forall>k q. sl_handlers W k = Some q \<longrightarrow> k = fd \<and> q = p \<or> k \<noteq> fd \<and> q \<noteq> p \<and> sl_handlers L k = Some q"
  proof (intro allI impI)
    fix k q
    assume "sl_handlers W k = Some q"
    with W(2) have q: "sl_handlers L k = Some q" by (auto split: if_splits)
    show "k = fd \<and> q = p \<or> k \<noteq> fd \<and> q \<noteq> p \<and> sl_handlers L k = Some q"
    proof (cases "k = fd")
      case True
      with q h show ?thesis by simp
    next
      case False
      with q only have "q \<noteq> p" by blast
      with False q show ?thesis by simp
    qed
  qed
  have "changes_conn s l L p fd c' (after_pc t ready (if cn_live c' then Go_On else Closing p)) (loop_of W) s'"
    using L c r(4) W(1) one handlers by (simp add: changes_conn_def s' set_pc_def set_loop_def)
  then show ?thesis
  proof (rule streams_changed [OF inv ok])
    show "conn_interest c' (loop_of W)" if "sl_handlers (loop_of W) fd = Some p" using that W(2) st(2) by (auto simp: view)
    from events_watched_tl [OF streams_okD(2) [OF inv L, unfolded pc ready_of.simps], of "loop_interest (loop_of W)"] one(2)
    show "events_watched (loop_interest (loop_of W)) (ready_of (after_pc t ready (if cn_live c' then Go_On else Closing p)))" by simp
    show "object_stream c' (note_heard io l s H p)" by (rule st(1))
    show "note_heard io l s H q = H q" if "q \<noteq> p" for q using L pc h c that by (simp add: note_heard_def called_conn_def)
  qed (use unopened_unregistered [OF ok L h c] in simp)
qed

section \<open>Accepting, closing and opening\<close>

lemma pc_streams:
  assumes "streams_ok s H" "mt_ok s" "mt_loops s l = Some L" "called_conn l s = None"
    and "mt_loops s' = mt_loops s" "mt_pc s' = (mt_pc s)(l := pc')" "mt_heap s' = mt_heap s"
    and "\<And>q c. mt_handlers s' q = Some c \<Longrightarrow> mt_handlers s q = Some c"
    and "accept_obj pc' = None" "events_watched (loop_interest L) (ready_of pc')"
  shows "streams_ok s' (note_heard io l s H)"
proof -
  have "mt_loops s' = (mt_loops s)(l \<mapsto> L)" using assms(3,5) by (simp add: fun_upd_idem)
  from streams_thread [OF assms(1,2,4,3) this assms(6-8) refl refl _ _ assms(9,10)] show ?thesis by simp
qed

lemma do_accept_streams:
  assumes inv: "streams_ok s H" and ok: "mt_ok s" and L: "mt_loops s l = Some L" and pc: "mt_pc s l = L_Accept t ready a"
    and run: "do_accept l t ready a s = Inr s'"
  shows "streams_ok s' (note_heard io l s H)"
proof -
  have w: "events_watched (loop_interest L) ready" using streams_okD(2) [OF inv L] pc by simp
  have none: "called_conn l s = None" using pc by simp
  have same: "\<exists>K. mt_loops s k = Some K \<and> on_epoll K' = on_epoll K \<and> loop_interest K' = loop_interest K \<and>
      (\<forall>h q. sl_handlers K' h = Some q \<longrightarrow> q \<noteq> NULL \<longrightarrow> sl_handlers K h = Some q)"
    if "mt_loops s k = Some K'" for k K' using that by blast
  show ?thesis
  proof (cases a)
    case (A_Size addr)
    with run consider "s' = set_pc l (L_Dispatch t ready) (s\<lparr>mt_net := net_close (get_fd addr) (mt_net s)\<rparr>)"
      | "s' = set_pc l (L_Accept t ready (A_New addr)) s" by (auto split: if_splits)
    then show ?thesis
    proof cases
      case 1
      then show ?thesis by (intro pc_streams [OF inv ok L none, where pc' = "L_Dispatch t ready"]) (use w in \<open>simp_all add: set_pc_def\<close>)
    next
      case 2
      then show ?thesis by (intro pc_streams [OF inv ok L none, where pc' = "L_Accept t ready (A_New addr)"]) (use w in \<open>simp_all add: set_pc_def\<close>)
    qed
  next
    case (A_New addr)
    with run have s': "s' = set_pc l (L_Accept t ready (A_Choose addr (mt_heap s)))
        (s\<lparr>mt_heap := mt_heap s + 1, mt_handlers := (mt_handlers s)(mt_heap s \<mapsto> connection_new (mt_heap s) ())\<rparr>)"
      by (simp add: Let_def)
    have pend: "pending s' = pending s" by (simp add: s' set_pc_def pending_def)
    show ?thesis
      by (rule streams_frame [OF inv ok none])
        (use w same L pend in \<open>auto simp: s' set_pc_def same_stream_def unopened_def split: if_splits\<close>)
  next
    case (A_Choose addr p)
    with run obtain k i c where c: "mt_handlers s p = Some c"
      and s': "s' = set_pc l (L_Accept t ready (A_Add addr p k))
        (s\<lparr>mt_index := i, mt_handlers := (mt_handlers s)(p \<mapsto> conn_set_service_loop c k)\<rparr>)"
      by (auto simp: bind_exec_eq_Inr split: option.splits)
    have pend: "pending s' = pending s" by (simp add: s' set_pc_def pending_def)
    have "unopened s p" using pc A_Choose by (auto simp: unopened_def intro: exI [of _ l])
    moreover have "same_stream c (conn_set_service_loop c k)" by (simp add: same_stream_def conn_set_service_loop_def conn_handle_def)
    ultimately show ?thesis
      by (intro streams_frame [OF inv ok none])
        (use w same L pend c in \<open>auto simp: s' set_pc_def same_stream_def unopened_def split: if_splits\<close>)
  next
    case (A_Add addr p k)
    with run obtain K where K: "mt_loops s k = Some K"
      and s': "s' = set_pc l (L_Accept t ready (A_Push p)) (set_loop k (add_run K (p, addr)) s)"
      by (auto split: option.splits)
    have d: "sl_dispatcher (add_run K (p, addr)) = sl_dispatcher K" "sl_handlers (add_run K (p, addr)) = sl_handlers K"
      by (simp_all add: add_run_def)
    note e = same_dispatcher [OF d(1)]
    have "unopened s p" using pc A_Add by (auto simp: unopened_def intro: exI [of _ l])
    moreover have "q \<in> fst ` pending s \<or> q = p" if "q \<in> fst ` pending s'" for q
      using that K by (fastforce simp: s' set_pc_def set_loop_def pending_def add_run_def tq_push_def split: if_splits)
    ultimately have unop: "unopened s q" if "unopened s' q" for q
      using that unfolding unopened_def by (auto simp: s' set_pc_def set_loop_def split: if_splits)
    show ?thesis
      by (rule streams_frame [OF inv ok none])
        (use w same L K d e unop in \<open>auto simp: s' set_pc_def set_loop_def same_stream_def split: if_splits\<close>)
  next
    case (A_Push p)
    with run have "s' = set_pc l (L_Dispatch t ready) (s\<lparr>mt_clients := mt_clients s @ [p]\<rparr>)" by simp
    then show ?thesis
      by (intro pc_streams [OF inv ok L none, where pc' = "L_Dispatch t ready"]) (use w in \<open>simp_all add: set_pc_def\<close>)
  qed
qed


lemma do_task_streams:
  assumes inv: "streams_ok s H" and ok: "mt_ok s" and L: "mt_loops s l = Some L" and pc: "mt_pc s l = L_Tasks t"
    and run: "do_task l L t s = Inr s'"
  shows "streams_ok s' (note_heard io l s H)"
proof (cases "sl_functors L")
  case Nil
  then have "L\<lparr>sl_functors := []\<rparr> = L" by (cases L) simp
  with run Nil have "s' = set_pc l (L_Wait t) (set_loop l L s)" by (simp add: do_task_def)
  then show ?thesis 
    by (intro streams_thread [OF inv ok _ L, where L' = L and pc' = "L_Wait t"]) (use pc in \<open>simp_all add: set_pc_def set_loop_def\<close>)
next
  case (Cons x rest)
  obtain p addr where x: "x = (p, addr)" by fastforce
  let ?L = "L\<lparr>sl_functors := rest\<rparr>"
  have pendx: "x \<in> pending s" using Cons by (intro pendingI [OF L]) simp
  then have "p \<in> fst ` pending s" using x by force
  then have unop: "unopened s p" by (simp add: unopened_def)
  from mt_okD(2) [OF ok L] Cons x obtain c where c: "mt_handlers s p = Some c" "cn_live c" "cn_srv_loop c = l" "\<not> registered L p"
    by (auto simp: tasks_ok_def)
  from streams_okD(5) [OF inv unop c(1)] have new: "cn_sent c = []" "H p = []" by simp_all
  have free: "get_fd addr \<notin> live_keys (sl_handlers ?L)"
    using fds_ok_free [OF mt_okD(3) [OF ok] pendx] x L by (simp add: fd_free_def)
  have sync: "in_sync ?L" using mt_okD(1) [OF ok L] by (simp add: loop_ok_def loop_sync_def)
  from run Cons x c(1) obtain c' L' where op: "conn_open virt service_session addr c ?L = Inr (c', L')"
    and s': "s' = set_loop l L' (s\<lparr>mt_handlers := (mt_handlers s)(p \<mapsto> c')\<rparr>)"
    by (auto simp: do_task_def bind_exec_eq_Inr)
  note d = same_dispatcher [of ?L L, simplified]
  have one: "one_direction ?L" using streams_okD(1) [OF inv L] d by simp
  then have "on_epoll ?L" by (simp add: one_direction_def)
  from opened_stream_ok [OF service_quiet sync this free new(1) op]
  have st: "stream_ok (c', L', [], [])" "input_used c'" by simp_all
  have frame: "interest_frame (get_fd addr) ?L L'" by (rule conn_open_interest_frame [OF op service_quiet one])
  have self: "cn_self c = p" using mt_okD(6) [OF ok] c(1) by (auto simp: objects_ok_def)
  from conn_open_effect [OF op service_quiet sync free] obtain e where
    L': "L' = ?L\<lparr>sl_dispatcher := e, sl_handlers := (sl_handlers L)(get_fd addr \<mapsto> p)\<rparr>" and live: "cn_live c'" using self by auto
  have one': "one_direction L'" "\<And>k. k \<noteq> get_fd addr \<Longrightarrow> loop_interest L' k = loop_interest L k"
    using frame d by (simp_all add: interest_frame_def)
  have H: "note_heard io l s H = H" using pc by (simp add: note_heard_def)
  have handlers: "\<forall>h q. sl_handlers L' h = Some q \<longrightarrow> h = get_fd addr \<and> q = p \<or> h \<noteq> get_fd addr \<and> q \<noteq> p \<and> sl_handlers L h = Some q"
    using c(4) by (auto simp: L' registered_def)
  have "set (sl_functors L') \<subseteq> set (sl_functors L)" by (auto simp: L' Cons)
  moreover have "(mt_pc s)(l := L_Tasks t) = mt_pc s" using pc by (simp add: fun_upd_idem)
  ultimately have "changes_conn s l L p (get_fd addr) c' (L_Tasks t) L' s'"
    using L c(1,3) handlers one' by (simp add: changes_conn_def s' set_loop_def)
  then show ?thesis unfolding H
    by (rule streams_changed [OF inv ok]) (use st live new in \<open>simp_all add: stream_ok_def object_stream_def\<close>)
qed

section \<open>Every action keeps the streams\<close>

lemma loop_action_streams:
  assumes inv: "streams_ok s H" and ok: "mt_ok s" and doc: "sends_documented io l s" "wait_documented io l s"
    and run: "loop_action io l s = Inr s'" and small: "\<And>p. int (length (service_replies (H p))) \<le> INT_MAX"
  shows "streams_ok s' (note_heard io l s H)"
proof (cases "mt_loops s l")
  case None
  with inv run show ?thesis by (simp add: loop_action_def note_heard_def)
next
  case (Some L)
  note L = Some and run = run [unfolded loop_action_def Some, simplified]
  show ?thesis
  proof (cases "mt_pc s l")
    case (L_Wait t)
    with run show ?thesis by (intro do_wait_streams [OF inv ok L _ doc(2)]) simp_all
  next
    case (L_Dispatch t ready)
    show ?thesis
    proof (cases ready)
      case Nil
      with L_Dispatch run show ?thesis
        by (intro pc_streams [OF inv ok L, where pc' = "L_Tasks t"]) (auto simp: set_pc_def)
    next
      case (Cons x rest)
      obtain fd ev where x: "x = (fd, ev)" by fastforce
      with L_Dispatch Cons have pc: "mt_pc s l = L_Dispatch t ((fd, ev) # rest)" by simp
      with run have r: "do_dispatch io l L t rest fd ev s = Inr s'" by simp
      show ?thesis
      proof (cases "called_conn l s")
        case None
        from do_dispatch_other_streams [OF inv ok L pc this r] show ?thesis .
      next
        case (Some y)
        with L pc obtain p c where "sl_handlers L fd = Some p" "mt_handlers s p = Some c"
          by (auto simp: called_conn_def split: option.splits)
        from dispatch_conn_streams [OF inv ok L pc this doc(1) r small] show ?thesis .
      qed
    qed
  next
    case (L_Accept t ready a)
    with run show ?thesis by (intro do_accept_streams [OF inv ok L]) simp_all
  next
    case (L_Remove t ready p)
    with run have "s' = set_pc l (L_Delete t ready p) (s\<lparr>mt_clients := erase_client p (mt_clients s)\<rparr>)" by simp
    with L_Remove streams_okD(2) [OF inv L] show ?thesis
      by (intro pc_streams [OF inv ok L, where pc' = "L_Delete t ready p"]) (auto simp: set_pc_def)
  next
    case (L_Delete t ready p)
    with run have "s' = set_pc l (L_Dispatch t ready) (s\<lparr>mt_handlers := (mt_handlers s)(p := None)\<rparr>)" by simp
    with L_Delete streams_okD(2) [OF inv L] show ?thesis
      by (intro pc_streams [OF inv ok L, where pc' = "L_Dispatch t ready"]) (auto simp: set_pc_def split: if_splits)
  next
    case (L_Tasks t)
    with run show ?thesis by (intro do_task_streams [OF inv ok L]) simp_all
  next
    case L_Ended
    with run inv show ?thesis by (simp add: note_heard_def)
  qed
qed

lemma heard_reachable_streams:
  "heard_reachable s0 s H \<Longrightarrow> mt_ok s0 \<Longrightarrow> streams_ok s0 (\<lambda>p. []) \<Longrightarrow>
   (\<And>p. int (length (service_replies (H p))) \<le> INT_MAX) \<Longrightarrow> streams_ok s H"
proof (induction rule: heard_reachable.induct)
  case (heard_next s H io l t)
  have "int (length (service_replies (H p))) \<le> INT_MAX" for p
  proof -
    obtain ms where "note_heard io l s H p = H p @ ms" using note_heard_grows by blast
    then have "length (service_replies (H p)) \<le> length (service_replies (note_heard io l s H p))"
      by (simp add: service_replies_def)
    with heard_next.prems(3) [of p] show ?thesis by linarith
  qed
  with heard_next loop_action_streams mt_reachable_ok [OF heard_reachable_mt [OF heard_next.hyps(1)]] show ?case by blast
qed


section \<open>The start of the program\<close>

lemma service_loop_new_one:
  assumes "service_loop_new 2 ctl ea ef wk = Inr L"
  shows "one_direction L"
proof -
  from assms obtain e W where e: "epoll_new ctl ea = Inr e"
    and r: "register_event virt \<lparr>sl_quit = False, sl_dispatcher = Some (D_Epoll e), sl_handlers = Map.empty, sl_functors = [],
      sl_wakeup = Some W\<rparr> ef True False wk = Inr (0, L)" (is "register_event virt ?L _ _ _ _ = _")
    by (auto simp: service_loop_new_def wakeup_new_def wakeup_open_def create_dispatcher_def bind_exec_eq_Inr)
  from e have "one_direction ?L" by (intro one_directionI [of _ e]) (auto simp: epoll_new_def bind_exec_eq_Inr)
  from interest_frame_one [OF register_event_frame [OF r this]] show ?thesis .
qed

lemma threaded_open_streams:
  assumes "threaded_open ctl pton le os seen net heap b ts = Inr (0, s)"
  shows "streams_ok s (\<lambda>p. [])"
proof -
  from assms obtain L m a addr1 net1 L1 where L: "service_loop_new 2 ctl (ts_epoll b) (ts_eventfd b) (ts_wakeup b) = Inr L"
    and m: "start_loops ctl ts Map.empty = Inr m"
    and acc: "acceptor_open virt pton le os seen (socket_address_make pton le ''127.0.0.1'' 6543)
      (acceptor_new (ts_obj b) (ts_loop b)) net L = Inr (0, a, addr1, net1, L1)"
    and s: "mt_loops s = m(ts_loop b \<mapsto> L1)" "mt_handlers s = Map.empty" "mt_pc s = (\<lambda>l. L_Wait 2)"
    by (auto simp: threaded_open_def acceptor_server_new_def Let_def bind_exec_eq_Inr)
  from acceptor_open_frame [OF acc refl] have "register_event virt L (ac_listen_fd a) True False (ac_self (acceptor_new (ts_obj b) (ts_loop b))) = Inr (0, L1)"
    by simp
  from interest_frame_one [OF register_event_frame [OF this service_loop_new_one [OF L]]] have base: "one_direction L1" .
  have "one_direction K" if "mt_loops s l = Some K" for l K
    using that base start_loops_result [OF m] service_loop_new_one by (fastforce simp: s(1) split: if_splits)
  then show ?thesis by (intro streams_okI) (auto simp: s)
qed

section \<open>Executing a schedule with its history\<close>

definition heard_in :: "(ptr \<times> bytes) list \<Rightarrow> heard" where
  "heard_in log p = map snd (filter (\<lambda>x. fst x = p) log)"

definition log_heard :: "mt_io \<Rightarrow> ptr \<Rightarrow> mt_server \<Rightarrow> (ptr \<times> bytes) list" where
  "log_heard io l s =
     (case called_conn l s of
        None \<Rightarrow> []
      | Some (p, ev, c) \<Rightarrow>
          if ev = EVENT_READ \<and> heard_by (mo_recv io) c \<noteq> [] then [(p, heard_by (mo_recv io) c)] else [])"

fun run_heard :: "(ptr \<times> mt_io) list \<Rightarrow> mt_server \<times> (ptr \<times> bytes) list \<Rightarrow> (mt_server \<times> (ptr \<times> bytes) list) exec" where
  "run_heard [] x = Inr x"
| "run_heard ((l, io) # ms) (s, log) =
     (if accept_new io s \<and> sends_documented io l s \<and> wait_documented io l s
      then bind_exec (loop_action io l s) (\<lambda>t. run_heard ms (t, log @ log_heard io l s))
      else Inl Pending)"

lemma log_heard_note: "heard_in (log @ log_heard io l s) = note_heard io l s (heard_in log)"
  by (auto simp: fun_eq_iff heard_in_def log_heard_def note_heard_def split: option.split prod.split)

lemma run_heard_reachable:
  "run_heard ms (s, log) = Inr (t, log') \<Longrightarrow> heard_reachable s0 s (heard_in log) \<Longrightarrow> heard_reachable s0 t (heard_in log')"
proof (induction ms arbitrary: s log)
  case (Cons m ms)
  obtain l io where m: "m = (l, io)" by fastforce
  with Cons.prems(1) obtain u where u: "accept_new io s" "sends_documented io l s" "wait_documented io l s"
    "loop_action io l s = Inr u" "run_heard ms (u, log @ log_heard io l s) = Inr (t, log')"
    by (auto simp: bind_exec_eq_Inr split: if_splits)
  from Cons.IH [OF u(5)] heard_next [OF Cons.prems(2) u(1-4)] show ?case by (simp add: log_heard_note)
qed simp

section \<open>Property\<close>

text \<open>
  Claim C3. In the multi-threaded server of \<^verbatim>\<open>example-2.cc\<close>, for every connection object and however the five
  threads interleave: what the kernel took for its peer, followed by what still waits, is the concatenation, in
  order, of the inputs its \<^verbatim>\<open>on_read\<close> was called with, each followed by a newline; and as long as it is
  registered its loop watches the write direction exactly while something waits.
\<close>

theorem threaded_streams_faithful:
  assumes "epoll_ctl_documented ctl" "threaded_setup os net heap b (map ts [0..<4])"
    and "example2_open ctl pton le os seen net heap b ts = Inr (0, s0)" "heard_reachable s0 s H"
    and "\<And>p. int (length (service_replies (H p))) \<le> INT_MAX" "mt_handlers s p = Some c"
  shows "cn_sent c @ sb_to_string (cn_out c) = service_replies (H p) \<and>
    (\<forall>l L. mt_loops s l = Some L \<longrightarrow> registered L p \<longrightarrow> conn_interest c L)"
proof -
  have "mt_ok s0" by (rule threaded_open_ok [OF assms(1,2) assms(3) [unfolded example2_open_def]])
  from heard_reachable_streams [OF assms(4) this threaded_open_streams [OF assms(3) [unfolded example2_open_def]] assms(5)]
  have inv: "streams_ok s H" .
  from streams_okD(4) [OF inv assms(6)] have "cn_sent c @ sb_to_string (cn_out c) = service_replies (H p)"
    by (simp add: object_stream_def sb_to_string_def)
  moreover have "conn_interest c L" if "mt_loops s l = Some L" "registered L p" for l L
    using that streams_okD(3) [OF inv that(1) _ assms(6)] by (auto simp: registered_def)
  ultimately show ?thesis by blast
qed

text \<open>A peer on descriptor 20 sends two bytes; the reply of three goes out in part.\<close>

definition reply_schedule :: "(ptr \<times> mt_io) list" where
  "reply_schedule = map (Pair 50) [ready_io [(5, EPOLLIN)], accept_io 20, quiet_io, quiet_io, quiet_io, quiet_io] @
     map (Pair 61) [quiet_io, quiet_io, quiet_io, quiet_io, ready_io [(20, EPOLLIN)], quiet_io\<lparr>mo_recv := [Recv_Data [1, 2]]\<rparr>] @
     map (Pair 50) [quiet_io] @
     map (Pair 61) [quiet_io, quiet_io, ready_io [(20, EPOLLOUT)], quiet_io\<lparr>mo_send := [Send_Count 2, Send_Error EWOULDBLOCK]\<rparr>]"

lemma reply_runs: "case run_heard reply_schedule (example2_start, []) of Inl e \<Rightarrow> False | Inr (s, log) \<Rightarrow>
    log = [(1000, [1, 2])] \<and> (case mt_handlers s 1000 of None \<Rightarrow> False | Some c \<Rightarrow> cn_sent c = [1, 2] \<and> cn_live c)"
  by code_simp

theorem threaded_streams_faithful_witness:
  "\<exists>s H c. heard_reachable example2_start s H \<and> mt_handlers s 1000 = Some c \<and> cn_sent c = [1, 2] \<and> sb_to_string (cn_out c) = [10]"
proof -
  obtain s c where r: "run_heard reply_schedule (example2_start, []) = Inr (s, [(1000, [1, 2])])"
    and c: "mt_handlers s 1000 = Some c" "cn_sent c = [1, 2]"
    using reply_runs by (auto split: sum.splits option.splits)
  have "heard_in [] = (\<lambda>p. [])" by (simp add: fun_eq_iff heard_in_def)
  with run_heard_reachable [OF r, of example2_start] heard_begin have h: "heard_reachable example2_start s (heard_in [(1000, [1, 2])])"
    by simp
  have small: "int (length (service_replies (heard_in [(1000, [1, 2])] p))) \<le> INT_MAX" for p
    by (simp add: heard_in_def service_replies_def INT_MAX_def)
  from threaded_streams_faithful [OF sample_ctl_documented sample_threaded_setup example2_sample_start h small c(1)] c(2)
  have "sb_to_string (cn_out c) = [10]" by (simp add: heard_in_def service_replies_def)
  with h c show ?thesis by blast
qed

end
