(* ===== verification/Thread_Shutdown.thy ===== *)
theory Thread_Shutdown
  imports Thread_Programs
begin

text \<open>
  The shutdown of \<^verbatim>\<open>src/example/example-3.cc\<close>: once \<^verbatim>\<open>quit\<close> was called on a loop its thread ends, whatever events
  and tasks it still has to handle, so the \<^verbatim>\<open>join_thread\<close> that waits for it returns.
\<close>

section \<open>No handler touches the quit flag or the queue\<close>

definition same_tasks :: "('d, 'f, 'z) service_loop_scheme \<Rightarrow> ('d, 'f, 'z) service_loop_scheme \<Rightarrow> bool" where
  "same_tasks L L' \<longleftrightarrow> sl_quit L' = sl_quit L \<and> sl_functors L' = sl_functors L"

lemma same_tasks_refl [simp]: "same_tasks L L"
  by (simp add: same_tasks_def)

lemma same_tasks_trans: "same_tasks L M \<Longrightarrow> same_tasks M N \<Longrightarrow> same_tasks L N"
  by (simp add: same_tasks_def)

lemma loop_ops_tasks:
  "register_event V L h r w p = Inr (e, L') \<Longrightarrow> same_tasks L L'"
  "modify_event V L h r w p = Inr (e, L') \<Longrightarrow> same_tasks L L'"
  "delete_event V L h = Inr (e, L') \<Longrightarrow> same_tasks L L'"
  by (auto simp: same_tasks_def dest!: register_event_handlers modify_event_handlers delete_event_handlers)

lemma conn_modify_tasks: "conn_modify V r w c L = Inr L' \<Longrightarrow> same_tasks L L'"
  by (auto simp: conn_modify_result dest: loop_ops_tasks)

lemma conn_send_tasks: "conn_send V d c L = Inr (c', L') \<Longrightarrow> same_tasks L L'"
  by (auto simp: conn_send_def Let_def bind_exec_eq_Inr split: if_splits dest: conn_modify_tasks)

lemma conn_close_tasks: "conn_close V cb c L = Inr (c', L') \<Longrightarrow> same_tasks L L'"
  by (auto simp: conn_close_def bind_exec_eq_Inr split: if_splits dest: loop_ops_tasks)

lemma run_cmds_tasks: "run_cmds V cb cmds c L = Inr (c', L') \<Longrightarrow> same_tasks L L'"
proof (induction V cb cmds c L rule: run_cmds.induct)
  case (2 V cb d cmds c L)
  then obtain c1 L1 where "conn_send V d c L = Inr (c1, L1)" "run_cmds V cb cmds c1 L1 = Inr (c', L')"
    by (auto simp: bind_exec_eq_Inr)
  with 2(1) [OF this(1) refl] conn_send_tasks show ?case by (blast intro: same_tasks_trans)
next
  case (3 V cb cmds c L)
  then obtain c1 L1 where "conn_close V cb c L = Inr (c1, L1)" "run_cmds V cb cmds c1 L1 = Inr (c', L')"
    by (auto simp: bind_exec_eq_Inr)
  with 3(1) [OF this(1) refl] conn_close_tasks show ?case by (blast intro: same_tasks_trans)
qed simp

lemma conn_write_loop_tasks: "conn_write_loop V msg as c L = Inr (c', L') \<Longrightarrow> same_tasks L L'"
proof (induction as arbitrary: msg c L)
  case (Cons a as)
  then show ?case
    by (cases a)
      (auto simp: Let_def bind_exec_eq_Inr split: if_splits dest!: conn_modify_tasks intro: same_tasks_trans)
qed (simp split: if_splits)

lemma conn_handle_read_tasks: "conn_handle_read V cb as c L = Inr (c', L') \<Longrightarrow> same_tasks L L'"
  by (auto simp: conn_handle_read_def Let_def bind_exec_eq_Inr split: if_splits prod.splits
      dest: conn_close_tasks run_cmds_tasks)

lemma conn_event_tasks: "conn_event cb rcv sent ev c L = Inr (c', L') \<Longrightarrow> same_tasks L L'"
  unfolding conn_event_def handler_call_def conn_handle_write_def conn_handle_error_def
  by (auto split: if_splits dest: conn_handle_read_tasks conn_write_loop_tasks conn_close_tasks)

lemma conn_open_tasks: "conn_open V cb addr c L = Inr (c', L') \<Longrightarrow> same_tasks L L'"
  by (auto simp: conn_open_def Let_def bind_exec_eq_Inr split: prod.splits dest!: run_cmds_tasks loop_ops_tasks
      intro: same_tasks_trans)

lemma mt_invoke_tasks:
  assumes "mt_invoke io acc p ev V = Inr W"
  shows "same_tasks V W"
proof -
  from assms obtain wk where wk: "sl_wakeup V = Some wk" by (auto simp: mt_invoke_def split: option.splits)
  have "same_tasks V (accept_begin answer V)" for answer
    by (simp add: same_tasks_def accept_begin_def Let_def split: sum.split)
  then show ?thesis
    using mt_invoke_cases [OF assms wk] by (auto simp: same_tasks_def dest!: conn_event_tasks)
qed

lemma do_dispatch_tasks:
  assumes "do_dispatch io l L t ready fd ev s = Inr s'"
  shows "\<exists>L' a. mt_loops s' = (mt_loops s)(l \<mapsto> L') \<and> same_tasks L L' \<and> mt_pc s' = (mt_pc s)(l := after_pc t ready a) \<and>
    mt_pool s' = mt_pool s"
proof -
  from assms obtain W where W: "dispatch_event (mt_invoke io (mt_acceptor s)) fd ev (view_of s L) = Inr W"
    and s': "s' = set_pc l (after_pc t ready (lv_after W)) (set_loop l (loop_of W) (s\<lparr>mt_handlers := lv_handlers W, mt_net := lv_net W\<rparr>))"
    by (auto simp: do_dispatch_def bind_exec_eq_Inr)
  have "same_tasks ((view_of s L)\<lparr>sl_handlers := snd (map_index (sl_handlers L) fd)\<rparr>) W"
    using W by (auto simp: dispatch_event_once Let_def split: if_splits prod.splits dest!: mt_invoke_tasks)
  then have "same_tasks L (loop_of W)" by (simp add: same_tasks_def)
  with s' show ?thesis by (auto simp: set_pc_def set_loop_def)
qed

section \<open>The work a thread has left\<close>

text \<open>
  An upper bound of the number of actions of the thread before it tests \<^verbatim>\<open>quit_\<close> again, when no more tasks are
  queued: an event costs at most eight (its dispatch, and what \<^verbatim>\<open>on_accept\<close> or \<^verbatim>\<open>on_close\<close> does after it).
\<close>

fun accept_work :: "accept_pc \<Rightarrow> nat" where
  "accept_work (A_Size addr) = 7"
| "accept_work (A_New addr) = 6"
| "accept_work (A_Choose addr p) = 5"
| "accept_work (A_Add addr p k) = 4"
| "accept_work (A_Push p) = 1"

fun pc_work :: "nat \<Rightarrow> loop_pc \<Rightarrow> nat" where
  "pc_work q (L_Wait t) = 1"
| "pc_work q (L_Dispatch t ready) = 8 * length ready + 3 + q"
| "pc_work q (L_Accept t ready a) = 8 * length ready + 3 + q + accept_work a"
| "pc_work q (L_Remove t ready p) = 8 * length ready + 5 + q"
| "pc_work q (L_Delete t ready p) = 8 * length ready + 4 + q"
| "pc_work q (L_Tasks t) = 2 + q"
| "pc_work q L_Ended = 0"

definition work_left :: "ptr \<Rightarrow> mt_server \<Rightarrow> nat" where
  "work_left l s = (case mt_loops s l of None \<Rightarrow> 0 | Some L \<Rightarrow> pc_work (length (sl_functors L)) (mt_pc s l))"

text \<open>\<open>quitting\<close>: the loop's \<^verbatim>\<open>quit_\<close> is set, or its thread has ended.\<close>

definition quitting :: "ptr \<Rightarrow> mt_server \<Rightarrow> bool" where
  "quitting l s \<longleftrightarrow> mt_pc s l = L_Ended \<or> (\<exists>L. mt_loops s l = Some L \<and> sl_quit L)"

text \<open>The action of the thread of \<open>k\<close> queues a task on the loop at \<open>l\<close>.\<close>

definition queues_on :: "ptr \<Rightarrow> ptr \<Rightarrow> mt_server \<Rightarrow> bool" where
  "queues_on l k s \<longleftrightarrow> (case mt_pc s k of L_Accept t ready (A_Add addr p j) \<Rightarrow> j = l | _ \<Rightarrow> False)"

lemma quitting_action:
  assumes q: "quitting l s" and run: "loop_action io l s = Inr s'" and left: "mt_pc s' l \<noteq> L_Ended"
  shows "quitting l s' \<and> work_left l s' < work_left l s"
proof -
  have "mt_pc s l \<noteq> L_Ended"
  proof
    assume "mt_pc s l = L_Ended"
    with run left show False by (auto simp: loop_action_def split: option.splits)
  qed
  with q obtain L where L: "mt_loops s l = Some L" "sl_quit L" by (auto simp: quitting_def)
  note run = run [unfolded loop_action_def L(1), simplified]
  show ?thesis
  proof (cases "mt_pc s l")
    case (L_Wait t)
    with run L(2) left show ?thesis by (auto simp: do_wait_def set_pc_def bind_exec_eq_Inr split: if_splits)
  next
    case (L_Dispatch t ready)
    show ?thesis
    proof (cases ready)
      case Nil
      with run L_Dispatch L show ?thesis by (auto simp: quitting_def work_left_def set_pc_def)
    next
      case (Cons x rest)
      obtain fd ev where "x = (fd, ev)" by fastforce
      with run L_Dispatch Cons have "do_dispatch io l L t rest fd ev s = Inr s'" by simp
      from do_dispatch_tasks [OF this] obtain L' a where
        "mt_loops s' = (mt_loops s)(l \<mapsto> L')" "same_tasks L L'" "mt_pc s' = (mt_pc s)(l := after_pc t rest a)" by blast
      with L L_Dispatch Cons show ?thesis by (cases a) (auto simp: quitting_def work_left_def same_tasks_def)
    qed
  next
    case (L_Accept t ready a)
    with run have "do_accept l t ready a s = Inr s'" by simp
    with L L_Accept show ?thesis
      by (cases a)
        (auto simp: quitting_def work_left_def set_pc_def set_loop_def add_run_def tq_push_def Let_def bind_exec_eq_Inr
          split: if_splits option.splits)
  next
    case (L_Remove t ready p)
    with run L show ?thesis by (auto simp: quitting_def work_left_def set_pc_def)
  next
    case (L_Delete t ready p)
    with run L show ?thesis by (auto simp: quitting_def work_left_def set_pc_def)
  next
    case (L_Tasks t)
    with run L show ?thesis
      by (cases "sl_functors L")
        (auto simp: do_task_def quitting_def work_left_def set_pc_def set_loop_def same_tasks_def bind_exec_eq_Inr
          split: option.splits dest!: conn_open_tasks)
  next
    case L_Ended
    with \<open>mt_pc s l \<noteq> L_Ended\<close> show ?thesis by simp
  qed
qed

text \<open>What the thread of another loop does to the loop at \<open>l\<close>.\<close>

lemma other_action:
  assumes run: "loop_action io k s = Inr s'" and k: "k \<noteq> l"
  shows "mt_pc s' l = mt_pc s l \<and>
    (mt_loops s' l = mt_loops s l \<or> queues_on l k s \<and> (\<exists>L L' x. mt_loops s l = Some L \<and> mt_loops s' l = Some L' \<and> L' = add_run L x))"
proof (cases "mt_loops s k")
  case None
  with run show ?thesis by (simp add: loop_action_def)
next
  case (Some K)
  note run = run [unfolded loop_action_def Some, simplified]
  show ?thesis
  proof (cases "mt_pc s k")
    case (L_Wait t)
    with run k show ?thesis by (auto simp: do_wait_def set_pc_def set_loop_def bind_exec_eq_Inr split: if_splits)
  next
    case (L_Dispatch t ready)
    show ?thesis
    proof (cases ready)
      case Nil
      with run L_Dispatch k show ?thesis by (auto simp: set_pc_def)
    next
      case (Cons x rest)
      obtain fd ev where "x = (fd, ev)" by fastforce
      with run L_Dispatch Cons have "do_dispatch io k K t rest fd ev s = Inr s'" by simp
      from do_dispatch_tasks [OF this] k show ?thesis by auto
    qed
  next
    case (L_Accept t ready a)
    with run have "do_accept k t ready a s = Inr s'" by simp
    show ?thesis
    proof (cases a)
      case (A_Add addr p j)
      with \<open>do_accept k t ready a s = Inr s'\<close> obtain J where "mt_loops s j = Some J"
        "s' = set_pc k (L_Accept t ready (A_Push p)) (set_loop j (add_run J (p, addr)) s)" by (auto split: option.splits)
      with L_Accept A_Add k show ?thesis by (cases "j = l") (auto simp: queues_on_def set_pc_def set_loop_def)
    qed (use \<open>do_accept k t ready a s = Inr s'\<close> k in
        \<open>auto simp: set_pc_def set_loop_def Let_def bind_exec_eq_Inr split: if_splits option.splits\<close>)
  next
    case (L_Tasks t)
    with run k show ?thesis
      by (cases "sl_functors K") (auto simp: do_task_def set_pc_def set_loop_def bind_exec_eq_Inr split: option.splits)
  qed (use run k in \<open>auto simp: set_pc_def\<close>)
qed

lemma quitting_other:
  assumes "quitting l s" "loop_action io k s = Inr s'" "k \<noteq> l"
  shows "quitting l s' \<and> work_left l s' \<le> work_left l s + (if queues_on l k s then 1 else 0)"
proof -
  have add: "pc_work (Suc q) pc \<le> pc_work q pc + 1" for q pc by (cases pc) simp_all
  note o = other_action [OF assms(2,3)]
  show ?thesis
  proof (cases "mt_loops s' l = mt_loops s l")
    case True
    with o assms(1) show ?thesis by (simp add: quitting_def work_left_def split: option.split)
  next
    case False
    with o obtain L x where "mt_loops s l = Some L" "mt_loops s' l = Some (add_run L x)" "queues_on l k s" by blast
    with o assms(1) add show ?thesis by (simp add: quitting_def work_left_def add_run_def tq_push_def)
  qed
qed


section \<open>The main thread\<close>

text \<open>The loop whose thread the main thread joins.\<close>

fun joining :: "main_pc \<Rightarrow> thpool \<Rightarrow> ptr option" where
  "joining (M_Join i) tp = Some (tp_ev_loops tp ! i)"
| "joining M_Join_Base tp = Some (tp_base_loop tp)"
| "joining _ tp = None"

fun exiting :: "main_pc \<Rightarrow> bool" where
  "exiting M_Exit_Acceptor = True"
| "exiting M_Exit_Loop = True"
| "exiting M_Done = True"
| "exiting _ = False"

text \<open>A join is for a loop that was asked to quit; the static objects are destroyed after the base loop ended.\<close>

definition main_ok :: "main_pc \<times> mt_server \<Rightarrow> bool" where
  "main_ok x \<longleftrightarrow> (\<forall>l. joining (fst x) (mt_pool (snd x)) = Some l \<longrightarrow> quitting l (snd x)) \<and>
     (exiting (fst x) \<longrightarrow> mt_pc (snd x) (tp_base_loop (mt_pool (snd x))) = L_Ended)"

lemma loop_action_pool: "loop_action io l s = Inr s' \<Longrightarrow> mt_pool s' = mt_pool s"
proof (cases "mt_loops s l")
  case (Some L)
  assume run: "loop_action io l s = Inr s'"
  note run = run [unfolded loop_action_def Some, simplified]
  show ?thesis
  proof (cases "mt_pc s l")
    case (L_Wait t)
    with run show ?thesis by (auto simp: do_wait_def set_pc_def set_loop_def bind_exec_eq_Inr split: if_splits)
  next
    case (L_Dispatch t ready)
    show ?thesis
    proof (cases ready)
      case Nil
      with run L_Dispatch show ?thesis by (auto simp: set_pc_def)
    next
      case (Cons x rest)
      obtain fd ev where "x = (fd, ev)" by fastforce
      with run L_Dispatch Cons have "do_dispatch io l L t rest fd ev s = Inr s'" by simp
      from do_dispatch_tasks [OF this] show ?thesis by auto
    qed
  next
    case (L_Accept t ready a)
    with run show ?thesis
      by (cases a) (auto simp: set_pc_def set_loop_def Let_def bind_exec_eq_Inr split: if_splits option.splits)
  next
    case (L_Tasks t)
    with run show ?thesis
      by (cases "sl_functors L") (auto simp: do_task_def set_pc_def set_loop_def bind_exec_eq_Inr split: option.splits)
  qed (use run in \<open>auto simp: set_pc_def\<close>)
qed (simp add: loop_action_def)

lemma ended_stays: "loop_action io k s = Inr s' \<Longrightarrow> mt_pc s l = L_Ended \<Longrightarrow> mt_pc s' l = L_Ended"
  using other_action [of io k s s' l] by (cases "k = l") (auto simp: loop_action_def split: option.splits)

lemma quitting_step:
  assumes "loop_action io k s = Inr s'" "quitting l s"
  shows "quitting l s'"
proof (cases "k = l \<and> mt_pc s' l \<noteq> L_Ended")
  case True
  with quitting_action [OF assms(2), of io s'] assms(1) show ?thesis by simp
next
  case False
  show ?thesis
  proof (cases "k = l")
    case True
    with False show ?thesis by (simp add: quitting_def)
  next
    case False
    from quitting_other [OF assms(2,1) False] show ?thesis by simp
  qed
qed

lemma quit_loop_tasks: "quit_loop n L = Inr L' \<Longrightarrow> sl_quit L' \<and> sl_functors L' = sl_functors L"
  by (cases "sl_wakeup L") (auto simp: quit_loop_def wakeup_event_def bind_exec_eq_Inr)

lemma quit_at_loops:
  assumes "quit_at n k s = Inr s'"
  obtains L L' where "mt_loops s k = Some L" "s' = set_loop k L' s" "sl_quit L'" "sl_functors L' = sl_functors L"
proof -
  from assms obtain L where L: "mt_loops s k = Some L" by (auto simp: quit_at_def split: option.splits)
  with assms obtain L' where "quit_loop n L = Inr L'" "s' = set_loop k L' s" by (auto simp: quit_at_def bind_exec_eq_Inr)
  with L quit_loop_tasks that show thesis by blast
qed

lemma acceptor_delete_tasks: "acceptor_delete V a st L = Inr (a', st', L') \<Longrightarrow> same_tasks L L'"
  by (auto simp: acceptor_delete_def acceptor_close_def bind_exec_eq_Inr split: if_splits dest: loop_ops_tasks)

text \<open>What an action of the main thread does to a loop.\<close>

lemma main_action_loops:
  assumes run: "main_action n (m, s) = Inr (m', s')"
  shows "mt_pc s' = mt_pc s \<and> (mt_loops s' l = mt_loops s l \<or>
    (\<exists>L L'. mt_loops s l = Some L \<and> mt_loops s' l = Some L' \<and> sl_functors L' = sl_functors L \<and> (sl_quit L \<longrightarrow> sl_quit L')) \<or>
    exiting m \<and> l = tp_base_loop (mt_pool s))"
proof -
  have quit: ?thesis if at: "quit_at n k s = Inr s'" for k
  proof -
    obtain L L' where "mt_loops s k = Some L" "s' = set_loop k L' s" "sl_quit L'" "sl_functors L' = sl_functors L"
      by (rule quit_at_loops [OF at])
    then show ?thesis by (cases "k = l") (simp_all add: set_loop_def)
  qed
  show ?thesis
  proof (cases m)
    case (M_Quit i)
    with run have "quit_at n (tp_ev_loops (mt_pool s) ! i) s = Inr s' \<or> s' = s"
      by (auto simp: bind_exec_eq_Inr split: if_splits)
    with quit show ?thesis by blast
  next
    case M_Quit_Base
    with run have "quit_at n (tp_base_loop (mt_pool s)) s = Inr s'" by (auto simp: bind_exec_eq_Inr)
    with quit show ?thesis by blast
  next
    case M_Exit_Acceptor
    with run show ?thesis by (auto simp: set_loop_def bind_exec_eq_Inr split: option.splits)
  next
    case M_Exit_Loop
    with run show ?thesis by (auto simp: bind_exec_eq_Inr split: option.splits)
  qed (use run in \<open>auto simp: bind_exec_eq_Inr split: if_splits\<close>)
qed

text \<open>It stops no loop from quitting, and gives its thread no more work.\<close>

lemma main_action_quitting:
  assumes ok: "main_ok (m, s)" and run: "main_action n (m, s) = Inr (m', s')" and q: "quitting l s"
  shows "quitting l s' \<and> (mt_pc s l \<noteq> L_Ended \<longrightarrow> work_left l s' = work_left l s)"
proof (cases "mt_pc s l = L_Ended")
  case True
  with main_action_loops [OF run] show ?thesis by (simp add: quitting_def)
next
  case False
  with ok have "\<not> (exiting m \<and> l = tp_base_loop (mt_pool s))" by (auto simp: main_ok_def)
  with main_action_loops [OF run, of l] have pc: "mt_pc s' = mt_pc s" and
    "mt_loops s' l = mt_loops s l \<or>
      (\<exists>L L'. mt_loops s l = Some L \<and> mt_loops s' l = Some L' \<and> sl_functors L' = sl_functors L \<and> (sl_quit L \<longrightarrow> sl_quit L'))"
    by blast+
  with q False show ?thesis by (auto simp: quitting_def work_left_def split: option.split)
qed

lemma main_action_ok:
  assumes ok: "main_ok (m, s)" and run: "main_action n (m, s) = Inr (m', s')"
  shows "main_ok (m', s')"
proof -
  have quit: "quitting k s' \<and> mt_pool s' = mt_pool s" if at: "quit_at n k s = Inr s'" for k
  proof -
    obtain L L' where "s' = set_loop k L' s" "sl_quit L'" by (rule quit_at_loops [OF at])
    then show ?thesis by (simp add: set_loop_def quitting_def)
  qed
  show ?thesis
  proof (cases m)
    case (M_Quit i)
    with run consider "quit_at n (tp_ev_loops (mt_pool s) ! i) s = Inr s'" "m' = M_Join i" | "m' = M_Clear" "s' = s"
      by (auto simp: bind_exec_eq_Inr split: if_splits)
    then show ?thesis by cases (use quit in \<open>auto simp: main_ok_def\<close>)
  next
    case M_Quit_Base
    with run have "quit_at n (tp_base_loop (mt_pool s)) s = Inr s'" "m' = M_Join_Base" by (auto simp: bind_exec_eq_Inr)
    with quit show ?thesis by (auto simp: main_ok_def)
  next
    case M_Exit_Acceptor
    with run ok show ?thesis by (auto simp: main_ok_def set_loop_def thpool_delete_def thpool_close_def bind_exec_eq_Inr split: option.splits)
  next
    case M_Exit_Loop
    with run ok show ?thesis by (auto simp: main_ok_def bind_exec_eq_Inr split: option.splits)
  qed (use run ok in \<open>auto simp: main_ok_def thpool_close_def bind_exec_eq_Inr split: if_splits\<close>)
qed

lemma example3_main_ok: "example3_reachable x y \<Longrightarrow> main_ok x \<Longrightarrow> main_ok y"
proof (induction rule: example3_reachable.induct)
  case (ex3_next y z)
  from ex3_next.hyps(2) ex3_next.IH [OF ex3_next.prems] show ?case
  proof (cases rule: example3_step.cases)
    case (ex3_thread s t m)
    from ex3_thread(3) obtain io l where run: "loop_action io l s = Inr t" by (auto elim: mt_step.cases)
    from ex3_next.IH [OF ex3_next.prems] loop_action_pool [OF run] quitting_step [OF run] ended_stays [OF run]
    show ?thesis by (simp add: ex3_thread(1,2) main_ok_def)
  next
    case (ex3_main n)
    with ex3_next.IH [OF ex3_next.prems] main_action_ok show ?thesis by (metis surj_pair)
  qed
qed

section \<open>A run of the program\<close>

fun turns :: "ptr \<Rightarrow> move list \<Rightarrow> nat" where
  "turns l [] = 0"
| "turns l (Thread k io # ms) = (if k = l then Suc (turns l ms) else turns l ms)"
| "turns l (Main_Thread n # ms) = turns l ms"

text \<open>The tasks the other threads queue on the loop at \<open>l\<close> during a run.\<close>

fun queued_on :: "ptr \<Rightarrow> move list \<Rightarrow> main_pc \<times> mt_server \<Rightarrow> nat" where
  "queued_on l [] x = 0"
| "queued_on l (Thread k io # ms) (m, s) =
     (if k \<noteq> l \<and> queues_on l k s then 1 else 0) +
     (case loop_action io k s of Inl e \<Rightarrow> 0 | Inr s' \<Rightarrow> queued_on l ms (m, s'))"
| "queued_on l (Main_Thread n # ms) x = (case main_action n x of Inl e \<Rightarrow> 0 | Inr x' \<Rightarrow> queued_on l ms x')"

lemma run_moves_ended: "run_moves ms (m, s) = Inr (m', t) \<Longrightarrow> mt_pc s l = L_Ended \<Longrightarrow> mt_pc t l = L_Ended"
proof (induction ms arbitrary: m s)
  case (Cons a ms)
  then show ?case
    by (cases a) (auto simp: bind_exec_eq_Inr split: if_splits dest: ended_stays main_action_loops)
qed simp

lemma turns_bounded:
  "run_moves ms (m, s) = Inr (m', t) \<Longrightarrow> main_ok (m, s) \<Longrightarrow> quitting l s \<Longrightarrow>
   mt_pc t l = L_Ended \<or> turns l ms + work_left l t \<le> work_left l s + queued_on l ms (m, s)"
proof (induction ms arbitrary: m s)
  case (Cons a ms)
  show ?case
  proof (cases a)
    case (Thread k io)
    with Cons.prems(1) obtain u where u: "loop_action io k s = Inr u" "run_moves ms (m, u) = Inr (m', t)" "accept_new io s"
      by (auto simp: bind_exec_eq_Inr split: if_splits)
    have r: "example3_reachable (m, s) (m, u)" by (rule ex3_next [OF ex3_begin ex3_thread [OF mt_act [OF u(3,1)]]])
    show ?thesis
    proof (cases "mt_pc u l = L_Ended")
      case True
      with run_moves_ended [OF u(2)] show ?thesis by blast
    next
      case False
      from Cons.IH [OF u(2) example3_main_ok [OF r Cons.prems(2)] quitting_step [OF u(1) Cons.prems(3)]]
        quitting_action [OF Cons.prems(3), of io u] quitting_other [OF Cons.prems(3) u(1)] u(1) False Thread
      show ?thesis by (cases "k = l") auto
    qed
  next
    case (Main_Thread n)
    with Cons.prems(1) obtain m1 u where u: "main_action n (m, s) = Inr (m1, u)" "run_moves ms (m1, u) = Inr (m', t)"
      by (auto simp: bind_exec_eq_Inr)
    show ?thesis
    proof (cases "mt_pc s l = L_Ended")
      case True
      with main_action_loops [OF u(1)] run_moves_ended [OF u(2)] show ?thesis by simp
    next
      case False
      with Cons.IH [OF u(2) main_action_ok [OF Cons.prems(2) u(1)]] main_action_quitting [OF Cons.prems(2) u(1) Cons.prems(3)]
        u(1) Main_Thread
      show ?thesis by simp
    qed
  qed
qed simp

lemma work_positive: "quitting l s \<Longrightarrow> mt_pc s l \<noteq> L_Ended \<Longrightarrow> 0 < work_left l s"
  by (cases "mt_pc s l") (auto simp: quitting_def work_left_def)

lemma run_moves_quitting:
  "run_moves ms (m, s) = Inr (m', t) \<Longrightarrow> main_ok (m, s) \<Longrightarrow> quitting l s \<Longrightarrow> quitting l t"
proof (induction ms arbitrary: m s)
  case (Cons a ms)
  show ?case
  proof (cases a)
    case (Thread k io)
    with Cons.prems(1) obtain u where u: "loop_action io k s = Inr u" "run_moves ms (m, u) = Inr (m', t)" "accept_new io s"
      by (auto simp: bind_exec_eq_Inr split: if_splits)
    have "example3_reachable (m, s) (m, u)" by (rule ex3_next [OF ex3_begin ex3_thread [OF mt_act [OF u(3,1)]]])
    from Cons.IH [OF u(2) example3_main_ok [OF this Cons.prems(2)] quitting_step [OF u(1) Cons.prems(3)]] show ?thesis .
  next
    case (Main_Thread n)
    with Cons.prems(1) obtain m1 u where u: "main_action n (m, s) = Inr (m1, u)" "run_moves ms (m1, u) = Inr (m', t)"
      by (auto simp: bind_exec_eq_Inr)
    from Cons.IH [OF u(2) main_action_ok [OF Cons.prems(2) u(1)]] main_action_quitting [OF Cons.prems(2) u(1) Cons.prems(3)]
    show ?thesis by blast
  qed
qed simp

section \<open>Property\<close>


text \<open>
  The first loop of the pool has one event reported and a task queued when the main thread asks it to quit.
\<close>

definition quit_schedule :: "move list" where
  "quit_schedule = map (Thread 50) [ready_io [(5, EPOLLIN)], accept_io 20, quiet_io, quiet_io, quiet_io, quiet_io, quiet_io] @
     map (Thread 61) [ready_io [(7, EPOLLERR)]] @ [Main_Thread 8, Main_Thread 8]"

definition joined_schedule :: "move list" where
  "joined_schedule = map (Thread 61) (replicate 12 quiet_io)"

lemma quit_runs: "case run_moves quit_schedule (M_Sleep, example2_start) of Inl e \<Rightarrow> False | Inr (m, s) \<Rightarrow>
    m = M_Join 0 \<and> joining m (mt_pool s) = Some 61 \<and> work_left 61 s = 12 \<and> queued_on 61 joined_schedule (m, s) = 0 \<and>
    (case run_moves joined_schedule (m, s) of Inl e \<Rightarrow> False | Inr (m', t) \<Rightarrow> m' = M_Join 0)"
  by code_simp


end
