(* ===== verification/Thread_Handover.thy ===== *)
theory Thread_Handover
  imports Thread_Shutdown
begin

text \<open>
  How the accepting thread of the multi-threaded servers hands connections to the loops of the pool: the
  tasks it queues on a loop against those the thread of that loop runs.
\<close>

section \<open>What an action queues and runs\<close>

definition tasks_at :: "ptr \<Rightarrow> mt_server \<Rightarrow> open_task list" where
  "tasks_at l s = (case mt_loops s l of None \<Rightarrow> [] | Some L \<Rightarrow> sl_functors L)"

text \<open>The task the next action of the thread of \<open>k\<close> queues on the loop at \<open>l\<close>.\<close>

definition handed_by :: "ptr \<Rightarrow> ptr \<Rightarrow> mt_server \<Rightarrow> open_task list" where
  "handed_by l k s = (case mt_pc s k of L_Accept t ready (A_Add addr p j) \<Rightarrow> if j = l then [(p, addr)] else [] | _ \<Rightarrow> [])"

text \<open>The task it takes out of that loop and runs, that is the connection it opens with that address.\<close>

definition opened_by :: "ptr \<Rightarrow> ptr \<Rightarrow> mt_server \<Rightarrow> open_task list" where
  "opened_by l k s = (if k = l then (case mt_pc s l of L_Tasks t \<Rightarrow> take 1 (tasks_at l s) | _ \<Rightarrow> []) else [])"

fun handed :: "ptr \<Rightarrow> move list \<Rightarrow> main_pc \<times> mt_server \<Rightarrow> open_task list" where
  "handed l [] x = []"
| "handed l (Thread k io # ms) (m, s) =
     (if mt_loops s k = None then [] else handed_by l k s) @
     (case loop_action io k s of Inl e \<Rightarrow> [] | Inr s' \<Rightarrow> handed l ms (m, s'))"
| "handed l (Main_Thread n # ms) x = (case main_action n x of Inl e \<Rightarrow> [] | Inr x' \<Rightarrow> handed l ms x')"

fun opened :: "ptr \<Rightarrow> move list \<Rightarrow> main_pc \<times> mt_server \<Rightarrow> open_task list" where
  "opened l [] x = []"
| "opened l (Thread k io # ms) (m, s) =
     opened_by l k s @ (case loop_action io k s of Inl e \<Rightarrow> [] | Inr s' \<Rightarrow> opened l ms (m, s'))"
| "opened l (Main_Thread n # ms) x = (case main_action n x of Inl e \<Rightarrow> [] | Inr x' \<Rightarrow> opened l ms x')"

text \<open>\<open>opened_by\<close> is what the action does: it opens the object of that task, once, on the rest of the queue.\<close>

lemma opened_by_opens:
  assumes "loop_action io l s = Inr s'" "opened_by l l s = [(p, addr)]"
  shows "\<exists>L c c' L'. mt_loops s l = Some L \<and> mt_handlers s p = Some c \<and>
    conn_open virt service_session addr c (L\<lparr>sl_functors := tl (sl_functors L)\<rparr>) = Inr (c', L') \<and>
    s' = set_loop l L' (s\<lparr>mt_handlers := (mt_handlers s)(p \<mapsto> c')\<rparr>)"
proof -
  from assms(2) obtain t where pc: "mt_pc s l = L_Tasks t" "take 1 (tasks_at l s) = [(p, addr)]"
    by (auto simp: opened_by_def split: loop_pc.splits)
  then obtain L q where L: "mt_loops s l = Some L" "sl_functors L = (p, addr) # q"
    by (auto simp: tasks_at_def split: option.splits) (metis list.exhaust list.sel(1) take_Suc_Cons take_eq_Nil list.distinct(1) nth_Cons_0)
  with assms(1) pc(1) show ?thesis by (auto simp: loop_action_def do_task_def bind_exec_eq_Inr split: option.splits)
qed

section \<open>Queued is run, or still queued\<close>

text \<open>An action of a loop's own thread.\<close>

lemma own_action_tasks:
  assumes run: "loop_action io l s = Inr s'" and L: "mt_loops s l = Some L" and L': "mt_loops s' l = Some L'"
  shows "sl_functors L @ handed_by l l s = opened_by l l s @ sl_functors L'"
proof -
  note run = run [unfolded loop_action_def L(1), simplified]
  show ?thesis
  proof (cases "mt_pc s l")
    case (L_Wait t)
    with run L L' show ?thesis
      by (auto simp: do_wait_def set_pc_def set_loop_def handed_by_def opened_by_def bind_exec_eq_Inr split: if_splits)
  next
    case (L_Dispatch t ready)
    show ?thesis
    proof (cases ready)
      case Nil
      with run L_Dispatch L L' show ?thesis by (auto simp: handed_by_def opened_by_def set_pc_def)
    next
      case (Cons x rest)
      obtain fd ev where "x = (fd, ev)" by fastforce
      with run L_Dispatch Cons have "do_dispatch io l L t rest fd ev s = Inr s'" by simp
      from do_dispatch_tasks [OF this] L' L_Dispatch show ?thesis
        by (auto simp: handed_by_def opened_by_def same_tasks_def)
    qed
  next
    case (L_Accept t ready a)
    with run have "do_accept l t ready a s = Inr s'" by simp
    with L L' L_Accept show ?thesis
      by (cases a)
        (auto simp: handed_by_def opened_by_def set_pc_def set_loop_def add_run_def tq_push_def Let_def bind_exec_eq_Inr
          split: if_splits option.splits)
  next
    case (L_Tasks t)
    with run L L' show ?thesis
      by (cases "sl_functors L")
        (auto simp: do_task_def handed_by_def opened_by_def tasks_at_def set_pc_def set_loop_def same_tasks_def bind_exec_eq_Inr
          split: option.splits dest!: conn_open_tasks)
  qed (use run L L' in \<open>auto simp: handed_by_def opened_by_def set_pc_def\<close>)
qed

lemma action_tasks:
  assumes run: "loop_action io k s = Inr s'" and L': "mt_loops s' l \<noteq> None"
  shows "mt_loops s l \<noteq> None \<and>
    tasks_at l s @ (if mt_loops s k = None then [] else handed_by l k s) = opened_by l k s @ tasks_at l s'"
proof (cases "k = l")
  case True
  show ?thesis
  proof (cases "mt_loops s l")
    case None
    with run L' True show ?thesis by (simp add: loop_action_def)
  next
    case (Some L)
    from L' obtain L1 where L1: "mt_loops s' l = Some L1" by blast
    from own_action_tasks [OF run [unfolded True] Some L1] Some L1 True show ?thesis by (simp add: tasks_at_def)
  qed
next
  case False
  show ?thesis
  proof (cases "\<exists>t ready addr p. mt_pc s k = L_Accept t ready (A_Add addr p l) \<and> mt_loops s k \<noteq> None")
    case True
    then obtain t ready addr p K where pc: "mt_pc s k = L_Accept t ready (A_Add addr p l)" "mt_loops s k = Some K" by blast
    with run obtain L where "mt_loops s l = Some L"
      "s' = set_pc k (L_Accept t ready (A_Push p)) (set_loop l (add_run L (p, addr)) s)"
      by (auto simp: loop_action_def split: option.splits)
    with pc False show ?thesis
      by (simp add: tasks_at_def handed_by_def opened_by_def set_pc_def set_loop_def add_run_def tq_push_def)
  next
    case no: False
    have "mt_loops s' l = mt_loops s l"
    proof (cases "mt_loops s k")
      case None
      with run show ?thesis by (simp add: loop_action_def)
    next
      case (Some K)
      with no have "\<not> queues_on l k s" by (auto simp: queues_on_def split: loop_pc.splits accept_pc.splits)
      with other_action [OF run False] show ?thesis by blast
    qed
    moreover have "(if mt_loops s k = None then [] else handed_by l k s) = []"
      using no by (auto simp: handed_by_def split: loop_pc.splits accept_pc.splits)
    ultimately show ?thesis using L' False by (simp add: tasks_at_def opened_by_def)
  qed
qed

text \<open>The main thread queues and runs nothing.\<close>

lemma main_action_tasks:
  assumes "main_action n (m, s) = Inr (m', s')" "mt_loops s' l \<noteq> None"
  shows "mt_loops s l \<noteq> None \<and> tasks_at l s' = tasks_at l s"
proof (cases m)
  case M_Exit_Acceptor
  with assms show ?thesis
    by (auto simp: tasks_at_def set_loop_def same_tasks_def bind_exec_eq_Inr split: option.splits if_splits dest: acceptor_delete_tasks)
next
  case M_Exit_Loop
  with assms show ?thesis by (auto simp: tasks_at_def bind_exec_eq_Inr split: option.splits if_splits)
next
  case M_Done
  with assms show ?thesis by simp
qed (use main_action_loops [OF assms(1), of l] assms(2) in \<open>auto simp: tasks_at_def\<close>)

lemma run_tasks:
  "run_moves ms (m, s) = Inr (m', t) \<Longrightarrow> mt_loops t l \<noteq> None \<Longrightarrow>
   mt_loops s l \<noteq> None \<and> tasks_at l s @ handed l ms (m, s) = opened l ms (m, s) @ tasks_at l t"
proof (induction ms arbitrary: m s)
  case (Cons a ms)
  show ?case
  proof (cases a)
    case (Thread k io)
    with Cons.prems(1) obtain u where u: "loop_action io k s = Inr u" "run_moves ms (m, u) = Inr (m', t)"
      by (auto simp: bind_exec_eq_Inr split: if_splits)
    from Cons.IH [OF u(2) Cons.prems(2)] have r: "mt_loops u l \<noteq> None"
      "tasks_at l u @ handed l ms (m, u) = opened l ms (m, u) @ tasks_at l t" by simp_all
    from action_tasks [OF u(1) r(1)] have "mt_loops s l \<noteq> None"
      "(tasks_at l s @ (if mt_loops s k = None then [] else handed_by l k s)) @ handed l ms (m, u) =
        (opened_by l k s @ tasks_at l u) @ handed l ms (m, u)" by simp_all
    with r(2) Thread u(1) show ?thesis by simp
  next
    case (Main_Thread n)
    with Cons.prems(1) obtain m1 u where u: "main_action n (m, s) = Inr (m1, u)" "run_moves ms (m1, u) = Inr (m', t)"
      by (auto simp: bind_exec_eq_Inr)
    from Cons.IH [OF u(2) Cons.prems(2)] have r: "mt_loops u l \<noteq> None"
      "tasks_at l u @ handed l ms (m1, u) = opened l ms (m1, u) @ tasks_at l t" by simp_all
    from main_action_tasks [OF u(1) r(1)] r(2) u(1) Main_Thread show ?thesis by simp
  qed
qed simp

section \<open>The queues at the start\<close>

lemma service_loop_new_queue: "service_loop_new poll ctl ea ef wk = Inr L \<Longrightarrow> sl_functors L = []"
  by (auto simp: service_loop_new_def wakeup_new_def wakeup_open_def bind_exec_eq_Inr dest!: register_event_handlers)

lemma acceptor_open_queue:
  "acceptor_open virt pton le os seen addr a st L = Inr (r, a', addr', st', L') \<Longrightarrow> sl_functors L' = sl_functors L"
  by (auto simp: acceptor_open_def Let_def bind_exec_eq_Inr split: if_splits prod.splits dest!: register_event_handlers)

lemma threaded_open_queues:
  assumes "threaded_open ctl pton le os seen net heap b ts = Inr (r, s)" "mt_loops s l = Some L"
  shows "sl_functors L = []"
proof -
  from assms(1) obtain L0 m a addr1 net1 L1 where new: "service_loop_new 2 ctl (ts_epoll b) (ts_eventfd b) (ts_wakeup b) = Inr L0"
    and m: "start_loops ctl ts Map.empty = Inr m"
    and acc: "acceptor_open virt pton le os seen (socket_address_make pton le ''127.0.0.1'' 6543)
      (acceptor_new (ts_obj b) (ts_loop b)) net L0 = Inr (r, a, addr1, net1, L1)"
    and s: "mt_loops s = m(ts_loop b \<mapsto> L1)"
    by (auto simp: threaded_open_def acceptor_server_new_def Let_def bind_exec_eq_Inr)
  show ?thesis
  proof (cases "l = ts_loop b")
    case True
    with assms(2) s acceptor_open_queue [OF acc] service_loop_new_queue [OF new] show ?thesis by simp
  next
    case False
    with assms(2) s have "m l = Some L" by simp
    with start_loops_result [OF m] service_loop_new_queue show ?thesis by fastforce
  qed
qed

section \<open>Property\<close>


text \<open>A connection is accepted and handed to the first loop of the pool, whose thread opens it.\<close>

definition handover_schedule :: "move list" where
  "handover_schedule = map (Thread 50) [ready_io [(5, EPOLLIN)], accept_io 20, quiet_io, quiet_io, quiet_io, quiet_io] @
     map (Thread 61) [quiet_io, quiet_io, quiet_io]"

lemma handover_runs: "case run_moves handover_schedule (M_Sleep, example2_start) of Inl e \<Rightarrow> False | Inr (m, t) \<Rightarrow>
    map fst (handed 61 handover_schedule (M_Sleep, example2_start)) = [1000] \<and>
    (case mt_loops t 61 of None \<Rightarrow> False | Some L \<Rightarrow> sl_functors L = [])"
  by code_simp


end
