(* ===== verification/Loop_Lifetime.thy ===== *)
theory Loop_Lifetime
  imports Service_Loop
begin

text \<open>
  A service loop from its constructor to its destructor, with the descriptors it owns: the epoll instance
  and the eventfd of its wakeup handler.
\<close>

section \<open>The descriptors of a loop\<close>

text \<open>The constructor, with the two descriptors the system answers now open.\<close>

definition service_loop_create ::
  "int \<Rightarrow> epoll_ctl \<Rightarrow> int \<Rightarrow> int \<Rightarrow> ptr \<Rightarrow> net_state \<Rightarrow> ((dispatcher, 'f) service_loop \<times> net_state) exec" where
  "service_loop_create poll ctl epoll_answer eventfd_answer wk_addr st =
     bind_exec (service_loop_new poll ctl epoll_answer eventfd_answer wk_addr) (\<lambda>L.
       Inr (L, st\<lparr>ns_open := ns_open st \<union> {eventfd_answer} \<union> (if poll = 2 then {epoll_answer} else {})\<rparr>))"

text \<open>The descriptor a dispatcher closes in its destructor, and those of a whole loop.\<close>

fun disp_fds :: "dispatcher \<Rightarrow> int set" where
  "disp_fds (D_Select d) = {}"
| "disp_fds (D_Poll d) = {}"
| "disp_fds (D_Epoll d) = (if ep_fd d > 0 then {ep_fd d} else {})"

definition loop_fds :: "(dispatcher, 'f, 'z) service_loop_scheme \<Rightarrow> int set" where
  "loop_fds L = (case sl_dispatcher L of None \<Rightarrow> {} | Some d \<Rightarrow> disp_fds d) \<union>
     (case sl_wakeup L of None \<Rightarrow> {} | Some wk \<Rightarrow> {wk_fd wk})"

lemma epoll_ops_fd:
  "epoll_add_event d h r w = Inr (b, d') \<Longrightarrow> ep_fd d' = ep_fd d"
  "epoll_mod_event d h r w = Inr (b, d') \<Longrightarrow> ep_fd d' = ep_fd d"
  "epoll_del_event d h = Inr (b, d') \<Longrightarrow> ep_fd d' = ep_fd d"
  "epoll_handle_events d os ready t = Inr (n, ready', d') \<Longrightarrow> ep_fd d' = ep_fd d"
  by (auto simp: epoll_defs epoll_events_cases epoll_handle_events_def Let_def bind_exec_eq_Inr split: if_splits sum.splits)

lemma disp_ops_fds:
  "virt_add d h r w = Inr (b, d') \<Longrightarrow> disp_fds d' = disp_fds d"
  "virt_mod d h r w = Inr (b, d') \<Longrightarrow> disp_fds d' = disp_fds d"
  "virt_del d h = Inr (b, d') \<Longrightarrow> disp_fds d' = disp_fds d"
  "virt_handle_events d os ready t = Inr (n, ready', d') \<Longrightarrow> disp_fds d' = disp_fds d"
  by (cases d; auto dest: epoll_ops_fd)+

lemma loop_ops_fds:
  "register_event virt L h r w p = Inr (e, L') \<Longrightarrow> loop_fds L' = loop_fds L \<and> sl_wakeup L' = sl_wakeup L"
  "modify_event virt L h r w p = Inr (e, L') \<Longrightarrow> loop_fds L' = loop_fds L \<and> sl_wakeup L' = sl_wakeup L"
  "delete_event virt L h = Inr (e, L') \<Longrightarrow> loop_fds L' = loop_fds L \<and> sl_wakeup L' = sl_wakeup L"
  by (auto simp: register_event_def modify_event_def delete_event_def the_dispatcher_def bind_exec_eq_Inr Let_def loop_fds_def
      dest: disp_ops_fds split: option.splits if_splits prod.splits)

lemma wakeup_event_fds: "wakeup_event n L = Inr L' \<Longrightarrow> loop_fds L' = loop_fds L \<and> (sl_wakeup L' = None \<longleftrightarrow> sl_wakeup L = None)"
  by (auto simp: wakeup_event_def wakeup_write_some_def loop_fds_def bind_exec_eq_Inr split: option.splits)

lemma loop_step_fds: "loop_step L L' \<Longrightarrow> loop_fds L' = loop_fds L \<and> (sl_wakeup L' = None \<longleftrightarrow> sl_wakeup L = None)"
proof (induction rule: loop_step.induct)
  case (step_quit n L L')
  then have "wakeup_event n (L\<lparr>sl_quit := True\<rparr>) = Inr L'" by (simp add: quit_loop_def)
  from wakeup_event_fds [OF this] show ?case by (simp add: loop_fds_def)
next
  case (step_woken L wk f wk')
  then show ?case by (auto simp: loop_fds_def wakeup_handle_read_def bind_exec_eq_Inr split: sum.splits)
next
  case (step_wait L d os t n ready d')
  then show ?case using disp_ops_fds(4) [of d os "[]" t n ready d'] by (simp add: loop_fds_def)
next
  case (step_add_run L f)
  show ?case by (simp add: loop_fds_def add_run_def)
next
  case (step_lookup L fd)
  show ?case by (simp add: loop_fds_def)
qed (auto dest: loop_ops_fds wakeup_event_fds)

lemma loop_reachable_fds:
  "loop_reachable L0 L \<Longrightarrow> loop_fds L = loop_fds L0 \<and> (sl_wakeup L = None \<longleftrightarrow> sl_wakeup L0 = None)"
  by (induction rule: loop_reachable.induct) (auto dest: loop_step_fds)

lemma service_loop_delete_fds:
  assumes "sl_wakeup L = Some wk" "wk_fd wk > 0"
  shows "\<exists>st' L'. service_loop_delete virt L st = Inr (st', L') \<and> ns_open st' = ns_open st - loop_fds L \<and>
    sl_dispatcher L' = None \<and> sl_handlers L' = Map.empty \<and> sl_wakeup L' = None"
proof -
  have d: "ns_open (virt_delete d st) = ns_open st - disp_fds d" for d
    by (cases d) (simp_all add: select_delete_def poll_delete_def epoll_delete_def net_close_def)
  show ?thesis
    using assms by (cases "sl_dispatcher L")
      (auto simp: service_loop_delete_def wakeup_close_def delete_event_def loop_fds_def net_close_def d)
qed

text \<open>
  Claim C28. Destroying a loop never touches the dispatcher it has already deleted (the handler map is cleared
  first, so the wakeup handler's own \<^verbatim>\<open>delete_event\<close> finds nothing) and runs to its end; whatever happened to the
  loop since its construction, it closes exactly the descriptors its constructor opened.
\<close>

theorem loop_lifetime_descriptors:
  assumes "epoll_ctl_documented ctl" "service_loop_create poll ctl ea ef wk st = Inr (L0, st0)"
    and "ef \<notin> ns_open st" "poll = 2 \<Longrightarrow> ea \<notin> ns_open st" "loop_reachable L0 L"
  shows "\<exists>st2 L'. service_loop_delete virt L st1 = Inr (st2, L') \<and>
    ns_open st2 = ns_open st1 - (ns_open st0 - ns_open st) \<and>
    sl_dispatcher L' = None \<and> sl_handlers L' = Map.empty \<and> sl_wakeup L' = None"
proof -
  from assms(2) have new: "service_loop_new poll ctl ea ef wk = Inr L0"
    and st0: "ns_open st0 = ns_open st \<union> {ef} \<union> (if poll = 2 then {ea} else {})"
    by (auto simp: service_loop_create_def bind_exec_eq_Inr)
  note f = service_loop_new_facts [OF new assms(1)]
  let ?W = "\<lparr>wk_self = wk, wk_fd = ef, wk_unread = []\<rparr>"
  let ?L1 = "\<lambda>d. \<lparr>sl_quit = False, sl_dispatcher = Some d, sl_handlers = Map.empty, sl_functors = [], sl_wakeup = Some ?W\<rparr>"
  from new obtain d where d: "create_dispatcher poll ctl ea = Inr (Some d)"
    and r: "register_event virt (?L1 d) ef True False wk = Inr (0, L0)"
    by (auto simp: service_loop_new_def wakeup_new_def wakeup_open_def bind_exec_eq_Inr)
  have "disp_fds d = (if poll = 2 then {ea} else {})"
    using d by (auto simp: create_dispatcher_def epoll_new_def bind_exec_eq_Inr split: if_splits)
  then have "loop_fds (?L1 d) = {ef} \<union> (if poll = 2 then {ea} else {})" by (simp add: loop_fds_def)
  with loop_ops_fds(1) [OF r] loop_reachable_fds [OF assms(5)] f(5)
  have fds: "loop_fds L = {ef} \<union> (if poll = 2 then {ea} else {})" and "sl_wakeup L \<noteq> None" by simp_all
  then obtain w where w: "sl_wakeup L = Some w" by blast
  have "wk_fd w \<in> loop_fds L" using w by (simp add: loop_fds_def)
  moreover have "0 < x" if "x \<in> loop_fds L" for x
    using that f(6) d unfolding fds
    by (auto simp: create_dispatcher_def epoll_new_def bind_exec_eq_Inr split: if_splits)
  ultimately have "wk_fd w > 0" by blast
  from service_loop_delete_fds [OF w this, of st1] fds st0 assms(3,4) show ?thesis by (auto split: if_splits)
qed

definition lifetime_net :: net_state where
  "lifetime_net = \<lparr>ns_open = {0, 1, 2}, ns_flags = (\<lambda>fd. 0)\<rparr>"

lemma lifetime_sample:
  obtains L0 st0 where "service_loop_create 2 sample_ctl 3 4 100 lifetime_net = Inr (L0 :: (dispatcher, nat) service_loop, st0)"
    "ns_open st0 = {0, 1, 2, 3, 4}"
proof -
  have "case (service_loop_create 2 sample_ctl 3 4 100 lifetime_net :: ((dispatcher, nat) service_loop \<times> net_state) exec) of
      Inl e \<Rightarrow> False | Inr (L0, st0) \<Rightarrow> ns_open st0 = {0, 1, 2, 3, 4}"
    by code_simp
  with that show thesis by (auto split: sum.splits)
qed

theorem loop_lifetime_descriptors_witness:
  "\<exists>L0 st0 st2 L'. service_loop_create 2 sample_ctl 3 4 100 lifetime_net = Inr (L0 :: (dispatcher, nat) service_loop, st0) \<and>
     service_loop_delete virt (add_run L0 7) st0 = Inr (st2, L') \<and> ns_open st2 = {0, 1, 2}"
proof -
  obtain L0 st0 where c: "service_loop_create 2 sample_ctl 3 4 100 lifetime_net = Inr (L0 :: (dispatcher, nat) service_loop, st0)"
    "ns_open st0 = {0, 1, 2, 3, 4}" by (rule lifetime_sample)
  have "4 \<notin> ns_open lifetime_net" "(2 :: int) = 2 \<Longrightarrow> 3 \<notin> ns_open lifetime_net" by (simp_all add: lifetime_net_def)
  from loop_lifetime_descriptors [OF sample_ctl_documented c(1) this reach_step [OF reach_start step_add_run [of _ 7]], of st0]
  obtain st2 L' where "service_loop_delete virt (add_run L0 7) st0 = Inr (st2, L')"
    "ns_open st2 = ns_open st0 - (ns_open st0 - ns_open lifetime_net)" by blast
  with c show ?thesis by (auto simp: lifetime_net_def)
qed

end
