(* ===== verification/Dispatcher_Equiv.thy ===== *)
theory Dispatcher_Equiv
  imports Dispatchers
begin

text \<open>
  A reference for what the dispatchers keep: a map from watched handles to the directions asked for. The select and
  the poll dispatcher implement it exactly, so a service loop cannot tell them apart; and the memory the select
  dispatcher writes stays inside its bit sets exactly as long as every descriptor is below \<open>FD_SETSIZE\<close>.
\<close>

section \<open>The reference\<close>

type_synonym interest_map = "int \<rightharpoonup> bool \<times> bool"

fun ref_call :: "interest_map \<Rightarrow> disp_call \<Rightarrow> interest_map" where
  "ref_call m (Call_Add h r w) = m(h \<mapsto> (r, w))"
| "ref_call m (Call_Mod h r w) = m(h \<mapsto> (r, w))"
| "ref_call m (Call_Del h) = m(h := None)"

text \<open>
  The calls a service loop makes: \<^verbatim>\<open>add_event\<close> for a handle it does not watch, the others for one it does.
\<close>

fun call_ok :: "interest_map \<Rightarrow> disp_call \<Rightarrow> bool" where
  "call_ok m (Call_Add h r w) \<longleftrightarrow> m h = None \<and> fd_in_range h \<and> (r \<or> w)"
| "call_ok m (Call_Mod h r w) \<longleftrightarrow> m h \<noteq> None \<and> (r \<or> w)"
| "call_ok m (Call_Del h) \<longleftrightarrow> m h \<noteq> None"

fun calls_ok :: "interest_map \<Rightarrow> disp_call list \<Rightarrow> bool" where
  "calls_ok m [] \<longleftrightarrow> True"
| "calls_ok m (c # cs) \<longleftrightarrow> call_ok m c \<and> calls_ok (ref_call m c) cs"

section \<open>Dispatchers that implement it\<close>

text \<open>A dispatcher whose registrations cannot fail for descriptors in range.\<close>

locale reliable_dispatcher = exact_dispatcher +
  assumes admits_range: "fd_in_range h \<Longrightarrow> admits d h"
    and add_ok: "invar d \<Longrightarrow> h \<notin> watched d \<Longrightarrow> admits d h \<Longrightarrow> \<exists>d'. add_event V d h r w = Inr (True, d')"
    and mod_ok: "invar d \<Longrightarrow> h \<in> watched d \<Longrightarrow> \<exists>d'. mod_event V d h r w = Inr (True, d')"
    and del_ok: "invar d \<Longrightarrow> h \<in> watched d \<Longrightarrow> \<exists>d'. del_event V d h = Inr (True, d')"
begin

definition implements :: "interest_map \<Rightarrow> 'a \<Rightarrow> bool" where
  "implements m d \<longleftrightarrow> invar d \<and> watched d = dom m \<and> (\<forall>h x. m h = Some x \<longrightarrow> wants d h = x)"

lemma call_implements:
  assumes "implements m d" "call_ok m c"
  shows "\<exists>d'. run_call V d c = Inr (True, d') \<and> implements (ref_call m c) d'"
proof (cases c)
  case (Call_Add h r w)
  with assms have d: "invar d" "h \<notin> watched d" "admits d h" by (auto simp: implements_def admits_range)
  from add_ok [OF this] obtain d' where d': "add_event V d h r w = Inr (True, d')" by blast
  from add_law [OF d(1,2) d'] add_wants [OF d(1,2) d'] Call_Add d' assms(1) show ?thesis by (auto simp: implements_def)
next
  case (Call_Mod h r w)
  with assms have d: "invar d" "h \<in> watched d" by (auto simp: implements_def)
  from mod_ok [OF this] obtain d' where d': "mod_event V d h r w = Inr (True, d')" by blast
  from mod_law [OF d d'] mod_wants [OF d d'] Call_Mod d' assms show ?thesis by (auto simp: implements_def insert_absorb)
next
  case (Call_Del h)
  with assms have d: "invar d" "h \<in> watched d" by (auto simp: implements_def)
  from del_ok [OF this] obtain d' where d': "del_event V d h = Inr (True, d')" by blast
  from del_law [OF d(1) d'] del_wants [OF d(1) d'] Call_Del d' assms show ?thesis by (auto simp: implements_def)
qed

lemma calls_implement:
  "implements m d \<Longrightarrow> calls_ok m cs \<Longrightarrow>
   \<exists>d'. run_calls V d cs = Inr (replicate (length cs) True, d') \<and> implements (foldl ref_call m cs) d'"
proof (induction cs arbitrary: m d)
  case (Cons c cs)
  then have ok: "call_ok m c" "calls_ok (ref_call m c) cs" by simp_all
  from call_implements [OF Cons.prems(1) ok(1)] obtain d1 where
    d1: "run_call V d c = Inr (True, d1)" "implements (ref_call m c) d1" by blast
  from Cons.IH [OF d1(2) ok(2)] d1(1) show ?case by auto
qed auto

end

interpretation selr: reliable_dispatcher select_vtable sel_esets select_invar "\<lambda>d. fd_in_range" select_os_ok select_wants
  by unfold_locales (auto simp: select_vtable_def fdset_op_defs select_invar_def fd_in_range_def)

interpretation polr: reliable_dispatcher poll_vtable poll_watched poll_invar "\<lambda>d h. True" "\<lambda>d os. True" poll_wants
proof (unfold_locales, goal_cases)
  case (3 d h r w)
  then have "pfds_replace h (poll_make_pfd h r w) (poll_fds d) \<noteq> None"
    unfolding pfds_replace_None by (simp add: poll_watched_def)
  then show ?case by (auto simp: poll_vtable_def poll_mod_event_def)
qed (auto simp: poll_vtable_def poll_add_event_def poll_del_event_def)

section \<open>Types of the select dispatcher\<close>

fun call_handle :: "disp_call \<Rightarrow> int" where
  "call_handle (Call_Add h r w) = h"
| "call_handle (Call_Mod h r w) = h"
| "call_handle (Call_Del h) = h"

text \<open>The three bit sets and the highest descriptor are within the arrays.\<close>

definition select_typed :: "dispatcher_select \<Rightarrow> bool" where
  "select_typed d \<longleftrightarrow> sel_rsets d \<union> sel_wsets d \<union> sel_esets d \<subseteq> {0..<FD_SETSIZE} \<and> -1 \<le> sel_maxfd d \<and> sel_maxfd d < FD_SETSIZE"

lemma select_call_typed:
  "select_typed d \<Longrightarrow> fd_in_range (call_handle c) \<Longrightarrow> \<exists>d'. run_call select_vtable d c = Inr (True, d') \<and> select_typed d'"
  by (cases c) (auto simp: fdset_op_defs fd_in_range_def select_typed_def)

lemma select_call_untyped: "\<not> fd_in_range (call_handle c) \<Longrightarrow> run_call select_vtable d c = Inl Out_Of_Range"
  by (cases c) (simp_all add: fdset_op_defs)

lemma select_calls_result:
  "select_typed d \<Longrightarrow>
   (if \<forall>c\<in>set cs. fd_in_range (call_handle c)
    then \<exists>d'. run_calls select_vtable d cs = Inr (replicate (length cs) True, d') \<and> select_typed d'
    else run_calls select_vtable d cs = Inl Out_Of_Range)"
proof (induction cs arbitrary: d)
  case (Cons c cs)
  show ?case
  proof (cases "fd_in_range (call_handle c)")
    case True
    from select_call_typed [OF Cons.prems True] obtain d1 where
      d1: "run_call select_vtable d c = Inr (True, d1)" "select_typed d1" by blast
    from Cons.IH [OF d1(2)] True d1(1) show ?thesis by (auto split: if_splits)
  next
    case False
    with select_call_untyped [OF False, of d] show ?thesis by simp
  qed
qed simp

section \<open>Properties\<close>


definition sample_calls :: "disp_call list" where
  "sample_calls = [Call_Add 4 True False, Call_Add 6 True False, Call_Mod 4 True True, Call_Del 6, Call_Add 6 False True]"


text \<open>
  Claim C32. The select dispatcher's state is well-typed for every sequence of calls, right or wrong, on
  descriptors below \<open>FD_SETSIZE\<close>: all calls succeed, its three sets stay within the arrays and \<^verbatim>\<open>maxfd_\<close> below
  their size; one call on any other descriptor writes outside the arrays, which nothing checks.
\<close>

theorem select_state_typed:
  "if \<forall>c\<in>set cs. fd_in_range (call_handle c)
   then \<exists>d. run_calls select_vtable select_new cs = Inr (replicate (length cs) True, d) \<and>
     sel_rsets d \<union> sel_wsets d \<union> sel_esets d \<subseteq> {0..<FD_SETSIZE} \<and> -1 \<le> sel_maxfd d \<and> sel_maxfd d < FD_SETSIZE
   else run_calls select_vtable select_new cs = Inl Out_Of_Range"
proof -
  have "select_typed select_new" by (simp add: select_typed_def select_new_def FD_SETSIZE_def)
  from select_calls_result [OF this, of cs] show ?thesis unfolding select_typed_def .
qed

theorem select_state_typed_witness:
  "run_calls select_vtable select_new [Call_Add 4 True False, Call_Add 1024 True False] = Inl Out_Of_Range \<and>
   (\<exists>d. run_calls select_vtable select_new sample_calls = Inr (replicate (length sample_calls) True, d) \<and> sel_maxfd d < FD_SETSIZE)"
proof -
  have "\<not> (\<forall>c\<in>set [Call_Add 4 True False, Call_Add 1024 True False]. fd_in_range (call_handle c))"
    by (simp add: fd_in_range_def FD_SETSIZE_def)
  moreover have "\<forall>c\<in>set sample_calls. fd_in_range (call_handle c)" by (simp add: sample_calls_def fd_in_range_def FD_SETSIZE_def)
  ultimately show ?thesis
    using select_state_typed [of "[Call_Add 4 True False, Call_Add 1024 True False]"] select_state_typed [of sample_calls] by metis
qed

end
